(* ===== verification/Prelude.thy ===== *)
theory Prelude
  imports Main "HOL-Library.Word" "HOL-Library.Sublist"
begin

text \<open>
  The base of the development: the types every component uses, the parts of Rust's core library
  the modelled code calls (slices, \<open>Option\<close>, \<open>Result\<close>, saturating and checked arithmetic), and
  the general lemmas on lists and results.

  A byte is a \<^typ>\<open>char\<close>, which in HOL has exactly 256 values, so byte literals of the source read as
  characters here; \<open>byte_val\<close> is a byte's number. A \<open>Vec<u8>\<close>, a \<open>&[u8]\<close>, a \<open>String\<close> and
  a \<open>&str\<close> are all byte lists, as they are in Rust; that a string is UTF-8 is a separate
  predicate (theory \<open>Rust_Str\<close>). A \<open>Result<T, E>\<close> is a sum with the error on the left.
\<close>

type_synonym byte = char
type_synonym bytes = "byte list"
type_synonym ('e, 'a) res = "'e + 'a"

abbreviation Ok :: "'a \<Rightarrow> ('e, 'a) res" where "Ok \<equiv> Inr"
abbreviation Err :: "'e \<Rightarrow> ('e, 'a) res" where "Err \<equiv> Inl"

abbreviation byte_val :: "byte \<Rightarrow> nat" where "byte_val b \<equiv> of_char b"
abbreviation byte_of :: "nat \<Rightarrow> byte" where "byte_of n \<equiv> char_of n"

text \<open>Lemma collections: equations of list and result operations that the component proofs use.\<close>

named_theorems res_simps \<open>equations of results\<close>
named_theorems slice_simps \<open>equations of slices\<close>

section \<open>Results\<close>

text \<open>The \<open>?\<close> operator: go on with the value or return the error.\<close>

fun rbind :: "('e, 'a) res \<Rightarrow> ('a \<Rightarrow> ('e, 'b) res) \<Rightarrow> ('e, 'b) res" where
  "rbind (Inl e) f = Inl e"
| "rbind (Inr x) f = f x"

text \<open>\<open>Option::ok_or\<close>.\<close>

fun ok_or :: "'a option \<Rightarrow> 'e \<Rightarrow> ('e, 'a) res" where
  "ok_or (Some x) e = Inr x"
| "ok_or None e = Inl e"

text \<open>A guard: return the error when the condition holds.\<close>

definition err_if :: "bool \<Rightarrow> 'e \<Rightarrow> ('e, unit) res" where
  "err_if c e = (if c then Inl e else Inr ())"

text \<open>\<open>iter().map(f).collect::<Result<Vec<_>, _>>()\<close>: stops at the first error.\<close>

fun rmap :: "('a \<Rightarrow> ('e, 'b) res) \<Rightarrow> 'a list \<Rightarrow> ('e, 'b list) res" where
  "rmap f [] = Inr []"
| "rmap f (x # xs) = rbind (f x) (\<lambda>y. rbind (rmap f xs) (\<lambda>ys. Inr (y # ys)))"

lemma rbind_cong [fundef_cong]:
  "m = m' \<Longrightarrow> (\<And>x. m' = Inr x \<Longrightarrow> f x = g x) \<Longrightarrow> rbind m f = rbind m' g"
  by (cases m') auto

lemma rbind_Inr_iff [res_simps]: "rbind m f = Inr y \<longleftrightarrow> (\<exists>x. m = Inr x \<and> f x = Inr y)"
  by (cases m) auto

lemma rbind_Inl_iff [res_simps]: "rbind m f = Inl e \<longleftrightarrow> m = Inl e \<or> (\<exists>x. m = Inr x \<and> f x = Inl e)"
  by (cases m) auto

lemma ok_or_Inr_iff [res_simps]: "ok_or m e = Inr x \<longleftrightarrow> m = Some x"
  by (cases m) auto

lemma ok_or_Inl_iff [res_simps]: "ok_or m e = Inl e' \<longleftrightarrow> m = None \<and> e' = e"
  by (cases m) auto

lemma err_if_Inr_iff [res_simps]: "err_if c e = Inr u \<longleftrightarrow> \<not> c"
  by (auto simp: err_if_def)

lemma err_if_Inl_iff [res_simps]: "err_if c e = Inl e' \<longleftrightarrow> c \<and> e' = e"
  by (auto simp: err_if_def)

lemma err_if_simps [simp]: "err_if False e = Inr ()" "err_if True e = Inl e"
  by (simp_all add: err_if_def)

lemma rmap_length: "rmap f xs = Inr ys \<Longrightarrow> length ys = length xs"
  by (induction xs arbitrary: ys) (auto simp: res_simps)

lemma rmap_set: "rmap f xs = Inr ys \<Longrightarrow> y \<in> set ys \<Longrightarrow> \<exists>x\<in>set xs. f x = Inr y"
  by (induction xs arbitrary: ys) (auto simp: res_simps)

lemma rmap_map:
  assumes "\<And>x. x \<in> set xs \<Longrightarrow> f (g x) = Inr (h x)"
  shows "rmap f (map g xs) = Inr (map h xs)"
  using assms by (induction xs) simp_all

section \<open>Machine integers\<close>

text \<open>
  \<open>u16\<close>, \<open>u32\<close>, \<open>u64\<close> and \<open>usize\<close> values are natural numbers with the wrap, the saturation or
  the failed check written out where the source has it; \<open>usize\<close> is 64 bits wide.
\<close>

abbreviation u16_max :: nat where "u16_max \<equiv> 65535"
abbreviation u32_max :: nat where "u32_max \<equiv> 4294967295"
abbreviation u64_max :: nat where "u64_max \<equiv> 18446744073709551615"

definition sat_add :: "nat \<Rightarrow> nat \<Rightarrow> nat" where
  "sat_add a b = min (a + b) u64_max"

definition checked_add :: "nat \<Rightarrow> nat \<Rightarrow> nat option" where
  "checked_add a b = (if a + b \<le> u64_max then Some (a + b) else None)"

text \<open>\<open>saturating_sub\<close> on an unsigned type is subtraction on \<^typ>\<open>nat\<close>.\<close>

abbreviation (input) sat_sub :: "nat \<Rightarrow> nat \<Rightarrow> nat" where "sat_sub a b \<equiv> a - b"

lemma sat_add_exact: "a + b \<le> u64_max \<Longrightarrow> sat_add a b = a + b"
  by (simp add: sat_add_def)

lemma sat_add_le: "sat_add a b \<le> u64_max"
  by (simp add: sat_add_def)

lemma checked_add_Some_iff: "checked_add a b = Some c \<longleftrightarrow> c = a + b \<and> a + b \<le> u64_max"
  by (auto simp: checked_add_def)

lemma checked_add_None_iff: "checked_add a b = None \<longleftrightarrow> u64_max < a + b"
  by (auto simp: checked_add_def)

section \<open>Slices\<close>

text \<open>\<open>strip_prefix\<close>, \<open>starts_with\<close> (the library's \<^const>\<open>prefix\<close>), \<open>iter().position\<close>.\<close>

fun strip_prefix :: "'a list \<Rightarrow> 'a list \<Rightarrow> 'a list option" where
  "strip_prefix [] ys = Some ys"
| "strip_prefix (x # xs) [] = None"
| "strip_prefix (x # xs) (y # ys) = (if x = y then strip_prefix xs ys else None)"

fun position :: "('a \<Rightarrow> bool) \<Rightarrow> 'a list \<Rightarrow> nat option" where
  "position p [] = None"
| "position p (x # xs) = (if p x then Some 0 else map_option Suc (position p xs))"

text \<open>\<open>windows(n).position(|w| w == pat)\<close> and \<open>windows(n).any(|w| w == pat)\<close>.\<close>

fun find_sub :: "'a list \<Rightarrow> 'a list \<Rightarrow> nat option" where
  "find_sub pat [] = (if pat = [] then Some 0 else None)"
| "find_sub pat (x # xs) =
     (if prefix pat (x # xs) then Some 0 else map_option Suc (find_sub pat xs))"

text \<open>\<open>split(|b| b == c)\<close>: the pieces between separators, never none.\<close>

fun split_on :: "'a \<Rightarrow> 'a list \<Rightarrow> 'a list list" where
  "split_on c [] = [[]]"
| "split_on c (x # xs) =
     (if x = c then [] # split_on c xs
      else (case split_on c xs of [] \<Rightarrow> [[x]] | y # ys \<Rightarrow> (x # y) # ys))"

text \<open>\<open>str::split_once\<close> and \<open>str::splitn\<close>.\<close>

fun str_split_once :: "'a \<Rightarrow> 'a list \<Rightarrow> ('a list \<times> 'a list) option" where
  "str_split_once c [] = None"
| "str_split_once c (x # xs) =
     (if x = c then Some ([], xs) else map_option (\<lambda>(a, b). (x # a, b)) (str_split_once c xs))"

fun splitn :: "nat \<Rightarrow> 'a \<Rightarrow> 'a list \<Rightarrow> 'a list list" where
  "splitn 0 c xs = []"
| "splitn (Suc 0) c xs = [xs]"
| "splitn (Suc (Suc n)) c xs =
     (case str_split_once c xs of None \<Rightarrow> [xs] | Some (a, b) \<Rightarrow> a # splitn (Suc n) c b)"

text \<open>\<open>get(i)\<close>: the element, or nothing when the index is out of range.\<close>

definition get_at :: "'a list \<Rightarrow> nat \<Rightarrow> 'a option" where
  "get_at xs i = (if i < length xs then Some (xs ! i) else None)"

text \<open>\<open>chunks(n)\<close>: pieces of \<open>n\<close> elements, the last one possibly shorter.\<close>

function chunks :: "nat \<Rightarrow> 'a list \<Rightarrow> 'a list list" where
  "chunks n xs = (if xs = [] \<or> n = 0 then [] else take n xs # chunks n (drop n xs))"
  by pat_completeness auto
termination
  by (relation "measure (\<lambda>(n, xs). length xs)") auto

declare chunks.simps [simp del]

lemma chunks_Nil [simp]: "chunks n [] = []"
  by (simp add: chunks.simps)

lemma concat_chunks: "0 < n \<Longrightarrow> concat (chunks n xs) = xs"
  by (induction n xs rule: chunks.induct) (subst chunks.simps, auto)

lemma chunks_bounds: "0 < n \<Longrightarrow> c \<in> set (chunks n xs) \<Longrightarrow> c \<noteq> [] \<and> length c \<le> n"
proof (induction n xs rule: chunks.induct)
  case (1 n xs)
  then show ?case
    by (cases "xs = []") (auto simp: chunks.simps [of n xs])
qed

lemma strip_prefix_Some_iff [slice_simps]: "strip_prefix p xs = Some r \<longleftrightarrow> xs = p @ r"
  by (induction p xs rule: strip_prefix.induct) auto

lemma strip_prefix_None_iff [slice_simps]: "strip_prefix p xs = None \<longleftrightarrow> \<not> prefix p xs"
  by (induction p xs rule: strip_prefix.induct) auto

lemma strip_prefix_append [simp]: "strip_prefix p (p @ r) = Some r"
  by (simp add: strip_prefix_Some_iff)

lemma position_None_iff [slice_simps]: "position p xs = None \<longleftrightarrow> (\<forall>x\<in>set xs. \<not> p x)"
  by (induction xs) auto

lemma position_SomeD:
  "position p xs = Some i \<Longrightarrow>
    i < length xs \<and> p (xs ! i) \<and> (\<forall>x\<in>set (take i xs). \<not> p x)"
proof (induction xs arbitrary: i)
  case (Cons x xs)
  then show ?case by (cases i) (auto split: if_splits)
qed simp

lemma position_append:
  "(\<forall>x\<in>set xs. \<not> p x) \<Longrightarrow> p y \<Longrightarrow> position p (xs @ y # ys) = Some (length xs)"
  by (induction xs) auto

lemma position_splitE:
  assumes "position p xs = Some i"
  obtains ys y zs where "xs = ys @ y # zs" "length ys = i" "p y" "\<forall>x\<in>set ys. \<not> p x"
proof -
  from position_SomeD [OF assms] have i: "i < length xs" "p (xs ! i)" "\<forall>x\<in>set (take i xs). \<not> p x"
    by auto
  from i(1) have "xs = take i xs @ xs ! i # drop (Suc i) xs" by (rule id_take_nth_drop)
  with i that show ?thesis by (metis length_take min.absorb4)
qed

lemma split_on_not_Nil [simp]: "split_on c xs \<noteq> []"
  by (cases xs) (auto split: list.splits)

lemma split_on_single [slice_simps]: "c \<notin> set xs \<Longrightarrow> split_on c xs = [xs]"
  by (induction xs) auto

lemma split_on_append [slice_simps]:
  "c \<notin> set xs \<Longrightarrow> split_on c (xs @ c # ys) = xs # split_on c ys"
  by (induction xs) auto

lemma split_on_pieces: "p \<in> set (split_on c xs) \<Longrightarrow> c \<notin> set p"
proof (induction xs arbitrary: p)
  case (Cons x xs)
  show ?case
  proof (cases "split_on c xs")
    case Nil
    then show ?thesis by simp
  next
    case (Cons y ys)
    with Cons.IH Cons.prems show ?thesis by (auto split: if_splits)
  qed
qed simp

lemma split_on_subset: "p \<in> set (split_on c xs) \<Longrightarrow> set p \<subseteq> set xs"
proof (induction xs arbitrary: p)
  case (Cons x xs)
  show ?case
  proof (cases "split_on c xs")
    case Nil
    then show ?thesis by simp
  next
    case (Cons y ys)
    with Cons.IH Cons.prems show ?thesis by (fastforce split: if_splits)
  qed
qed simp

lemma str_split_once_append [slice_simps]:
  "c \<notin> set xs \<Longrightarrow> str_split_once c (xs @ c # ys) = Some (xs, ys)"
  by (induction xs) auto

lemma str_split_once_SomeD:
  "str_split_once c xs = Some (a, b) \<Longrightarrow> xs = a @ c # b \<and> c \<notin> set a"
  by (induction xs arbitrary: a) (auto split: if_splits)

lemma get_at_simps [simp]:
  "get_at [] i = None" "get_at (x # xs) 0 = Some x" "get_at (x # xs) (Suc i) = get_at xs i"
  by (simp_all add: get_at_def)

lemma get_at_Some_iff: "get_at xs i = Some x \<longleftrightarrow> i < length xs \<and> xs ! i = x"
  by (auto simp: get_at_def)

section \<open>Incremental readers\<close>

text \<open>
  Several components read a byte stream whose reads can end anywhere: the visible-byte scan, the
  escape-sequence framer of program reports, the tmux control-mode decoder. The contract they
  share is that the state carried between reads makes the split into reads invisible. A reader
  is a function from a state and a read to the state it leaves and the outputs it made, on the
  states that satisfy its invariant; \<open>run_reads\<close> gives it several reads in turn and joins the outputs.
\<close>

fun run_reads :: "('s \<Rightarrow> 'i list \<Rightarrow> 's \<times> 'o list) \<Rightarrow> 's \<Rightarrow> 'i list list \<Rightarrow> 's \<times> 'o list" where
  "run_reads run s [] = (s, [])"
| "run_reads run s (c # cs) =
     (let (s1, o1) = run s c; (s2, o2) = run_reads run s1 cs in (s2, o1 @ o2))"

locale incremental =
  fixes run :: "'s \<Rightarrow> 'i list \<Rightarrow> 's \<times> 'o list"
    and inv :: "'s \<Rightarrow> bool"
  assumes run_Nil: "inv s \<Longrightarrow> run s [] = (s, [])"
    and run_inv: "inv s \<Longrightarrow> inv (fst (run s xs))"
    and run_append: "inv s \<Longrightarrow> run s (xs @ ys) =
      (fst (run (fst (run s xs)) ys), snd (run s xs) @ snd (run (fst (run s xs)) ys))"
begin

lemma run_reads_concat: "inv s \<Longrightarrow> run_reads run s cs = run s (concat cs)"
  by (induction cs arbitrary: s) (simp_all add: run_Nil run_append run_inv case_prod_unfold Let_def)

lemma reads_irrelevant:
  "inv s \<Longrightarrow> concat cs = concat ds \<Longrightarrow> run_reads run s cs = run_reads run s ds"
  by (simp add: run_reads_concat)

lemma run_reads_inv: "inv s \<Longrightarrow> inv (fst (run_reads run s cs))"
  by (simp add: run_reads_concat run_inv)

end

text \<open>The usual way to meet the contract: a reader that is a fold of a step over single bytes.\<close>

fun run_steps :: "('s \<Rightarrow> 'i \<Rightarrow> 's \<times> 'o list) \<Rightarrow> 's \<Rightarrow> 'i list \<Rightarrow> 's \<times> 'o list" where
  "run_steps f s [] = (s, [])"
| "run_steps f s (x # xs) =
     (let (s1, o1) = f s x; (s2, o2) = run_steps f s1 xs in (s2, o1 @ o2))"

lemma run_steps_append:
  "run_steps f s (xs @ ys) =
    (fst (run_steps f (fst (run_steps f s xs)) ys),
     snd (run_steps f s xs) @ snd (run_steps f (fst (run_steps f s xs)) ys))"
  by (induction xs arbitrary: s) (simp_all add: case_prod_unfold Let_def)

interpretation steps: incremental "run_steps f" "\<lambda>_. True"
  by unfold_locales (simp_all add: run_steps_append)

lemma run_steps_invariant:
  assumes "\<And>s x. P s \<Longrightarrow> P (fst (f s x))" and "P s"
  shows "P (fst (run_steps f s xs))"
  using assms(2) by (induction xs arbitrary: s) (auto simp: assms(1) case_prod_unfold Let_def)

end
