(* ===== verification/Rust_Str.thy ===== *)
theory Rust_Str
  imports Prelude
begin

text \<open>
  The parts of Rust's string library the modelled code uses: decimal printing (\<open>Display\<close> of an
  unsigned integer), \<open>str::parse\<close> and \<open>from_str_radix\<close> of unsigned integers, UTF-8 validation
  (\<open>str::from_utf8\<close>), lossy decoding (\<open>String::from_utf8_lossy\<close>) and \<open>char::is_control\<close>.
  Strings stay byte lists; validity is a predicate.
\<close>

section \<open>Digits and numbers\<close>

definition is_digit :: "byte \<Rightarrow> bool" where
  "is_digit b \<longleftrightarrow> 48 \<le> byte_val b \<and> byte_val b \<le> 57"

text \<open>The value of a digit in a radix up to 16, letters of either case.\<close>

definition digit_val :: "nat \<Rightarrow> byte \<Rightarrow> nat option" where
  "digit_val radix b =
     (let v = byte_val b;
          d = (if 48 \<le> v \<and> v \<le> 57 then v - 48
               else if 97 \<le> v \<and> v \<le> 122 then v - 87
               else if 65 \<le> v \<and> v \<le> 90 then v - 55 else 255)
      in if d < radix then Some d else None)"

fun digits_val :: "nat \<Rightarrow> nat \<Rightarrow> bytes \<Rightarrow> nat option" where
  "digits_val radix acc [] = Some acc"
| "digits_val radix acc (b # bs) =
     (case digit_val radix b of None \<Rightarrow> None | Some d \<Rightarrow> digits_val radix (acc * radix + d) bs)"

text \<open>
  \<open>from_str_radix\<close> of an unsigned type with the given largest value: one leading plus sign is
  taken, there must be a digit, and a value past the largest is an error.
\<close>

definition parse_radix :: "nat \<Rightarrow> nat \<Rightarrow> bytes \<Rightarrow> nat option" where
  "parse_radix radix limit s =
     (let ds = (case s of [] \<Rightarrow> [] | b # r \<Rightarrow> if b = CHR ''+'' then r else s)
      in if ds = [] then None
         else case digits_val radix 0 ds of
                None \<Rightarrow> None
              | Some v \<Rightarrow> if v \<le> limit then Some v else None)"

abbreviation parse_u16_hex :: "bytes \<Rightarrow> nat option" where "parse_u16_hex \<equiv> parse_radix 16 u16_max"
abbreviation parse_u32 :: "bytes \<Rightarrow> nat option" where "parse_u32 \<equiv> parse_radix 10 u32_max"
abbreviation parse_u64 :: "bytes \<Rightarrow> nat option" where "parse_u64 \<equiv> parse_radix 10 u64_max"

text \<open>\<open>Display\<close> of an unsigned integer.\<close>

definition digit_byte :: "nat \<Rightarrow> byte" where
  "digit_byte d = byte_of (48 + d)"

fun show_nat :: "nat \<Rightarrow> bytes" where
  "show_nat n = (if n < 10 then [digit_byte n] else show_nat (n div 10) @ [digit_byte (n mod 10)])"

declare show_nat.simps [simp del]

lemma byte_val_digit_byte [simp]: "d < 10 \<Longrightarrow> byte_val (digit_byte d) = 48 + d"
  by (simp add: digit_byte_def)

lemma is_digit_digit_byte [simp]: "d < 10 \<Longrightarrow> is_digit (digit_byte d)"
  by (simp add: is_digit_def)

lemma digit_byte_neq: "d < 10 \<Longrightarrow> \<not> is_digit c \<Longrightarrow> c \<noteq> digit_byte d"
  using is_digit_digit_byte by blast

lemma digit_val_digit_byte [simp]: "d < 10 \<Longrightarrow> digit_val 10 (digit_byte d) = Some d"
  by (simp add: digit_val_def Let_def)

lemma digit_val_Some_digit: "digit_val 10 b = Some d \<Longrightarrow> is_digit b \<and> d < 10"
  by (auto simp: digit_val_def is_digit_def Let_def split: if_splits)

lemma digit_val_is_digit: "is_digit b \<Longrightarrow> digit_val 10 b = Some (byte_val b - 48)"
  by (auto simp: digit_val_def is_digit_def Let_def)

lemma digits_val_append:
  "digits_val r acc (xs @ ys) =
     (case digits_val r acc xs of None \<Rightarrow> None | Some v \<Rightarrow> digits_val r v ys)"
  by (induction xs arbitrary: acc) (auto split: option.splits)

lemma show_nat_not_Nil [simp]: "show_nat n \<noteq> []"
  by (subst show_nat.simps) simp

lemma show_nat_digits: "b \<in> set (show_nat n) \<Longrightarrow> is_digit b"
proof (induction n rule: show_nat.induct)
  case (1 n)
  then show ?case by (cases "n < 10") (auto simp: show_nat.simps [of n])
qed

lemma show_nat_word: "CHR '' '' \<notin> set (show_nat n)" "\<forall>b\<in>set (show_nat n). byte_val b < 128"
  by (fastforce simp: is_digit_def dest: show_nat_digits)+

lemma digits_val_show: "digits_val 10 0 (show_nat n) = Some n"
proof (induction n rule: show_nat.induct)
  case (1 n)
  then show ?case
    by (cases "n < 10") (simp_all add: show_nat.simps [of n] digits_val_append)
qed

lemma digits_val_all_digits: "\<forall>b\<in>set s. is_digit b \<Longrightarrow> \<exists>v. digits_val 10 acc s = Some v"
  by (induction s arbitrary: acc) (auto simp: digit_val_is_digit)

lemma digits_val_bound:
  "digits_val 10 acc s = Some v \<Longrightarrow> v < (acc + 1) * 10 ^ length s"
proof (induction s arbitrary: acc)
  case (Cons b bs)
  then obtain d where d: "digit_val 10 b = Some d" "digits_val 10 (acc * 10 + d) bs = Some v"
    by (auto split: option.splits)
  from d(1) have "d < 10" by (simp add: digit_val_Some_digit)
  then have "acc * 10 + d + 1 \<le> (acc + 1) * 10" by simp
  then have "(acc * 10 + d + 1) * 10 ^ length bs \<le> (acc + 1) * 10 * 10 ^ length bs"
    by (rule mult_le_mono1)
  with Cons.IH [OF d(2)] have "v < (acc + 1) * 10 * 10 ^ length bs"
    by (rule less_le_trans)
  then show ?case by (simp add: algebra_simps)
qed simp

lemma digits_val_small:
  assumes "digits_val 10 0 s = Some v" and "length s \<le> n"
  shows "v < 10 ^ n"
proof -
  from digits_val_bound [OF assms(1)] have "v < 10 ^ length s" by simp
  also have "\<dots> \<le> 10 ^ n" using assms(2) by (simp add: power_increasing)
  finally show ?thesis .
qed

lemma show_nat_length: "n < 10 ^ k \<Longrightarrow> 0 < k \<Longrightarrow> length (show_nat n) \<le> k"
proof (induction k arbitrary: n)
  case (Suc k)
  show ?case
  proof (cases "n < 10")
    case True
    then show ?thesis by (simp add: show_nat.simps)
  next
    case False
    with Suc.prems have "n div 10 < 10 ^ k" "0 < k"
      by (auto simp: less_mult_imp_div_less mult.commute intro!: gr0I)
    then have "length (show_nat (n div 10)) \<le> k" by (rule Suc.IH)
    with False show ?thesis by (simp add: show_nat.simps [of n])
  qed
qed simp

lemma show_nat_hd_not_plus: "show_nat n = b # r \<Longrightarrow> b \<noteq> CHR ''+''"
  using show_nat_digits [of b n] by (auto simp: is_digit_def)

lemma parse_radix_show: "n \<le> limit \<Longrightarrow> parse_radix 10 limit (show_nat n) = Some n"
  by (cases "show_nat n")
     (use digits_val_show [of n] show_nat_hd_not_plus [of n] in \<open>auto simp: parse_radix_def Let_def\<close>)

lemma parse_radix_le: "parse_radix r limit s = Some v \<Longrightarrow> v \<le> limit"
  by (auto simp: parse_radix_def Let_def split: option.splits if_splits)

lemma parse_radix_digits:
  assumes "s \<noteq> []" "\<forall>b\<in>set s. is_digit b"
  shows "parse_radix 10 limit s =
    (case digits_val 10 0 s of Some v \<Rightarrow> if v \<le> limit then Some v else None | None \<Rightarrow> None)"
proof -
  from assms obtain b r where s: "s = b # r" by (cases s) auto
  with assms(2) have "is_digit b" by simp
  then have "b \<noteq> CHR ''+''" by (auto simp: is_digit_def)
  with s show ?thesis by (simp add: parse_radix_def Let_def split: option.splits)
qed

lemma graphic_not_space: "33 \<le> byte_val b \<Longrightarrow> b \<noteq> CHR '' '' \<and> CHR '' '' \<noteq> b"
  by auto

section \<open>UTF-8\<close>

text \<open>
  The scan of one character as \<open>Utf8Chunks\<close> does it: how many bytes it takes and whether they are
  a character. A sequence that breaks off takes the bytes that could have begun one.
\<close>

definition utf8_cont :: "nat \<Rightarrow> bool" where
  "utf8_cont v \<longleftrightarrow> 128 \<le> v \<and> v < 192"

definition utf8_second :: "nat \<Rightarrow> nat \<Rightarrow> bool" where
  "utf8_second x v \<longleftrightarrow>
     (if x = 224 then 160 \<le> v \<and> v < 192
      else if x = 237 then 128 \<le> v \<and> v < 160
      else if x = 240 then 144 \<le> v \<and> v < 192
      else if x = 244 then 128 \<le> v \<and> v < 144
      else utf8_cont v)"

definition byte_at :: "bytes \<Rightarrow> nat \<Rightarrow> nat" where
  "byte_at s i = (if i < length s then byte_val (s ! i) else 0)"

definition utf8_head :: "bytes \<Rightarrow> nat \<times> bool" where
  "utf8_head s =
     (let x = byte_at s 0 in
      if x < 128 then (1, True)
      else if 194 \<le> x \<and> x \<le> 223 then (if utf8_cont (byte_at s 1) then (2, True) else (1, False))
      else if 224 \<le> x \<and> x \<le> 239 then
        (if utf8_second x (byte_at s 1)
         then if utf8_cont (byte_at s 2) then (3, True) else (2, False)
         else (1, False))
      else if 240 \<le> x \<and> x \<le> 244 then
        (if utf8_second x (byte_at s 1)
         then if utf8_cont (byte_at s 2)
              then if utf8_cont (byte_at s 3) then (4, True) else (3, False)
              else (2, False)
         else (1, False))
      else (1, False))"

lemma utf8_head_pos: "0 < fst (utf8_head s)"
  by (simp add: utf8_head_def Let_def)

function utf8_valid :: "bytes \<Rightarrow> bool" where
  "utf8_valid s =
     (if s = [] then True
      else if snd (utf8_head s) then utf8_valid (drop (fst (utf8_head s)) s) else False)"
  by pat_completeness auto
termination
  by (relation "measure length") (auto simp: utf8_head_pos)

text \<open>\<open>from_utf8_lossy\<close>: each broken sequence becomes the replacement character's three bytes.\<close>

definition replacement :: bytes where
  "replacement = [CHR 0xEF, CHR 0xBF, CHR 0xBD]"

function from_utf8_lossy :: "bytes \<Rightarrow> bytes" where
  "from_utf8_lossy s =
     (if s = [] then []
      else (if snd (utf8_head s) then take (fst (utf8_head s)) s else replacement)
           @ from_utf8_lossy (drop (fst (utf8_head s)) s))"
  by pat_completeness auto
termination
  by (relation "measure length") (auto simp: utf8_head_pos)

text \<open>\<open>chars().any(char::is_control)\<close>: U+0000 to U+001F and U+007F to U+009F.\<close>

function has_control :: "bytes \<Rightarrow> bool" where
  "has_control s =
     (if s = [] then False
      else ((fst (utf8_head s) = 1 \<and> (byte_at s 0 < 32 \<or> byte_at s 0 = 127))
       \<or> (fst (utf8_head s) = 2 \<and> byte_at s 0 = 194 \<and> byte_at s 1 < 160)
       \<or> has_control (drop (fst (utf8_head s)) s)))"
  by pat_completeness auto
termination
  by (relation "measure length") (auto simp: utf8_head_pos)

declare utf8_valid.simps [simp del] from_utf8_lossy.simps [simp del] has_control.simps [simp del]

lemma utf8_valid_Nil [simp]: "utf8_valid []"
  by (simp add: utf8_valid.simps)

lemma from_utf8_lossy_Nil [simp]: "from_utf8_lossy [] = []"
  by (simp add: from_utf8_lossy.simps)

lemma has_control_Nil [simp]: "\<not> has_control []"
  by (simp add: has_control.simps)

lemma utf8_head_ascii: "byte_val b < 128 \<Longrightarrow> utf8_head (b # s) = (1, True)"
  by (simp add: utf8_head_def byte_at_def)

lemma utf8_valid_ascii_Cons [simp]: "byte_val b < 128 \<Longrightarrow> utf8_valid (b # s) = utf8_valid s"
  by (subst utf8_valid.simps) (simp add: utf8_head_ascii)

lemma from_utf8_lossy_ascii_Cons [simp]:
  "byte_val b < 128 \<Longrightarrow> from_utf8_lossy (b # s) = b # from_utf8_lossy s"
  by (subst from_utf8_lossy.simps) (simp add: utf8_head_ascii)

lemma utf8_valid_ascii: "\<forall>b\<in>set s. byte_val b < 128 \<Longrightarrow> utf8_valid s"
  by (induction s) simp_all

lemma utf8_valid_ascii_append: "\<forall>b\<in>set s. byte_val b < 128 \<Longrightarrow> utf8_valid (s @ t) = utf8_valid t"
  by (induction s) simp_all

lemma from_utf8_lossy_valid: "utf8_valid s \<Longrightarrow> from_utf8_lossy s = s"
proof (induction s rule: utf8_valid.induct)
  case (1 s)
  show ?case
  proof (cases "s = []")
    case False
    with "1.prems" have "snd (utf8_head s)" "utf8_valid (drop (fst (utf8_head s)) s)"
      by (simp_all add: utf8_valid.simps [of s] split: if_splits)
    with "1.IH" False show ?thesis by (simp add: from_utf8_lossy.simps [of s])
  qed simp
qed

text \<open>
  Bytes below 128 occur in a string only as characters of their own, so a string without control
  characters has no control byte. This holds of any byte list, valid or not.
\<close>

lemma utf8_head_tail_high:
  assumes "0 < i" "i < fst (utf8_head s)"
  shows "128 \<le> byte_at s i"
proof -
  have "\<And>x v. utf8_second x v \<Longrightarrow> 128 \<le> v" by (auto simp: utf8_second_def utf8_cont_def split: if_splits)
  moreover have "\<And>v. utf8_cont v \<Longrightarrow> 128 \<le> v" by (simp add: utf8_cont_def)
  moreover have "i = Suc 0 \<or> i = 2 \<or> i = 3"
    using assms by (auto simp: utf8_head_def Let_def split: if_splits)
  ultimately show ?thesis
    using assms by (elim disjE) (auto simp: utf8_head_def Let_def split: if_splits)
qed

lemma utf8_head_first_high: "fst (utf8_head s) \<noteq> 1 \<Longrightarrow> 128 \<le> byte_at s 0"
  by (auto simp: utf8_head_def Let_def split: if_splits)

lemma has_control_bytes:
  "\<not> has_control s \<Longrightarrow> b \<in> set s \<Longrightarrow> 32 \<le> byte_val b \<and> byte_val b \<noteq> 127"
proof (induction s rule: has_control.induct)
  case (1 s)
  let ?n = "fst (utf8_head s)"
  from "1.prems"(2) have ne: "s \<noteq> []" by auto
  with "1.prems"(1) have rest: "\<not> has_control (drop ?n s)"
    and one: "?n = 1 \<Longrightarrow> 32 \<le> byte_at s 0 \<and> byte_at s 0 \<noteq> 127"
    by (auto simp: has_control.simps [of s])
  from "1.prems"(2) have "b \<in> set (take ?n s) \<or> b \<in> set (drop ?n s)"
    by (metis append_take_drop_id Un_iff set_append)
  then show ?case
  proof
    assume "b \<in> set (take ?n s)"
    then obtain i where i: "i < ?n" "i < length s" "s ! i = b"
      by (auto simp: in_set_conv_nth)
    then have b: "byte_val b = byte_at s i" by (simp add: byte_at_def)
    show ?thesis
    proof (cases "i = 0")
      case True
      then show ?thesis using b one utf8_head_first_high [of s] by (cases "?n = 1") auto
    next
      case False
      then show ?thesis using b utf8_head_tail_high [of i s] i by simp
    qed
  next
    assume "b \<in> set (drop ?n s)"
    with "1.IH" ne rest show ?thesis by simp
  qed
qed

section \<open>UTF-8 text in pieces\<close>

lemma byte_at_prefix: "i < n \<Longrightarrow> n \<le> length s \<Longrightarrow> byte_at (take n s @ t) i = byte_at s i"
  by (simp add: byte_at_def nth_append)

lemma byte_at_0: "0 < byte_at s i \<Longrightarrow> i < length s"
  by (simp add: byte_at_def split: if_splits)

lemma second_pos: "utf8_second x v \<Longrightarrow> 0 < v"
  by (auto simp: utf8_second_def utf8_cont_def split: if_splits)

lemma cont_pos: "utf8_cont v \<Longrightarrow> 0 < v"
  by (simp add: utf8_cont_def)

lemma utf8_head_shapes:
  assumes "snd (utf8_head s)"
  shows "fst (utf8_head s) = 1 \<and> byte_at s 0 < 128 \<or>
    fst (utf8_head s) = 2 \<and> 194 \<le> byte_at s 0 \<and> byte_at s 0 \<le> 223 \<and> utf8_cont (byte_at s 1) \<or>
    fst (utf8_head s) = 3 \<and> 224 \<le> byte_at s 0 \<and> byte_at s 0 \<le> 239 \<and> utf8_second (byte_at s 0) (byte_at s 1) \<and> utf8_cont (byte_at s 2) \<or>
    fst (utf8_head s) = 4 \<and> 240 \<le> byte_at s 0 \<and> byte_at s 0 \<le> 244 \<and> utf8_second (byte_at s 0) (byte_at s 1) \<and> utf8_cont (byte_at s 2) \<and>
      utf8_cont (byte_at s 3)"
  using assms unfolding utf8_head_def Let_def by (simp split: if_splits)

lemma utf8_head_length: "s \<noteq> [] \<Longrightarrow> snd (utf8_head s) \<Longrightarrow> fst (utf8_head s) \<le> length s"
  using utf8_head_shapes [of s] byte_at_0 [of s 1] byte_at_0 [of s 2] byte_at_0 [of s 3] cont_pos
  by (cases s) (auto simp: less_Suc_eq_le)

lemma utf8_head_same:
  assumes h: "snd (utf8_head s)" and b: "\<And>i. i < fst (utf8_head s) \<Longrightarrow> byte_at u i = byte_at s i"
  shows "utf8_head u = utf8_head s"
proof -
  have b0: "byte_at u 0 = byte_at s 0" by (rule b) (rule utf8_head_pos)
  from utf8_head_shapes [OF h] show ?thesis
  proof (elim disjE conjE)
    assume "byte_at s 0 < 128"
    then show ?thesis using b0 by (simp add: utf8_head_def)
  next
    assume n: "fst (utf8_head s) = 2" "194 \<le> byte_at s 0" "byte_at s 0 \<le> 223"
    then have "byte_at u 1 = byte_at s 1" using b by simp
    then show ?thesis using n b0 by (simp add: utf8_head_def Let_def)
  next
    assume n: "fst (utf8_head s) = 3" "224 \<le> byte_at s 0" "byte_at s 0 \<le> 239"
    then have "byte_at u 1 = byte_at s 1" "byte_at u 2 = byte_at s 2" using b by simp_all
    then show ?thesis using n b0 by (simp add: utf8_head_def Let_def)
  next
    assume n: "fst (utf8_head s) = 4" "240 \<le> byte_at s 0" "byte_at s 0 \<le> 244"
    then have "byte_at u 1 = byte_at s 1" "byte_at u 2 = byte_at s 2" "byte_at u 3 = byte_at s 3" using b by simp_all
    then show ?thesis using n b0 by (simp add: utf8_head_def Let_def)
  qed
qed

lemma utf8_head_local:
  assumes "s \<noteq> []" "snd (utf8_head s)"
  shows "utf8_head (take (fst (utf8_head s)) s @ t) = utf8_head s"
  by (rule utf8_head_same [OF assms(2)]) (rule byte_at_prefix [OF _ utf8_head_length [OF assms]])

lemma utf8_valid_char:
  assumes "s \<noteq> []" "snd (utf8_head s)"
  shows "utf8_valid (take (fst (utf8_head s)) s @ t) = utf8_valid t"
proof -
  let ?n = "fst (utf8_head s)"
  have n: "?n \<le> length s" "0 < ?n" using utf8_head_length [OF assms] utf8_head_pos by auto
  then have "take ?n s @ t \<noteq> []" using assms(1) by auto
  then show ?thesis
    using utf8_head_local [OF assms, of t] assms(2) n by (subst utf8_valid.simps) simp
qed

lemma utf8_valid_append: "utf8_valid s \<Longrightarrow> utf8_valid (s @ t) = utf8_valid t"
proof (induction s rule: utf8_valid.induct)
  case (1 s)
  show ?case
  proof (cases "s = []")
    case False
    with "1.prems" have h: "snd (utf8_head s)" "utf8_valid (drop (fst (utf8_head s)) s)"
      by (simp_all add: utf8_valid.simps [of s] split: if_splits)
    with "1.IH" False have "utf8_valid (drop (fst (utf8_head s)) s @ t) = utf8_valid t" by simp
    with utf8_valid_char [OF False h(1), of "drop (fst (utf8_head s)) s @ t"] show ?thesis
      by (metis append.assoc append_take_drop_id)
  qed simp
qed

text \<open>A cut at an ASCII byte leaves UTF-8 on both sides.\<close>

lemma utf8_head_before:
  assumes "a \<noteq> []" "byte_val c < 128"
  shows "snd (utf8_head (a @ c # b)) \<Longrightarrow> utf8_head a = utf8_head (a @ c # b) \<and> fst (utf8_head a) \<le> length a"
proof -
  let ?s = "a @ c # b"
  assume h: "snd (utf8_head ?s)"
  have n: "fst (utf8_head ?s) \<le> length a"
  proof (rule ccontr)
    assume "\<not> fst (utf8_head ?s) \<le> length a"
    then have "128 \<le> byte_at ?s (length a)" using assms(1) by (intro utf8_head_tail_high) auto
    with assms(2) show False by (simp add: byte_at_def)
  qed
  then have "byte_at a i = byte_at ?s i" if "i < fst (utf8_head ?s)" for i
    using that by (simp add: byte_at_def nth_append)
  from utf8_head_same [OF h this] n show ?thesis by simp
qed

lemma utf8_valid_before: "utf8_valid (a @ c # b) \<Longrightarrow> byte_val c < 128 \<Longrightarrow> utf8_valid a"
proof (induction a rule: utf8_valid.induct)
  case (1 a)
  show ?case
  proof (cases "a = []")
    case False
    with "1.prems"(1) have h: "snd (utf8_head (a @ c # b))" "utf8_valid (drop (fst (utf8_head (a @ c # b))) (a @ c # b))"
      by (simp_all add: utf8_valid.simps [of "a @ c # b"] split: if_splits)
    have same: "utf8_head a = utf8_head (a @ c # b)" "fst (utf8_head a) \<le> length a"
      using utf8_head_before [OF False "1.prems"(2) h(1)] by auto
    then have "drop (fst (utf8_head (a @ c # b))) (a @ c # b) = drop (fst (utf8_head a)) a @ c # b" by simp
    then have "utf8_valid (drop (fst (utf8_head a)) a)" using "1.IH" [OF False] h same(1) "1.prems"(2) by simp
    then show ?thesis using h(1) same(1) by (subst utf8_valid.simps) simp
  qed simp
qed

lemma utf8_valid_cut: "byte_val c < 128 \<Longrightarrow> utf8_valid (a @ c # b) \<longleftrightarrow> utf8_valid a \<and> utf8_valid b"
  using utf8_valid_before [of a c b] utf8_valid_append [of a "c # b"] by auto

lemma split_on_utf8: "utf8_valid xs \<Longrightarrow> byte_val c < 128 \<Longrightarrow> p \<in> set (split_on c xs) \<Longrightarrow> utf8_valid p"
proof (induction "length xs" arbitrary: xs rule: less_induct)
  case less
  show ?case
  proof (cases "c \<in> set xs")
    case True
    then obtain ys zs where xs: "xs = ys @ c # zs" "c \<notin> set ys" by (metis split_list_first)
    with less.prems have "utf8_valid ys" "utf8_valid zs" by (auto simp: utf8_valid_cut)
    with less.hyps [of zs] less.prems xs show ?thesis by (auto simp: split_on_append)
  qed (use less.prems in \<open>simp add: split_on_single\<close>)
qed

lemma utf8_valid_replacement: "utf8_valid replacement"
  unfolding replacement_def by code_simp

lemma from_utf8_lossy_utf8: "utf8_valid (from_utf8_lossy s)"
proof (induction s rule: from_utf8_lossy.induct)
  case (1 s)
  then show ?case
    by (cases "s = []")
      (simp_all add: from_utf8_lossy.simps [of s] utf8_valid_char utf8_valid_append [OF utf8_valid_replacement])
qed

lemma from_utf8_lossy_eq_Nil: "from_utf8_lossy s = [] \<longleftrightarrow> s = []"
  using utf8_head_pos [of s] by (cases "s = []") (auto simp: from_utf8_lossy.simps [of s] replacement_def)

end
