(* ===== verification/Tmux_Ids.thy ===== *)
theory Tmux_Ids
  imports Rust_Str
begin

text \<open>
  Model of \<^verbatim>\<open>crates/chan-tmux/src/ids.rs\<close> and \<^verbatim>\<open>crates/chan-tmux/src/error.rs\<close>: the typed ids of
  tmux panes, windows and sessions with their text form, and the protocol errors. The three id
  types come from one macro; its \<open>parse\<close> body is \<open>parse_id\<close> here, and the contract of the macro is
  the locale \<open>tmux_id\<close>, interpreted for each of the three types.
\<close>

section \<open>Errors\<close>

datatype error =
    LineTooLong
  | BlockTooLarge
  | UnexpectedReply
  | ReplyShape
  | NoPaneState
  | Malformed bytes
  | TooManyPending
  | NotReady
  | Poisoned
  | BadArgument bytes

fun show_error :: "error \<Rightarrow> bytes" where
  "show_error LineTooLong = ''tmux control line exceeds the length bound''"
| "show_error BlockTooLarge = ''tmux reply block exceeds its size bound''"
| "show_error UnexpectedReply = ''tmux sent a reply no command was waiting for''"
| "show_error ReplyShape = ''tmux reply does not have the promised row count''"
| "show_error NoPaneState = ''tmux capture has no pane state to size it''"
| "show_error (Malformed what) = ''malformed tmux notification: '' @ what"
| "show_error TooManyPending = ''too many tmux commands waiting for a reply''"
| "show_error NotReady = ''tmux has not announced a session yet''"
| "show_error Poisoned = ''tmux control stream already failed''"
| "show_error (BadArgument what) = ''tmux command argument refused: '' @ what"

section \<open>Ids\<close>

datatype pane_id = PaneId (pane_num: nat)
datatype window_id = WindowId (window_num: nat)
datatype session_id = SessionId (session_num: nat)

text \<open>The macro's \<open>parse\<close>: the sigil, then one to ten digits that fit a \<open>u32\<close>.\<close>

definition parse_id :: "bytes \<Rightarrow> bytes \<Rightarrow> nat option" where
  "parse_id sigil text =
     (case strip_prefix sigil text of
        None \<Rightarrow> None
      | Some digits \<Rightarrow>
          if digits = [] \<or> 10 < length digits \<or> \<not> list_all is_digit digits then None
          else parse_u32 digits)"

definition show_id :: "bytes \<Rightarrow> nat \<Rightarrow> bytes" where
  "show_id sigil n = sigil @ show_nat n"

definition parse_pane_id :: "bytes \<Rightarrow> pane_id option" where
  "parse_pane_id text = map_option PaneId (parse_id ''%'' text)"

definition parse_window_id :: "bytes \<Rightarrow> window_id option" where
  "parse_window_id text = map_option WindowId (parse_id ''@'' text)"

definition parse_session_id :: "bytes \<Rightarrow> session_id option" where
  "parse_session_id text = map_option SessionId (parse_id ''$'' text)"

definition show_pane_id :: "pane_id \<Rightarrow> bytes" where
  "show_pane_id p = show_id ''%'' (pane_num p)"

definition show_window_id :: "window_id \<Rightarrow> bytes" where
  "show_window_id w = show_id ''@'' (window_num w)"

definition show_session_id :: "session_id \<Rightarrow> bytes" where
  "show_session_id s = show_id ''$'' (session_num s)"

lemma is_digit_ascii: "is_digit b \<Longrightarrow> 33 \<le> byte_val b \<and> byte_val b < 127"
  by (simp add: is_digit_def)

lemma parse_id_show:
  assumes "n \<le> u32_max"
  shows "parse_id sigil (show_id sigil n) = Some n"
proof -
  have "length (show_nat n) \<le> 10" using assms by (intro show_nat_length) simp_all
  moreover have "list_all is_digit (show_nat n)" by (simp add: list_all_iff show_nat_digits)
  ultimately show ?thesis
    using assms by (simp add: parse_id_def show_id_def parse_radix_show)
qed

lemma parse_id_le: "parse_id sigil text = Some n \<Longrightarrow> n \<le> u32_max"
  by (auto simp: parse_id_def dest: parse_radix_le split: option.splits if_splits)

section \<open>The contract of the id macro\<close>

locale tmux_id =
  fixes parse :: "bytes \<Rightarrow> 'i option"
    and disp :: "'i \<Rightarrow> bytes"
    and num :: "'i \<Rightarrow> nat"
  assumes parse_disp: "num i \<le> u32_max \<Longrightarrow> parse (disp i) = Some i"
    and parse_le: "parse s = Some i \<Longrightarrow> num i \<le> u32_max"
    and disp_graphic: "b \<in> set (disp i) \<Longrightarrow> 33 \<le> byte_val b \<and> byte_val b < 127"
begin

lemma disp_no_space: "CHR '' '' \<notin> set (disp i)"
  using disp_graphic [of "CHR '' ''" i] by auto

lemma disp_ascii: "\<forall>b\<in>set (disp i). byte_val b < 128"
  using disp_graphic [of _ i] by fastforce

lemma disp_utf8: "utf8_valid (disp i)"
  by (rule utf8_valid_ascii) (rule disp_ascii)

lemma disp_inject: "num i \<le> u32_max \<Longrightarrow> num j \<le> u32_max \<Longrightarrow> disp i = disp j \<Longrightarrow> i = j"
  by (metis parse_disp option.inject)

end

interpretation pane_ids: tmux_id parse_pane_id show_pane_id pane_num
proof unfold_locales
  fix i :: pane_id and s b
  show "pane_num i \<le> u32_max \<Longrightarrow> parse_pane_id (show_pane_id i) = Some i"
    by (cases i) (simp add: parse_pane_id_def show_pane_id_def parse_id_show)
  show "parse_pane_id s = Some i \<Longrightarrow> pane_num i \<le> u32_max"
    by (auto simp: parse_pane_id_def dest: parse_id_le)
  show "b \<in> set (show_pane_id i) \<Longrightarrow> 33 \<le> byte_val b \<and> byte_val b < 127"
    by (auto simp: show_pane_id_def show_id_def dest!: show_nat_digits is_digit_ascii)
qed

interpretation window_ids: tmux_id parse_window_id show_window_id window_num
proof unfold_locales
  fix i :: window_id and s b
  show "window_num i \<le> u32_max \<Longrightarrow> parse_window_id (show_window_id i) = Some i"
    by (cases i) (simp add: parse_window_id_def show_window_id_def parse_id_show)
  show "parse_window_id s = Some i \<Longrightarrow> window_num i \<le> u32_max"
    by (auto simp: parse_window_id_def dest: parse_id_le)
  show "b \<in> set (show_window_id i) \<Longrightarrow> 33 \<le> byte_val b \<and> byte_val b < 127"
    by (auto simp: show_window_id_def show_id_def dest!: show_nat_digits is_digit_ascii)
qed

interpretation session_ids: tmux_id parse_session_id show_session_id session_num
proof unfold_locales
  fix i :: session_id and s b
  show "session_num i \<le> u32_max \<Longrightarrow> parse_session_id (show_session_id i) = Some i"
    by (cases i) (simp add: parse_session_id_def show_session_id_def parse_id_show)
  show "parse_session_id s = Some i \<Longrightarrow> session_num i \<le> u32_max"
    by (auto simp: parse_session_id_def dest: parse_id_le)
  show "b \<in> set (show_session_id i) \<Longrightarrow> 33 \<le> byte_val b \<and> byte_val b < 127"
    by (auto simp: show_session_id_def show_id_def dest!: show_nat_digits is_digit_ascii)
qed

end
