(* ===== verification/Tmux_Escape.thy ===== *)
theory Tmux_Escape
  imports Rust_Str
begin

text \<open>
  Model of \<^verbatim>\<open>crates/chan-tmux/src/escape.rs\<close>: the byte escaping of \<open>%output\<close> data and the hex
  pairs of \<open>send-keys -H\<close>. The index loop of \<open>unescape_output\<close> is a recursion on the bytes that
  remain; the slice \<open>data.get(i + 1..i + 4)\<close> is \<open>get3\<close> of the bytes after the backslash.
\<close>

definition get3 :: "bytes \<Rightarrow> bytes option" where
  "get3 rest = (if 3 \<le> length rest then Some (take 3 rest) else None)"

definition is_octal :: "byte \<Rightarrow> bool" where
  "is_octal b \<longleftrightarrow> 48 \<le> byte_val b \<and> byte_val b \<le> 55"

definition octal_byte :: "bytes option \<Rightarrow> byte option" where
  "octal_byte digits =
     (case digits of
        None \<Rightarrow> None
      | Some d \<Rightarrow>
          if length d \<noteq> 3 then None
          else if \<not> list_all is_octal d then None
          else let v = (byte_val (d ! 0) - 48) * 64 + (byte_val (d ! 1) - 48) * 8
                       + (byte_val (d ! 2) - 48)
               in if v < 256 then Some (byte_of v) else None)"

fun unescape_output :: "bytes \<Rightarrow> bytes" where
  "unescape_output [] = []"
| "unescape_output (b # rest) =
     (if b = CHR 0x5C then
        (case octal_byte (get3 rest) of
           Some v \<Rightarrow> v # unescape_output (drop 3 rest)
         | None \<Rightarrow> CHR ''?'' # unescape_output rest)
      else if byte_val b < 32 then unescape_output rest
      else b # unescape_output rest)"

definition escape_byte :: "byte \<Rightarrow> bytes" where
  "escape_byte b =
     (if byte_val b < 32 \<or> b = CHR 0x5C
      then [CHR 0x5C, byte_of (48 + byte_val b div 64), byte_of (48 + byte_val b div 8 mod 8),
            byte_of (48 + byte_val b mod 8)]
      else [b])"

definition escape_output :: "bytes \<Rightarrow> bytes" where
  "escape_output data = concat (map escape_byte data)"

definition hex_digit :: "nat \<Rightarrow> byte" where
  "hex_digit d = ''0123456789abcdef'' ! d"

fun hex_pairs_from :: "nat \<Rightarrow> bytes \<Rightarrow> bytes" where
  "hex_pairs_from i [] = []"
| "hex_pairs_from i (b # bs) =
     (if 0 < i then '' '' else [])
     @ [hex_digit (byte_val b div 16), hex_digit (byte_val b mod 16)]
     @ hex_pairs_from (Suc i) bs"

definition hex_pairs :: "bytes \<Rightarrow> bytes" where
  "hex_pairs data = hex_pairs_from 0 data"

section \<open>Escaping\<close>

lemma octal_digits:
  fixes v :: nat
  assumes "v < 256"
  shows "(v div 64) * 64 + (v div 8 mod 8) * 8 + v mod 8 = v"
proof -
  have "v div 64 = v div 8 div 8" by (simp add: div_mult2_eq [symmetric])
  then have "v div 64 * 8 + v div 8 mod 8 = v div 8" by simp
  then have "v div 64 * 64 + v div 8 mod 8 * 8 = v div 8 * 8" by (simp add: algebra_simps)
  then show ?thesis by simp
qed

lemma octal_digit_byte: "d < 8 \<Longrightarrow> byte_val (byte_of (48 + d)) = 48 + d"
  by simp

lemma octal_byte_escape:
  assumes "v = byte_val b"
  shows "octal_byte (get3 (byte_of (48 + v div 64) # byte_of (48 + v div 8 mod 8)
           # byte_of (48 + v mod 8) # rest)) = Some b"
proof -
  have v: "v < 256" using assms by simp
  then have "v div 64 < 8" by (simp add: less_mult_imp_div_less)
  moreover have "v div 8 mod 8 \<le> 7" "v mod 8 \<le> 7"
    using mod_less_divisor [of 8 "v div 8"] mod_less_divisor [of 8 v] by linarith+
  ultimately show ?thesis
    using octal_digits [OF v] v
    by (simp add: octal_byte_def get3_def is_octal_def octal_digit_byte assms Let_def numeral_2_eq_2)
qed

lemma unescape_escape_byte: "unescape_output (escape_byte b @ rest) = b # unescape_output rest"
proof (cases "byte_val b < 32 \<or> b = CHR 0x5C")
  case True
  then show ?thesis
    using octal_byte_escape [OF refl, of b rest]
    by (simp add: escape_byte_def numeral_3_eq_3 del: of_char_of)
next
  case False
  then show ?thesis by (simp add: escape_byte_def)
qed

lemma unescape_escape: "unescape_output (escape_output data @ rest) = data @ unescape_output rest"
  by (induction data) (simp_all add: escape_output_def unescape_escape_byte)

lemma escape_byte_range: "x \<in> set (escape_byte b) \<Longrightarrow> 32 \<le> byte_val x"
proof -
  have "byte_val b div 64 < 8" using less_mult_imp_div_less [of "byte_val b" 8 64]
    by (simp add: order_less_trans [OF nat_of_char_less_256])
  then show "x \<in> set (escape_byte b) \<Longrightarrow> 32 \<le> byte_val x"
    by (auto simp: escape_byte_def split: if_splits)
qed

lemma escape_output_range: "x \<in> set (escape_output data) \<Longrightarrow> 32 \<le> byte_val x"
  by (auto simp: escape_output_def dest: escape_byte_range)

lemma unescape_length: "length (unescape_output data) \<le> length data"
  by (induction data rule: unescape_output.induct) (auto split: option.splits simp: le_SucI)

section \<open>Hex pairs\<close>

text \<open>The sixteen digits, evaluated once.\<close>

lemma hex_digit_table:
  "list_all (\<lambda>d. digit_val 16 (hex_digit d) = Some d \<and> 33 \<le> byte_val (hex_digit d)
     \<and> byte_val (hex_digit d) < 127) [0..<16]"
  by (simp add: hex_digit_def digit_val_def upt_conv_Cons)

lemma hex_digit_val:
  "d < 16 \<Longrightarrow> digit_val 16 (hex_digit d) = Some d"
  "d < 16 \<Longrightarrow> 33 \<le> byte_val (hex_digit d)"
  "d < 16 \<Longrightarrow> byte_val (hex_digit d) < 127"
  using hex_digit_table by (simp_all add: list_all_iff)

lemma hex_digit_neq: "d < 16 \<Longrightarrow> digit_val 16 b = None \<Longrightarrow> hex_digit d \<noteq> b \<and> b \<noteq> hex_digit d"
  using hex_digit_val(1) [of d] by auto

lemma hex_pair_val:
  "digits_val 16 0 [hex_digit (byte_val b div 16), hex_digit (byte_val b mod 16)] = Some (byte_val b)"
proof -
  have "byte_val b div 16 < 16" by (rule less_mult_imp_div_less) simp
  then show ?thesis by (simp add: hex_digit_val)
qed

lemma hex_pair_no_space:
  "CHR '' '' \<notin> set [hex_digit (byte_val b div 16), hex_digit (byte_val b mod 16)]"
proof -
  have "byte_val b div 16 < 16" by (rule less_mult_imp_div_less) simp
  then show ?thesis
    using hex_digit_val(2) [of "byte_val b div 16"] hex_digit_val(2) [of "byte_val b mod 16"]
    by (auto dest: graphic_not_space)
qed

text \<open>Splitting the argument list at spaces gives one two-digit word per byte.\<close>

lemma hex_pairs_from_Suc: "hex_pairs_from (Suc i) bs = hex_pairs_from (Suc j) bs"
proof (induction bs arbitrary: i j)
  case (Cons b bs)
  from Cons.IH [of "Suc i" "Suc j"] show ?case by simp
qed simp

lemma hex_pairs_Cons:
  "hex_pairs (b # bs) = [hex_digit (byte_val b div 16), hex_digit (byte_val b mod 16)]
     @ (if bs = [] then [] else CHR '' '' # hex_pairs bs)"
proof -
  have "hex_pairs_from (Suc 0) bs = (if bs = [] then [] else CHR '' '' # hex_pairs bs)"
    using hex_pairs_from_Suc [of "Suc 0" _ 0] by (cases bs) (simp_all add: hex_pairs_def)
  then show ?thesis by (simp add: hex_pairs_def)
qed

lemma split_hex_pairs:
  "data \<noteq> [] \<Longrightarrow> split_on CHR '' '' (hex_pairs data) =
     map (\<lambda>b. [hex_digit (byte_val b div 16), hex_digit (byte_val b mod 16)]) data"
proof (induction data)
  case (Cons b bs)
  show ?case
  proof (cases "bs = []")
    case True
    then show ?thesis
      using split_on_single [OF hex_pair_no_space [of b]] by (simp add: hex_pairs_Cons hex_pairs_def)
  next
    case False
    with Cons.IH split_on_append [OF hex_pair_no_space [of b], of "hex_pairs bs"] show ?thesis
      by (simp add: hex_pairs_Cons)
  qed
qed simp

lemma hex_pairs_graphic: "x \<in> set (hex_pairs data) \<Longrightarrow> 32 \<le> byte_val x \<and> byte_val x < 127"
proof (induction data)
  case Nil
  then show ?case by (simp add: hex_pairs_def)
next
  case (Cons b bs)
  have "byte_val b div 16 < 16" by (rule less_mult_imp_div_less) simp
  then show ?case
    using Cons hex_digit_val(2,3) [of "byte_val b div 16"] hex_digit_val(2,3) [of "byte_val b mod 16"]
    by (auto simp: hex_pairs_Cons split: if_splits)
qed

section \<open>Properties\<close>

text \<open>
  C23. \<open>unescape_output\<close> reads back every byte string \<open>escape_output\<close> writes, and the escaped text
  holds no byte below a space, so no pane output can break a control line.
\<close>

theorem output_round_trip:
  "unescape_output (escape_output data) = data \<and> list_all (\<lambda>b. 32 \<le> byte_val b) (escape_output data)"
  using unescape_escape [of data "[]"] escape_output_range [of _ data] by (auto simp: list_all_iff)

end
