(* ===== verification/Tmux_Layout.thy ===== *)
theory Tmux_Layout
  imports Tmux_Ids Tmux_Escape
begin

text \<open>
  Model of \<^verbatim>\<open>crates/chan-tmux/src/layout.rs\<close>: window layouts in tmux's text form and in the
  JSON form of tmux 3.8. The text parser's slice and index are the bytes that remain
  (\<open>rest\<close>, that is \<open>s[i..]\<close>); its cell counter is \<open>cells\<close>. The JSON reader is serde_json, which
  is not part of the repository: \<open>json_api\<close> holds the five operations the code calls.
\<close>

unbundle bit_operations_syntax

definition MAX_DEPTH :: nat where "MAX_DEPTH = 16"
definition MAX_CELLS :: nat where "MAX_CELLS = 1024"
definition MAX_DIM :: nat where "MAX_DIM = 100000"

lemmas layout_bounds = MAX_DEPTH_def MAX_CELLS_def MAX_DIM_def

section \<open>Layouts\<close>

datatype cell = Cell (cell_width: nat) (cell_height: nat) (cell_x: nat) (cell_y: nat) (cell_kind: kind)
  and kind = Pane pane_id | Horizontal "cell list" | Vertical "cell list"

record layout =
  root :: cell

datatype layout_error =
    Syntax bytes
  | Checksum
  | TooDeep
  | TooLarge
  | Unsupported

fun show_layout_error :: "layout_error \<Rightarrow> bytes" where
  "show_layout_error (Syntax what) = ''layout syntax: '' @ what"
| "show_layout_error Checksum = ''layout checksum mismatch''"
| "show_layout_error TooDeep = ''layout nests too deeply''"
| "show_layout_error TooLarge = ''layout has too many cells''"
| "show_layout_error Unsupported = ''layout form not supported''"

fun walk :: "cell \<Rightarrow> pane_id list \<Rightarrow> pane_id list"
  and walk_all :: "cell list \<Rightarrow> pane_id list \<Rightarrow> pane_id list" where
  "walk (Cell w h x y (Pane i)) out = out @ [i]"
| "walk (Cell w h x y (Horizontal cs)) out = walk_all cs out"
| "walk (Cell w h x y (Vertical cs)) out = walk_all cs out"
| "walk_all [] out = out"
| "walk_all (c # cs) out = walk_all cs (walk c out)"

definition panes :: "layout \<Rightarrow> pane_id list" where
  "panes l = walk (root l) []"

fun checksum_from :: "16 word \<Rightarrow> bytes \<Rightarrow> 16 word" where
  "checksum_from csum [] = csum"
| "checksum_from csum (b # bs) =
     (let csum = drop_bit 1 csum + push_bit 15 (csum AND 1);
          csum = csum + of_nat (byte_val b)
      in checksum_from csum bs)"

definition checksum :: "bytes \<Rightarrow> 16 word" where
  "checksum layout = checksum_from 0 layout"

section \<open>The text parser\<close>

record parser =
  rest :: bytes
  cells :: nat

definition number :: "parser \<Rightarrow> (layout_error, nat \<times> parser) res" where
  "number p =
     (let ds = takeWhile is_digit (rest p); p' = p\<lparr>rest := dropWhile is_digit (rest p)\<rparr>
      in if ds = [] \<or> 9 < length ds then Err (Syntax ''number'')
         else rbind (ok_or (parse_u32 ds) (Syntax ''number'')) (\<lambda>n. Ok (n, p')))"

definition expect_byte :: "byte \<Rightarrow> parser \<Rightarrow> (layout_error, parser) res" where
  "expect_byte b p =
     (case rest p of
        [] \<Rightarrow> Err (Syntax ''separator'')
      | c # r \<Rightarrow> if c = b then Ok (p\<lparr>rest := r\<rparr>) else Err (Syntax ''separator''))"

lemma number_rest: "number p = Inr (n, p') \<Longrightarrow>
    cells p' = cells p \<and> length (rest p') < length (rest p) \<and> n < 10 ^ 9"
proof -
  assume num: "number p = Inr (n, p')"
  let ?ds = "takeWhile is_digit (rest p)"
  from num have ds: "?ds \<noteq> []" "length ?ds \<le> 9" and parsed: "parse_u32 ?ds = Some n"
    and p': "p' = p\<lparr>rest := dropWhile is_digit (rest p)\<rparr>"
    by (auto simp: number_def Let_def res_simps split: if_splits)
  have "length (rest p) = length ?ds + length (dropWhile is_digit (rest p))"
    by (metis length_append takeWhile_dropWhile_id)
  moreover have "\<forall>b\<in>set ?ds. is_digit b" by (auto dest: set_takeWhileD)
  with parsed ds have "digits_val 10 0 ?ds = Some n"
    by (auto simp: parse_radix_digits split: option.splits if_splits)
  then have "n < 10 ^ 9" using ds(2) by (rule digits_val_small)
  ultimately show ?thesis using ds p' by (cases ?ds) auto
qed

lemma expect_rest: "expect_byte b p = Inr p' \<Longrightarrow>
    cells p' = cells p \<and> length (rest p') < length (rest p)"
  by (auto simp: expect_byte_def split: list.splits if_splits)

text \<open>
  \<open>Parser::cell\<close>: \<open>cell_header\<close> is the size and position before the cell's kind, \<open>parse_cell\<close>
  the rest, and \<open>parse_more\<close> the loop over the further children of a split. The recursion ends
  because every cell takes bytes off the rest, which is shown of the results on the way.
\<close>

definition cell_header ::
    "parser \<Rightarrow> (layout_error, nat \<times> nat \<times> nat \<times> nat \<times> parser) res" where
  "cell_header p =
     rbind (number p) (\<lambda>(width, p).
     rbind (expect_byte CHR ''x'' p) (\<lambda>p.
     rbind (number p) (\<lambda>(height, p).
     rbind (expect_byte CHR '','' p) (\<lambda>p.
     rbind (number p) (\<lambda>(x, p).
     rbind (expect_byte CHR '','' p) (\<lambda>p.
     rbind (number p) (\<lambda>(y, p).
       if MAX_DIM < width \<or> MAX_DIM < height then Err TooLarge
       else Ok (width, height, x, y, p))))))))"

lemma cell_header_rest: "cell_header p = Inr (w, h, x, y, p') \<Longrightarrow>
    cells p' = cells p \<and> length (rest p') < length (rest p) \<and>
    w \<le> MAX_DIM \<and> h \<le> MAX_DIM \<and> x < 10 ^ 9 \<and> y < 10 ^ 9"
  by (auto simp: cell_header_def res_simps split: if_splits dest!: number_rest expect_rest)

function (sequential) parse_cell :: "nat \<Rightarrow> parser \<Rightarrow> (layout_error, cell \<times> parser) res"
  and parse_more :: "nat \<Rightarrow> cell list \<Rightarrow> parser \<Rightarrow> (layout_error, cell list \<times> parser) res" where
  "parse_cell depth p =
     (if MAX_DEPTH < depth then Err TooDeep
      else if MAX_CELLS < cells p + 1 then Err TooLarge
      else if get_at (rest p) 0 = Some CHR ''<'' then Err Unsupported
      else rbind (cell_header (p\<lparr>cells := cells p + 1\<rparr>)) (\<lambda>(width, height, x, y, p1).
        case rest p1 of
          [] \<Rightarrow> Err (Syntax ''cell'')
        | open # r \<Rightarrow>
            if open = CHR '','' then
              rbind (number (p1\<lparr>rest := r\<rparr>)) (\<lambda>(n, p2).
                Ok (Cell width height x y (Pane (PaneId n)), p2))
            else if open = CHR ''{'' \<or> open = CHR ''['' then
              rbind (parse_cell (depth + 1) (p1\<lparr>rest := r\<rparr>)) (\<lambda>(c, p2).
              rbind (parse_more (depth + 1) [c] p2) (\<lambda>(children, p3).
              rbind (expect_byte (if open = CHR ''{'' then CHR ''}'' else CHR '']'') p3) (\<lambda>p4.
                Ok (Cell width height x y
                      (if open = CHR ''{'' then Horizontal children else Vertical children), p4))))
            else Err (Syntax ''cell'')))"
| "parse_more depth children p =
     (case rest p of
        [] \<Rightarrow> Ok (children, p)
      | b # r \<Rightarrow>
          if b = CHR '','' then
            rbind (parse_cell depth (p\<lparr>rest := r\<rparr>)) (\<lambda>(c, p1).
              parse_more depth (children @ [c]) p1)
          else Ok (children, p))"
  by pat_completeness auto

lemma parse_shrinks:
  "parse_cell_parse_more_dom (Inl (d, p)) \<Longrightarrow>
     (\<And>c p'. parse_cell d p = Inr (c, p') \<Longrightarrow> length (rest p') < length (rest p))"
  "parse_cell_parse_more_dom (Inr (d, cs, p)) \<Longrightarrow>
     (\<And>cs' p'. parse_more d cs p = Inr (cs', p') \<Longrightarrow> length (rest p') \<le> length (rest p))"
proof (induction d p and d cs p rule: parse_cell_parse_more.pinduct)
  case (1 depth p)
  note unfolded = "1.prems" [unfolded parse_cell.psimps [OF "1.hyps"]]
  from unfolded have guards: "\<not> MAX_DEPTH < depth" "\<not> MAX_CELLS < cells p + 1"
      "get_at (rest p) 0 \<noteq> Some CHR ''<''"
    by (simp_all split: if_split_asm)
  with unfolded obtain w h x y p1 where hd: "cell_header (p\<lparr>cells := cells p + 1\<rparr>) = Inr (w, h, x, y, p1)"
    and kind: "(case rest p1 of [] \<Rightarrow> False | b # r \<Rightarrow> True)"
    by (cases "cell_header (p\<lparr>cells := cells p + 1\<rparr>)") (auto split: list.splits)
  from kind obtain b r where p1: "rest p1 = b # r" by (cases "rest p1") auto
  from cell_header_rest [OF hd] p1 have short: "length r + 1 < length (rest p)" by simp
  show ?case
  proof (cases "b = CHR '',''")
    case True
    with "1.prems" guards hd p1 short show ?thesis
      by (auto simp: parse_cell.psimps [OF "1.hyps"] res_simps dest!: number_rest)
  next
    case False
    with "1.prems" guards hd p1 obtain c2 p2 cs p3 where
        split: "b = CHR ''{'' \<or> b = CHR ''[''"
      and first: "parse_cell (depth + 1) (p1\<lparr>rest := r\<rparr>) = Inr (c2, p2)"
      and more: "parse_more (depth + 1) [c2] p2 = Inr (cs, p3)"
      and last: "length (rest p') < length (rest p3)"
      by (auto simp: parse_cell.psimps [OF "1.hyps"] res_simps split: if_splits dest!: expect_rest)
    note step = guards hd refl refl refl refl p1 False split
    from "1.IH"(1) [OF step first] "1.IH"(2) [OF step first refl more] last short
    show ?thesis by simp
  qed
next
  case (2 depth children p)
  show ?case
  proof (cases "rest p")
    case Nil
    with "2.prems" show ?thesis by (simp add: parse_more.psimps [OF "2.hyps"])
  next
    case (Cons b r)
    with "2.prems" "2.IH" [OF Cons] show ?thesis
      by (fastforce simp: parse_more.psimps [OF "2.hyps"] res_simps split: if_splits)
  qed
qed

termination parse_cell
  by (relation "measure (\<lambda>a. case a of Inl (d, p) \<Rightarrow> length (rest p) | Inr (d, cs, p) \<Rightarrow> length (rest p))")
     (auto dest!: cell_header_rest parse_shrinks(1))

declare parse_cell.simps [simp del] parse_more.simps [simp del]

definition parse_text :: "bytes \<Rightarrow> (layout_error, layout) res" where
  "parse_text text =
     rbind (ok_or (str_split_once CHR '','' text) (Syntax ''checksum'')) (\<lambda>(csum, body).
       if length csum \<noteq> 4 then Err (Syntax ''checksum'')
       else rbind (ok_or (parse_u16_hex csum) (Syntax ''checksum'')) (\<lambda>want.
         if want \<noteq> unat (checksum body) then Err Checksum
         else rbind (parse_cell 0 \<lparr>rest = body, cells = 0\<rparr>) (\<lambda>(r, p).
           if rest p \<noteq> [] then Err (Syntax ''trailing bytes'') else Ok \<lparr>root = r\<rparr>)))"

section \<open>The JSON form\<close>

text \<open>The operations of \<open>serde_json\<close> the code calls, over an abstract type of values.\<close>

record 'v json_api =
  json_from_str :: "bytes \<Rightarrow> 'v option"
  json_get :: "'v \<Rightarrow> bytes \<Rightarrow> 'v option"
  json_as_u64 :: "'v \<Rightarrow> nat option"
  json_as_str :: "'v \<Rightarrow> bytes option"
  json_as_array :: "'v \<Rightarrow> 'v list option"

definition json_num :: "'v json_api \<Rightarrow> 'v \<Rightarrow> bytes \<Rightarrow> (layout_error, nat) res" where
  "json_num api v key =
     ok_or (Option.bind (Option.bind (json_get api v key) (json_as_u64 api))
              (\<lambda>n. if n \<le> u32_max then Some n else None))
           (Syntax ''json number'')"

function json_cell :: "'v json_api \<Rightarrow> 'v \<Rightarrow> nat \<Rightarrow> nat \<Rightarrow> (layout_error, cell \<times> nat) res"
  and json_cells :: "'v json_api \<Rightarrow> 'v list \<Rightarrow> nat \<Rightarrow> nat \<Rightarrow> (layout_error, cell list \<times> nat) res" where
  "json_cell api v depth n =
     (if MAX_DEPTH < depth then Err TooDeep
      else if MAX_CELLS < n + 1 then Err TooLarge
      else rbind (json_num api v ''w'') (\<lambda>width.
           rbind (json_num api v ''h'') (\<lambda>height.
             if MAX_DIM < width \<or> MAX_DIM < height then Err TooLarge
             else rbind (json_num api v ''x'') (\<lambda>x.
                  rbind (json_num api v ''y'') (\<lambda>y.
                  let t = Option.bind (json_get api v ''t'') (json_as_str api) in
                  if t = Some ''p'' then
                    rbind (ok_or (Option.bind (Option.bind (json_get api v ''I'') (json_as_str api))
                                    parse_pane_id)
                                 (Syntax ''json pane id''))
                      (\<lambda>i. Ok (Cell width height x y (Pane i), n + 1))
                  else if t = Some ''h'' \<or> t = Some ''v'' then
                    rbind (ok_or (case Option.bind (json_get api v ''c'') (json_as_array api) of
                                    None \<Rightarrow> None
                                  | Some c \<Rightarrow> if c = [] then None else Some c)
                                 (Syntax ''json children'')) (\<lambda>items.
                    rbind (json_cells api items (depth + 1) (n + 1)) (\<lambda>(children, m).
                      Ok (Cell width height x y
                            (if t = Some ''h'' then Horizontal children else Vertical children), m)))
                  else Err Unsupported)))))"
| "json_cells api [] depth n = Ok ([], n)"
| "json_cells api (v # vs) depth n =
     rbind (json_cell api v depth n) (\<lambda>(c, m).
     rbind (json_cells api vs depth m) (\<lambda>(cs, k). Ok (c # cs, k)))"
  by pat_completeness auto
termination
  by (relation "measures [\<lambda>a. case a of Inl (api, v, d, n) \<Rightarrow> 18 - d | Inr (api, vs, d, n) \<Rightarrow> 18 - d,
                          \<lambda>a. case a of Inl (api, v, d, n) \<Rightarrow> 0 | Inr (api, vs, d, n) \<Rightarrow> Suc (length vs)]")
     (auto simp: MAX_DEPTH_def)

declare json_cell.simps [simp del]

definition parse_json :: "'v json_api \<Rightarrow> bytes \<Rightarrow> (layout_error, layout) res" where
  "parse_json api text =
     rbind (ok_or (json_from_str api text) (Syntax ''json'')) (\<lambda>v.
     rbind (ok_or (json_get api v ''L'') (Syntax ''json root'')) (\<lambda>r.
     rbind (json_cell api r 0 0) (\<lambda>(r, n). Ok \<lparr>root = r\<rparr>)))"

definition parse_layout :: "'v json_api \<Rightarrow> bytes \<Rightarrow> (layout_error, layout) res" where
  "parse_layout api text = (if prefix ''{'' text then parse_json api text else parse_text text)"

section \<open>What a parsed layout is bounded by\<close>

primrec cell_count :: "cell \<Rightarrow> nat" and kind_count :: "kind \<Rightarrow> nat" where
  "cell_count (Cell w h x y k) = Suc (kind_count k)"
| "kind_count (Pane i) = 0"
| "kind_count (Horizontal cs) = sum_list (map cell_count cs)"
| "kind_count (Vertical cs) = sum_list (map cell_count cs)"

primrec cell_depth :: "cell \<Rightarrow> nat" and kind_depth :: "kind \<Rightarrow> nat" where
  "cell_depth (Cell w h x y k) = kind_depth k"
| "kind_depth (Pane i) = 0"
| "kind_depth (Horizontal cs) = Suc (foldr max (map cell_depth cs) 0)"
| "kind_depth (Vertical cs) = Suc (foldr max (map cell_depth cs) 0)"

primrec cell_ok :: "cell \<Rightarrow> bool" and kind_ok :: "kind \<Rightarrow> bool" where
  "cell_ok (Cell w h x y k) \<longleftrightarrow> w \<le> MAX_DIM \<and> h \<le> MAX_DIM \<and> x \<le> u32_max \<and> y \<le> u32_max \<and> kind_ok k"
| "kind_ok (Pane i) \<longleftrightarrow> pane_num i \<le> u32_max"
| "kind_ok (Horizontal cs) \<longleftrightarrow> cs \<noteq> [] \<and> list_all id (map cell_ok cs)"
| "kind_ok (Vertical cs) \<longleftrightarrow> cs \<noteq> [] \<and> list_all id (map cell_ok cs)"

definition layout_ok :: "layout \<Rightarrow> bool" where
  "layout_ok l \<longleftrightarrow>
     cell_depth (root l) \<le> MAX_DEPTH \<and> cell_count (root l) \<le> MAX_CELLS \<and> cell_ok (root l)"

lemma foldr_max_le: "foldr max xs (0::nat) \<le> n \<longleftrightarrow> (\<forall>x\<in>set xs. x \<le> n)"
  by (induction xs) auto

definition cell_within :: "nat \<Rightarrow> cell \<Rightarrow> bool" where
  "cell_within d c \<longleftrightarrow> d + cell_depth c \<le> MAX_DEPTH \<and> cell_ok c"

lemma cell_within_pane:
  "d \<le> MAX_DEPTH \<Longrightarrow> w \<le> MAX_DIM \<Longrightarrow> h \<le> MAX_DIM \<Longrightarrow> x \<le> u32_max \<Longrightarrow> y \<le> u32_max \<Longrightarrow>
    pane_num i \<le> u32_max \<Longrightarrow> cell_within d (Cell w h x y (Pane i))"
  by (simp add: cell_within_def)

lemma cell_within_split:
  assumes "d \<le> MAX_DEPTH" "w \<le> MAX_DIM" "h \<le> MAX_DIM" "x \<le> u32_max" "y \<le> u32_max"
    and "cs \<noteq> []" "\<forall>c\<in>set cs. cell_within (d + 1) c"
  shows "cell_within d (Cell w h x y (Horizontal cs))" "cell_within d (Cell w h x y (Vertical cs))"
proof -
  from assms(6,7) have "d + 1 \<le> MAX_DEPTH" by (cases cs) (auto simp: cell_within_def)
  moreover have "foldr max (map cell_depth cs) 0 \<le> MAX_DEPTH - (d + 1)"
    using assms(7) by (auto simp: foldr_max_le cell_within_def)
  moreover have "list_all id (map cell_ok cs)"
    using assms(7) by (auto simp: list_all_iff cell_within_def)
  ultimately show "cell_within d (Cell w h x y (Horizontal cs))"
    "cell_within d (Cell w h x y (Vertical cs))"
    using assms(1-6) by (simp_all add: cell_within_def)
qed

lemma parse_cell_within:
  "parse_cell d p = Inr (c, p') \<Longrightarrow>
     cell_within d c \<and> cells p' = cells p + cell_count c \<and> cells p' \<le> MAX_CELLS"
  "parse_more d cs p = Inr (cs', p') \<Longrightarrow> cells p \<le> MAX_CELLS \<Longrightarrow> \<forall>c\<in>set cs. cell_within d c \<Longrightarrow>
     (\<forall>c\<in>set cs'. cell_within d c) \<and> length cs \<le> length cs' \<and> cells p' \<le> MAX_CELLS \<and>
     cells p' + sum_list (map cell_count cs) = cells p + sum_list (map cell_count cs')"
proof (induction d p and d cs p arbitrary: c p' and cs' p' rule: parse_cell_parse_more.induct)
  case (1 depth p)
  note unfolded = "1.prems" [unfolded parse_cell.simps [of depth p]]
  from unfolded have guards: "\<not> MAX_DEPTH < depth" "\<not> MAX_CELLS < cells p + 1"
      "get_at (rest p) 0 \<noteq> Some CHR ''<''"
    by (simp_all split: if_split_asm)
  with unfolded obtain w h x y p1 b r where hd: "cell_header (p\<lparr>cells := cells p + 1\<rparr>) = Inr (w, h, x, y, p1)"
    and p1: "rest p1 = b # r"
    by (cases "cell_header (p\<lparr>cells := cells p + 1\<rparr>)") (auto split: list.splits)
  from cell_header_rest [OF hd] have dims: "cells p1 = cells p + 1" "w \<le> MAX_DIM" "h \<le> MAX_DIM"
      "x \<le> u32_max" "y \<le> u32_max" by auto
  show ?case
  proof (cases "b = CHR '',''")
    case True
    with unfolded guards hd p1 dims show ?thesis
      by (auto simp: res_simps intro!: cell_within_pane dest!: number_rest)
  next
    case False
    with unfolded guards hd p1 obtain c2 p2 cs p3 where
        split: "b = CHR ''{'' \<or> b = CHR ''[''"
      and first: "parse_cell (depth + 1) (p1\<lparr>rest := r\<rparr>) = Inr (c2, p2)"
      and more: "parse_more (depth + 1) [c2] p2 = Inr (cs, p3)"
      and last: "cells p' = cells p3"
      and c: "c = Cell w h x y (if b = CHR ''{'' then Horizontal cs else Vertical cs)"
      by (auto simp: res_simps split: if_splits dest!: expect_rest)
    note step = guards hd refl refl refl refl p1 False split
    from "1.IH"(1) [OF step first] have f: "cell_within (depth + 1) c2"
      "cells p2 = cells p1 + cell_count c2" "cells p2 \<le> MAX_CELLS" by auto
    from "1.IH"(2) [OF step first refl more f(3)] f(1) have m: "\<forall>c\<in>set cs. cell_within (depth + 1) c"
      "cs \<noteq> []" "cells p3 \<le> MAX_CELLS"
      "cells p3 + cell_count c2 = cells p2 + sum_list (map cell_count cs)" by auto
    from guards dims m have "cell_within depth c" unfolding c by (simp add: cell_within_split)
    with c f m last dims show ?thesis by (simp split: if_split)
  qed
next
  case (2 depth children p)
  show ?case
  proof (cases "\<exists>r. rest p = CHR '','' # r")
    case False
    with "2.prems" show ?thesis by (auto simp: parse_more.simps split: list.splits if_splits)
  next
    case True
    then obtain r where r: "rest p = CHR '','' # r" by blast
    with "2.prems"(1) obtain c1 p1 where first: "parse_cell depth (p\<lparr>rest := r\<rparr>) = Inr (c1, p1)"
      and more: "parse_more depth (children @ [c1]) p1 = Inr (cs', p')"
      by (auto simp: parse_more.simps [of depth children p] res_simps)
    from "2.IH"(1) [OF r refl first] have f: "cell_within depth c1"
      "cells p1 = cells p + cell_count c1" "cells p1 \<le> MAX_CELLS" by auto
    with "2.prems"(3) have "\<forall>c\<in>set (children @ [c1]). cell_within depth c" by auto
    from "2.IH"(2) [OF r refl first refl more f(3) this] f show ?thesis by auto
  qed
qed

lemma json_num_le: "json_num api v key = Inr n \<Longrightarrow> n \<le> u32_max"
  by (auto simp: json_num_def res_simps bind_eq_Some_conv split: if_splits)

lemma json_cell_within:
  "json_cell api v d n = Inr (c, m) \<Longrightarrow>
     cell_within d c \<and> m = n + cell_count c \<and> m \<le> MAX_CELLS"
  "json_cells api vs d n = Inr (cs, m) \<Longrightarrow> n \<le> MAX_CELLS \<Longrightarrow>
     (\<forall>c\<in>set cs. cell_within d c) \<and> length cs = length vs \<and> m = n + sum_list (map cell_count cs) \<and>
     m \<le> MAX_CELLS"
proof (induction api v d n and api vs d n arbitrary: c m and cs m rule: json_cell_json_cells.induct)
  case (1 api v depth n)
  note unfolded = "1.prems" [unfolded json_cell.simps [of api v depth n]]
  let ?t = "Option.bind (json_get api v ''t'') (json_as_str api)"
  from unfolded have guards: "\<not> MAX_DEPTH < depth" "\<not> MAX_CELLS < n + 1"
    by (simp_all split: if_split_asm)
  with unfolded obtain w h x y where nums: "json_num api v ''w'' = Inr w" "json_num api v ''h'' = Inr h"
      "json_num api v ''x'' = Inr x" "json_num api v ''y'' = Inr y"
    and dim: "\<not> (MAX_DIM < w \<or> MAX_DIM < h)"
    by (auto simp: res_simps split: if_split_asm)
  from nums have pos: "x \<le> u32_max" "y \<le> u32_max" by (auto dest: json_num_le)
  show ?case
  proof (cases "?t = Some ''p''")
    case True
    with unfolded guards nums dim obtain i where "c = Cell w h x y (Pane i)" "m = n + 1"
      "pane_num i \<le> u32_max"
      by (auto simp: res_simps Let_def bind_eq_Some_conv dest: pane_ids.parse_le)
    with guards dim pos show ?thesis by (simp add: cell_within_pane)
  next
    case False
    with unfolded guards nums dim obtain items cs where
        t: "?t = Some ''h'' \<or> ?t = Some ''v''"
      and items: "ok_or (case Option.bind (json_get api v ''c'') (json_as_array api) of
                    None \<Rightarrow> None | Some c \<Rightarrow> if c = [] then None else Some c)
                  (Syntax ''json children'') = Inr items"
      and kids: "json_cells api items (depth + 1) (n + 1) = Inr (cs, m)"
      and c: "c = Cell w h x y (if ?t = Some ''h'' then Horizontal cs else Vertical cs)"
      by (auto simp: res_simps Let_def split: if_split_asm)
    from items have "items \<noteq> []" by (auto simp: res_simps split: option.splits if_splits)
    moreover from guards have "n + 1 \<le> MAX_CELLS" by simp
    note "1.IH" [OF guards nums(1,2) dim nums(3,4) refl False t items kids this]
    ultimately have k: "\<forall>c\<in>set cs. cell_within (depth + 1) c" "cs \<noteq> []" "m \<le> MAX_CELLS"
      "m = n + 1 + sum_list (map cell_count cs)" by auto
    from guards dim pos k have "cell_within depth c" unfolding c by (simp add: cell_within_split)
    with c k show ?thesis by (simp split: if_split)
  qed
next
  case (2 api depth n)
  then show ?case by simp
next
  case (3 api v vs depth n)
  from "3.prems"(1) obtain c1 m1 cs1 where first: "json_cell api v depth n = Inr (c1, m1)"
    and more: "json_cells api vs depth m1 = Inr (cs1, m)" and cs: "cs = c1 # cs1"
    by (auto simp: res_simps)
  from "3.IH"(1) [OF first] have f: "cell_within depth c1" "m1 = n + cell_count c1" "m1 \<le> MAX_CELLS"
    by auto
  from "3.IH"(2) [OF first refl more f(3)] f cs show ?case by auto
qed

text \<open>Every layout either form yields is within the bounds the header constants state.\<close>

lemma parse_layout_within: "parse_layout api text = Inr l \<Longrightarrow> layout_ok l"
  by (auto simp: parse_layout_def parse_text_def parse_json_def layout_ok_def res_simps cell_within_def
      split: if_splits dest!: parse_cell_within(1) json_cell_within(1))

section \<open>Every bounded layout has a text the parser reads back\<close>

text \<open>
  The text form as tmux prints it, which the repository only reads: the reference for the parser.
\<close>

fun join_commas :: "bytes list \<Rightarrow> bytes" where
  "join_commas [] = []"
| "join_commas [t] = t"
| "join_commas (t # ts) = t @ '','' @ join_commas ts"

primrec show_cell :: "cell \<Rightarrow> bytes" and show_kind :: "kind \<Rightarrow> bytes" where
  "show_cell (Cell w h x y k) =
     show_nat w @ ''x'' @ show_nat h @ '','' @ show_nat x @ '','' @ show_nat y @ show_kind k"
| "show_kind (Pane i) = '','' @ show_nat (pane_num i)"
| "show_kind (Horizontal cs) = ''{'' @ join_commas (map show_cell cs) @ ''}''"
| "show_kind (Vertical cs) = ''['' @ join_commas (map show_cell cs) @ '']''"

definition hex4 :: "nat \<Rightarrow> bytes" where
  "hex4 n = map hex_digit
     [n div 4096 mod 16, n div 256 mod 16, n div 16 mod 16, n mod 16]"

definition show_layout :: "layout \<Rightarrow> bytes" where
  "show_layout l = hex4 (unat (checksum (show_cell (root l)))) @ '','' @ show_cell (root l)"

text \<open>The numbers a text layout can carry have at most nine digits.\<close>

primrec cell_fits :: "cell \<Rightarrow> bool" and kind_fits :: "kind \<Rightarrow> bool" where
  "cell_fits (Cell w h x y k) \<longleftrightarrow>
     w \<le> MAX_DIM \<and> h \<le> MAX_DIM \<and> x < 10 ^ 9 \<and> y < 10 ^ 9 \<and> kind_fits k"
| "kind_fits (Pane i) \<longleftrightarrow> pane_num i < 10 ^ 9"
| "kind_fits (Horizontal cs) \<longleftrightarrow> cs \<noteq> [] \<and> list_all id (map cell_fits cs)"
| "kind_fits (Vertical cs) \<longleftrightarrow> cs \<noteq> [] \<and> list_all id (map cell_fits cs)"

definition no_digit :: "bytes \<Rightarrow> bool" where
  "no_digit t \<longleftrightarrow> (case t of [] \<Rightarrow> True | b # r \<Rightarrow> \<not> is_digit b)"

lemma number_show:
  assumes "n < 10 ^ 9" "no_digit t"
  shows "number \<lparr>rest = show_nat n @ t, cells = m\<rparr> = Inr (n, \<lparr>rest = t, cells = m\<rparr>)"
proof -
  let ?p = "\<lparr>rest = show_nat n @ t, cells = m\<rparr>"
  have digits: "\<forall>b\<in>set (show_nat n). is_digit b" by (simp add: show_nat_digits)
  have t: "takeWhile is_digit t = []" "dropWhile is_digit t = t"
    using assms(2) by (cases t; simp add: no_digit_def)+
  have "takeWhile is_digit (rest ?p) = show_nat n" "dropWhile is_digit (rest ?p) = t"
    using digits t by (simp_all add: takeWhile_append2 dropWhile_append2)
  moreover have "length (show_nat n) \<le> 9" using assms(1) by (intro show_nat_length) simp_all
  moreover have "parse_u32 (show_nat n) = Some n" using assms(1) by (intro parse_radix_show) simp
  ultimately show ?thesis by (simp add: number_def)
qed

lemma no_digit_simps [simp]:
  "no_digit []" "no_digit (CHR ''x'' # t)" "no_digit (CHR '','' # t)" "no_digit (CHR ''{'' # t)"
  "no_digit (CHR ''['' # t)" "no_digit (CHR ''}'' # t)" "no_digit (CHR '']'' # t)"
  by (simp_all add: no_digit_def is_digit_def)

lemma show_kind_no_digit: "no_digit (show_kind k @ t)"
  by (cases k) simp_all

lemma cell_header_show:
  assumes "cell_fits (Cell w h x y k)"
  shows "cell_header \<lparr>rest = show_cell (Cell w h x y k) @ t, cells = m\<rparr>
    = Inr (w, h, x, y, \<lparr>rest = show_kind k @ t, cells = m\<rparr>)"
proof -
  have dims: "w < 10 ^ 9" "h < 10 ^ 9" "x < 10 ^ 9" "y < 10 ^ 9" "\<not> MAX_DIM < w" "\<not> MAX_DIM < h"
    using assms(1) by (auto simp: MAX_DIM_def)
  show ?thesis
    using dims show_kind_no_digit [of k t]
    by (simp add: cell_header_def expect_byte_def number_show)
qed

lemma show_cell_first: "\<exists>b r. show_cell c @ t = b # r \<and> is_digit b"
proof (cases c)
  case (Cell w h x y k)
  then show ?thesis
    using show_nat_digits [of _ w] by (cases "show_nat w") auto
qed

lemma join_commas_Cons:
  "join_commas (t # ts) = t @ concat (map (\<lambda>u. '','' @ u) ts)"
  by (induction ts arbitrary: t) simp_all

lemma parse_more_show:
  assumes "\<And>c n t. c \<in> set cs \<Longrightarrow> no_digit t \<Longrightarrow> n + cell_count c \<le> MAX_CELLS \<Longrightarrow>
      parse_cell d \<lparr>rest = show_cell c @ t, cells = n\<rparr> = Inr (c, \<lparr>rest = t, cells = n + cell_count c\<rparr>)"
    and "n + sum_list (map cell_count cs) \<le> MAX_CELLS" "close \<noteq> CHR '',''" "\<not> is_digit close"
  shows "parse_more d acc \<lparr>rest = concat (map (\<lambda>c. '','' @ show_cell c) cs) @ close # t, cells = n\<rparr>
    = Inr (acc @ cs, \<lparr>rest = close # t, cells = n + sum_list (map cell_count cs)\<rparr>)"
  using assms(1,2)
proof (induction cs arbitrary: acc n)
  case Nil
  then show ?case using assms(3) by (simp add: parse_more.simps)
next
  case (Cons c cs)
  let ?t = "concat (map (\<lambda>c. '','' @ show_cell c) cs) @ close # t"
  have "no_digit ?t" using assms(4) by (cases cs) (simp_all add: no_digit_def is_digit_def)
  with Cons.prems have first: "parse_cell d \<lparr>rest = show_cell c @ ?t, cells = n\<rparr> =
      Inr (c, \<lparr>rest = ?t, cells = n + cell_count c\<rparr>)" by simp
  from Cons.prems have "parse_more d (acc @ [c]) \<lparr>rest = ?t, cells = n + cell_count c\<rparr> =
      Inr ((acc @ [c]) @ cs, \<lparr>rest = close # t, cells = n + cell_count c + sum_list (map cell_count cs)\<rparr>)"
    by (intro Cons.IH) simp_all
  with first show ?case by (simp add: parse_more.simps [of d acc])
qed

lemma cell_size_split: "c \<in> set cs \<Longrightarrow> size c < Suc (Suc (size_list size cs))"
  by (induction cs) auto

lemma parse_cell_show:
  "cell_fits c \<Longrightarrow> d + cell_depth c \<le> MAX_DEPTH \<Longrightarrow> n + cell_count c \<le> MAX_CELLS \<Longrightarrow> no_digit t \<Longrightarrow>
   parse_cell d \<lparr>rest = show_cell c @ t, cells = n\<rparr> = Inr (c, \<lparr>rest = t, cells = n + cell_count c\<rparr>)"
proof (induction c arbitrary: d n t rule: measure_induct_rule [of size])
  case (less c)
  obtain w h x y k where c: "c = Cell w h x y k" by (cases c)
  have hd: "cell_header \<lparr>rest = show_cell c @ t, cells = Suc n\<rparr> =
      Inr (w, h, x, y, \<lparr>rest = show_kind k @ t, cells = Suc n\<rparr>)"
    using less.prems(1) unfolding c by (rule cell_header_show)
  have guards: "\<not> MAX_DEPTH < d" "\<not> MAX_CELLS < Suc n" using less.prems(2,3) by (simp_all add: c)
  have "get_at (show_cell c @ t) 0 \<noteq> Some CHR ''<''"
    using show_cell_first [of c t] by (auto simp: is_digit_def)
  note unfold = parse_cell.simps [of d "\<lparr>rest = show_cell c @ t, cells = n\<rparr>"] guards this hd
  have split: "parse_cell d \<lparr>rest = show_cell c @ t, cells = n\<rparr> =
      Inr (c, \<lparr>rest = t, cells = n + cell_count c\<rparr>)"
    if kids: "k = Horizontal cs \<and> left = CHR ''{'' \<and> right = CHR ''}''
      \<or> k = Vertical cs \<and> left = CHR ''['' \<and> right = CHR '']''" for cs left right
  proof -
    from kids less.prems(1) c have ne: "cs \<noteq> []" and fits: "\<forall>c\<in>set cs. cell_fits c"
      by (auto simp: list_all_iff)
    from ne obtain c1 cs1 where cs: "cs = c1 # cs1" by (cases cs) auto
    from kids less.prems(2) c have "d + 1 + foldr max (map cell_depth cs) 0 \<le> MAX_DEPTH" by auto
    then have deep: "\<forall>c\<in>set cs. d + 1 + cell_depth c \<le> MAX_DEPTH"
      using foldr_max_le [of "map cell_depth cs" "MAX_DEPTH - (d + 1)"] by (auto simp: le_diff_conv2)
    have IH: "parse_cell (d + 1) \<lparr>rest = show_cell c' @ u, cells = m\<rparr> =
        Inr (c', \<lparr>rest = u, cells = m + cell_count c'\<rparr>)"
      if "c' \<in> set cs" "no_digit u" "m + cell_count c' \<le> MAX_CELLS" for c' u m
      using that kids fits deep c by (intro less.IH) (auto simp: cell_size_split)
    let ?u = "concat (map (\<lambda>c. '','' @ show_cell c) cs1) @ right # t"
    have shown: "show_kind k @ t = left # show_cell c1 @ ?u"
      using kids cs by (auto simp: join_commas_Cons comp_def)
    have total: "cell_count c = 1 + cell_count c1 + sum_list (map cell_count cs1)"
      using kids c cs by auto
    have "no_digit ?u" using kids by (cases cs1) auto
    then have first: "parse_cell (d + 1) \<lparr>rest = show_cell c1 @ ?u, cells = n + 1\<rparr> =
        Inr (c1, \<lparr>rest = ?u, cells = n + 1 + cell_count c1\<rparr>)"
      using less.prems(3) total cs by (intro IH) simp_all
    have "parse_more (d + 1) [c1] \<lparr>rest = ?u, cells = n + 1 + cell_count c1\<rparr> =
        Inr ([c1] @ cs1, \<lparr>rest = right # t,
          cells = n + 1 + cell_count c1 + sum_list (map cell_count cs1)\<rparr>)"
      using less.prems(3) total kids cs by (intro parse_more_show IH) (auto simp: is_digit_def)
    note more = this
    from kids have lr: "left = CHR ''{'' \<or> left = CHR ''[''" "left \<noteq> CHR '',''"
        "right = (if left = CHR ''{'' then CHR ''}'' else CHR '']'')" by auto
    have "parse_cell d \<lparr>rest = show_cell c @ t, cells = n\<rparr> =
        Inr (Cell w h x y (if left = CHR ''{'' then Horizontal cs else Vertical cs),
          \<lparr>rest = t, cells = n + cell_count c\<rparr>)"
      using first more total shown cs lr by (simp add: unfold expect_byte_def)
    with kids c show ?thesis by auto
  qed
  show ?case
  proof (cases k)
    case (Pane i)
    with less.prems(1,4) c have "number \<lparr>rest = show_nat (pane_num i) @ t, cells = Suc n\<rparr> =
        Inr (pane_num i, \<lparr>rest = t, cells = Suc n\<rparr>)"
      by (simp add: number_show)
    with Pane have "parse_cell d \<lparr>rest = show_cell c @ t, cells = n\<rparr> =
        Inr (Cell w h x y (Pane i), \<lparr>rest = t, cells = Suc n\<rparr>)" by (simp add: unfold)
    with Pane c show ?thesis by simp
  qed (rule split; simp)+
qed

lemma hex4_parse:
  assumes "n \<le> u16_max"
  shows "parse_u16_hex (hex4 n) = Some n"
proof -
  have n: "((n div 4096 mod 16 * 16 + n div 256 mod 16) * 16 + n div 16 mod 16) * 16 + n mod 16 = n"
  proof -
    have "n div 4096 = n div 256 div 16" "n div 256 = n div 16 div 16"
      by (simp_all add: div_mult2_eq [symmetric])
    moreover have "n div 4096 mod 16 = n div 4096" using assms by simp
    ultimately show ?thesis by (metis div_mult_mod_eq)
  qed
  have "hex_digit (n div 4096 mod 16) \<noteq> CHR ''+''"
    using hex_digit_neq [of "n div 4096 mod 16" "CHR ''+''"] by (simp add: digit_val_def)
  then show ?thesis
    using n assms by (simp add: parse_radix_def hex4_def hex_digit_val)
qed

lemma hex4_no_comma: "CHR '','' \<notin> set (hex4 n)"
proof -
  have "digit_val 16 CHR '','' = None" by (simp add: digit_val_def)
  then show ?thesis using hex_digit_neq by (simp add: hex4_def)
qed

lemma parse_text_show:
  assumes "cell_fits (root l)" "cell_depth (root l) \<le> MAX_DEPTH" "cell_count (root l) \<le> MAX_CELLS"
  shows "parse_text (show_layout l) = Inr l"
proof -
  let ?body = "show_cell (root l)"
  have "unat (checksum ?body) < 2 ^ LENGTH(16)" by (rule unsigned_less)
  then have "unat (checksum ?body) \<le> u16_max" by simp
  moreover have "str_split_once CHR '','' (show_layout l) = Some (hex4 (unat (checksum ?body)), ?body)"
    using str_split_once_append [OF hex4_no_comma] by (simp add: show_layout_def)
  moreover have "length (hex4 (unat (checksum ?body))) = 4" by (simp add: hex4_def)
  moreover have "parse_cell 0 \<lparr>rest = ?body, cells = 0\<rparr> = Inr (root l, \<lparr>rest = [], cells = cell_count (root l)\<rparr>)"
    using parse_cell_show [of "root l" 0 0 "[]"] assms by simp
  ultimately show ?thesis by (simp add: parse_text_def hex4_parse)
qed

lemma show_layout_text: "parse_layout api (show_layout l) = parse_text (show_layout l)"
proof -
  have "digit_val 16 CHR ''{'' = None" by (simp add: digit_val_def)
  with hex_digit_neq show ?thesis by (simp add: parse_layout_def show_layout_def hex4_def)
qed

text \<open>\<open>Layout::panes\<close> lists the panes in the order of the tree.\<close>

primrec cell_panes :: "cell \<Rightarrow> pane_id list" and kind_panes :: "kind \<Rightarrow> pane_id list" where
  "cell_panes (Cell w h x y k) = kind_panes k"
| "kind_panes (Pane i) = [i]"
| "kind_panes (Horizontal cs) = concat (map cell_panes cs)"
| "kind_panes (Vertical cs) = concat (map cell_panes cs)"

lemma walk_panes:
  "walk c out = out @ cell_panes c"
  "walk_all cs out = out @ concat (map cell_panes cs)"
  by (induction c out and cs out rule: walk_walk_all.induct) simp_all

lemma panes_walk: "panes l = cell_panes (root l)"
  by (simp add: panes_def walk_panes)

section \<open>Properties\<close>

text \<open>
  C21. Every layout within the bounds is read back from its text form, checksum included, whatever JSON
  reader the build has.
\<close>

theorem layout_round_trip:
  assumes "cell_fits (root l)" "cell_depth (root l) \<le> MAX_DEPTH" "cell_count (root l) \<le> MAX_CELLS"
  shows "parse_layout api (show_layout l) = Inr l"
  using parse_text_show [OF assms] by (simp add: show_layout_text)

theorem layout_round_trip_witness:
  "\<forall>api :: nat json_api. parse_layout api (show_layout \<lparr>root = Cell 80 24 0 0 (Pane (PaneId 1))\<rparr>) =
    Inr \<lparr>root = Cell 80 24 0 0 (Pane (PaneId 1))\<rparr>"
  by (rule allI, rule layout_round_trip) (simp_all add: layout_bounds)

text \<open>
  C22. Whatever text tmux sends and whatever the JSON reader makes of it, an accepted layout is within
  the bounds: at most 16 levels, at most 1024 cells, every dimension at most 100000.
\<close>

theorem layout_bounded:
  assumes "parse_layout api s = Inr l"
  shows "layout_ok l"
  by (rule parse_layout_within [OF assms])

theorem layout_bounded_witness:
  "layout_ok \<lparr>root = Cell 80 24 0 0 (Pane (PaneId 1))\<rparr>"
proof -
  let ?l = "\<lparr>root = Cell 80 24 0 0 (Pane (PaneId 1))\<rparr>"
  have "parse_text (show_layout ?l) = Inr ?l" by (rule parse_text_show) (simp_all add: layout_bounds)
  then have "parse_layout (undefined :: nat json_api) (show_layout ?l) = Inr ?l" by (simp add: show_layout_text)
  from layout_bounded [OF this] show ?thesis .
qed

end
