(* ===== verification/Tmux_Command.thy ===== *)
theory Tmux_Command
  imports Tmux_Ids Tmux_Escape
begin

text \<open>
  Model of \<^verbatim>\<open>crates/chan-tmux/src/command.rs\<close>: the commands the client sends, how each becomes one
  command line, the reply blocks each is answered with, and the readers of those replies. The type
  \<open>expect\<close> is \<open>Expect\<close> of \<^verbatim>\<open>crates/chan-tmux/src/decode.rs\<close>, which \<open>Command::expects\<close> returns.
\<close>

section \<open>Commands\<close>

definition MAX_KEY_BYTES :: nat where "MAX_KEY_BYTES = 256"
definition MAX_SIZE :: nat where "MAX_SIZE = 10000"
definition MAX_TEXT :: nat where "MAX_TEXT = 1024"

definition LIST_SESSIONS_FORMAT :: bytes where
  "LIST_SESSIONS_FORMAT = ''#{session_id}''"

definition LIST_WINDOWS_FORMAT :: bytes where
  "LIST_WINDOWS_FORMAT =
     ''#{window_id} #{window_layout} #{window_visible_layout} #{window_flags} #{window_name}''"

definition LIST_PANES_FORMAT :: bytes where
  "LIST_PANES_FORMAT = ''#{pane_id} #{pane_active}''"

definition PANE_STATE_FORMAT :: bytes where
  "PANE_STATE_FORMAT =
     ''#{pane_id} #{cursor_x} #{cursor_y} #{pane_in_mode} #{alternate_on} #{scroll_region_upper} #{scroll_region_lower} #{pane_width} #{pane_height} #{history_size}''"

datatype resize_axis = Width | Height

datatype command =
    Interrupt
  | Version
  | ClientSize nat nat
  | WindowSize window_id nat nat
  | ResizePane pane_id resize_axis nat
  | PauseAfter nat
  | NewLayouts
  | ContinuePane pane_id
  | ListSessions
  | ListWindows
  | ListPanes window_id
  | PaneState pane_id
  | CapturePane pane_id nat
  | SendKeys pane_id bytes
  | NewWindow "bytes option"
  | SplitWindow pane_id bool
  | KillWindow window_id
  | KillPane pane_id
  | SelectWindow window_id
  | SelectPane pane_id
  | RenameWindow window_id bytes
  | Detach
  | KillServer

datatype expect =
    ExpectAny
  | ExpectRows nat
  | ExpectPaneState
  | ExpectCapture nat

definition send_keys :: "pane_id \<Rightarrow> bytes \<Rightarrow> command list" where
  "send_keys pane bs = map (SendKeys pane) (chunks MAX_KEY_BYTES bs)"

definition check_size :: "nat \<Rightarrow> nat \<Rightarrow> (error, unit) res" where
  "check_size cols rows =
     (if 1 \<le> cols \<and> cols \<le> MAX_SIZE \<and> 1 \<le> rows \<and> rows \<le> MAX_SIZE then Ok ()
      else Err (BadArgument ''size''))"

text \<open>The single quote, and a text between two of them.\<close>

abbreviation sq :: byte where "sq \<equiv> CHR 0x27"

definition quoted :: "bytes \<Rightarrow> bytes" where
  "quoted t = sq # t @ [sq]"

text \<open>\<open>str::replace\<close> of one character: no multi-byte character contains an ASCII byte.\<close>

definition str_replace :: "byte \<Rightarrow> bytes \<Rightarrow> bytes \<Rightarrow> bytes" where
  "str_replace c r t = concat (map (\<lambda>b. if b = c then r else [b]) t)"

definition quote :: "bytes \<Rightarrow> (error, bytes) res" where
  "quote t =
     rbind (err_if (MAX_TEXT < length t) (BadArgument ''text too long'')) (\<lambda>_.
     rbind (err_if (has_control t) (BadArgument ''control character'')) (\<lambda>_.
       Ok (quoted (str_replace sq [sq, CHR 0x5C, sq, sq] (str_replace CHR ''#'' ''##'' t)))))"

fun render :: "command \<Rightarrow> (error, bytes) res" where
  "render Interrupt = Ok [CHR 0x03]"
| "render Version = Ok (''display-message -p '' @ quoted ''#{version}'')"
| "render (ClientSize cols rows) =
     rbind (check_size cols rows) (\<lambda>_.
       Ok (''refresh-client -C '' @ show_nat cols @ '','' @ show_nat rows))"
| "render (WindowSize window cols rows) =
     rbind (check_size cols rows) (\<lambda>_.
       Ok (''refresh-client -C '' @ show_window_id window @ '':'' @ show_nat cols @ ''x'' @ show_nat rows))"
| "render (ResizePane pane axis cells) =
     rbind (check_size cells cells) (\<lambda>_.
       let flag = (case axis of Width \<Rightarrow> ''-x'' | Height \<Rightarrow> ''-y'') in
       Ok (''resize-pane -t '' @ show_pane_id pane @ '' '' @ flag @ '' '' @ show_nat cells))"
| "render (PauseAfter seconds) = Ok (''refresh-client -f pause-after='' @ show_nat seconds)"
| "render NewLayouts = Ok ''refresh-client -f new-layouts''"
| "render (ContinuePane pane) =
     Ok (''refresh-client -A '' @ quoted (show_pane_id pane @ '':continue''))"
| "render ListSessions = Ok (''list-sessions -F '' @ quoted LIST_SESSIONS_FORMAT)"
| "render ListWindows = Ok (''list-windows -F '' @ quoted LIST_WINDOWS_FORMAT)"
| "render (ListPanes window) =
     Ok (''list-panes -t '' @ show_window_id window @ '' -F '' @ quoted LIST_PANES_FORMAT)"
| "render (PaneState pane) =
     Ok (''display-message -p -t '' @ show_pane_id pane @ '' '' @ quoted PANE_STATE_FORMAT)"
| "render (CapturePane pane history_rows) =
     (if 1000000 < history_rows then Err (BadArgument ''capture range'')
      else
        let start = (if history_rows = 0 then ''0'' else ''-'' @ show_nat history_rows) in
        Ok (''display-message -p -t '' @ show_pane_id pane @ '' '' @ quoted PANE_STATE_FORMAT @ '' ; ''
          @ ''capture-pane -p -e -t '' @ show_pane_id pane @ '' -S '' @ start @ '' -E -''))"
| "render (SendKeys pane bs) =
     (if bs = [] \<or> MAX_KEY_BYTES < length bs then Err (BadArgument ''key bytes'')
      else Ok (''send-keys -t '' @ show_pane_id pane @ '' -H '' @ hex_pairs bs))"
| "render (NewWindow cwd) =
     (case cwd of
        Some dir \<Rightarrow>
          rbind (quote dir) (\<lambda>q. Ok (''new-window -PF '' @ quoted ''#{window_id}'' @ '' -c '' @ q))
      | None \<Rightarrow> Ok (''new-window -PF '' @ quoted ''#{window_id}''))"
| "render (SplitWindow pane horizontal) =
     (let dir = (if horizontal then ''-h'' else ''-v'') in
      Ok (''split-window '' @ dir @ '' -t '' @ show_pane_id pane @ '' -PF '' @ quoted ''#{pane_id}''))"
| "render (KillWindow window) = Ok (''kill-window -t '' @ show_window_id window)"
| "render (KillPane pane) = Ok (''kill-pane -t '' @ show_pane_id pane)"
| "render (SelectWindow window) = Ok (''select-window -t '' @ show_window_id window)"
| "render (SelectPane pane) = Ok (''select-pane -t '' @ show_pane_id pane)"
| "render (RenameWindow window name) =
     rbind (quote name) (\<lambda>q. Ok (''rename-window -t '' @ show_window_id window @ '' -- '' @ q))"
| "render Detach = Ok ''detach-client''"
| "render KillServer = Ok ''kill-server''"

fun expects :: "command \<Rightarrow> expect list" where
  "expects (CapturePane pane history_rows) = [ExpectPaneState, ExpectCapture history_rows]"
| "expects _ = [ExpectAny]"

section \<open>Replies\<close>

datatype tmux_version = TmuxVersion (major: nat) (minor: nat)

definition parse_version :: "bytes \<Rightarrow> tmux_version option" where
  "parse_version text0 =
     (let text = (case strip_prefix ''next-'' text0 of Some r \<Rightarrow> r | None \<Rightarrow> text0) in
      case str_split_once CHR ''.'' text of
        None \<Rightarrow> None
      | Some (maj, r) \<Rightarrow>
          (case parse_u32 maj of
             None \<Rightarrow> None
           | Some m \<Rightarrow>
               (case parse_u32 (takeWhile is_digit r) of
                  None \<Rightarrow> None
                | Some n \<Rightarrow> Some (TmuxVersion m n))))"

record window_info =
  win_id :: window_id
  win_layout :: bytes
  win_visible_layout :: bytes
  win_flags :: bytes
  win_name :: bytes

definition parse_window_line :: "bytes \<Rightarrow> (error, window_info) res" where
  "parse_window_line line =
     (if \<not> utf8_valid line then Err (Malformed ''list-windows'')
      else case splitn 5 CHR '' '' line of
        i # layout # visible # flags # rest \<Rightarrow>
          rbind (ok_or (parse_window_id i) (Malformed ''list-windows'')) (\<lambda>w.
            Ok \<lparr>win_id = w, win_layout = layout, win_visible_layout = visible, win_flags = flags,
                win_name = (case rest of [] \<Rightarrow> [] | n # _ \<Rightarrow> n)\<rparr>)
      | _ \<Rightarrow> Err (Malformed ''list-windows''))"

definition parse_list_windows :: "bytes list \<Rightarrow> (error, window_info list) res" where
  "parse_list_windows lines = rmap parse_window_line lines"

record pane_info =
  pane_info_id :: pane_id
  pane_active :: bool

definition parse_pane_line :: "bytes \<Rightarrow> (error, pane_info) res" where
  "parse_pane_line line =
     (if \<not> utf8_valid line then Err (Malformed ''list-panes'')
      else case split_on CHR '' '' line of
        [i, active] \<Rightarrow>
          rbind (ok_or (parse_pane_id i) (Malformed ''list-panes'')) (\<lambda>p.
            Ok \<lparr>pane_info_id = p, pane_active = (active = ''1'')\<rparr>)
      | _ \<Rightarrow> Err (Malformed ''list-panes''))"

definition parse_list_panes :: "bytes list \<Rightarrow> (error, pane_info list) res" where
  "parse_list_panes lines = rmap parse_pane_line lines"

record pane_state =
  state_id :: pane_id
  cursor_x :: nat
  cursor_y :: nat
  in_mode :: bool
  alternate_on :: bool
  scroll_upper :: nat
  scroll_lower :: nat
  width :: nat
  height :: nat
  history_size :: nat

text \<open>The closure \<open>n\<close> of \<open>parse_pane_state\<close>: field \<open>i\<close> as a number.\<close>

definition state_num :: "bytes list \<Rightarrow> nat \<Rightarrow> (error, nat) res" where
  "state_num f i = ok_or (Option.bind (get_at f i) parse_u32) (Malformed ''pane state'')"

definition parse_pane_state :: "bytes list \<Rightarrow> (error, pane_state) res" where
  "parse_pane_state lines =
     (case lines of
        [line] \<Rightarrow>
          if \<not> utf8_valid line then Err (Malformed ''pane state'')
          else
            let f = split_on CHR '' '' line; n = state_num f in
            if length f \<noteq> 10 then Err (Malformed ''pane state'')
            else
              rbind (ok_or (parse_pane_id (f ! 0)) (Malformed ''pane state'')) (\<lambda>i.
              rbind (n 1) (\<lambda>cx. rbind (n 2) (\<lambda>cy. rbind (n 3) (\<lambda>im. rbind (n 4) (\<lambda>al.
              rbind (n 5) (\<lambda>su. rbind (n 6) (\<lambda>sl. rbind (n 7) (\<lambda>w. rbind (n 8) (\<lambda>h.
              rbind (n 9) (\<lambda>hs.
                Ok \<lparr>state_id = i, cursor_x = cx, cursor_y = cy, in_mode = (im \<noteq> 0),
                    alternate_on = (al \<noteq> 0), scroll_upper = su, scroll_lower = sl, width = w,
                    height = h, history_size = hs\<rparr>))))))))))
      | _ \<Rightarrow> Err (Malformed ''pane state''))"

definition parse_created_id :: "bytes list \<Rightarrow> (error, bytes) res" where
  "parse_created_id lines =
     (case lines of
        [line] \<Rightarrow>
          if utf8_valid line \<and> (parse_window_id line \<noteq> None \<or> parse_pane_id line \<noteq> None) then Ok line
          else Err (Malformed ''created id'')
      | _ \<Rightarrow> Err (Malformed ''created id''))"

section \<open>Every command is one line\<close>

definition printable :: "byte \<Rightarrow> bool" where
  "printable b \<longleftrightarrow> 32 \<le> byte_val b \<and> byte_val b \<noteq> 127"

lemma printable_graphic: "33 \<le> byte_val b \<and> byte_val b < 127 \<Longrightarrow> printable b"
  by (simp add: printable_def)

lemma printable_parts [simp]:
  "list_all printable (show_pane_id p)" "list_all printable (show_window_id w)"
  "list_all printable (show_nat n)" "list_all printable (hex_pairs bs)"
proof -
  show "list_all printable (show_pane_id p)"
    unfolding list_all_iff by (intro ballI printable_graphic pane_ids.disp_graphic)
  show "list_all printable (show_window_id w)"
    unfolding list_all_iff by (intro ballI printable_graphic window_ids.disp_graphic)
  show "list_all printable (show_nat n)"
    unfolding list_all_iff by (intro ballI printable_graphic is_digit_ascii show_nat_digits)
  show "list_all printable (hex_pairs bs)"
    unfolding list_all_iff printable_def using hex_pairs_graphic by fastforce
qed

lemma printable_quoted [simp]: "list_all printable (quoted t) = list_all printable t"
  by (simp add: quoted_def printable_def)

lemma printable_replace:
  "list_all printable r \<Longrightarrow> list_all printable t \<Longrightarrow> list_all printable (str_replace c r t)"
  by (induction t) (auto simp: str_replace_def)

lemma quote_printable: "quote t = Inr q \<Longrightarrow> list_all printable q"
proof -
  assume q: "quote t = Inr q"
  then have "\<not> has_control t" by (auto simp: quote_def res_simps)
  then have "list_all printable t"
    using has_control_bytes [of t] by (auto simp: list_all_iff printable_def)
  moreover have "list_all printable ''##''" "list_all printable [sq, CHR 0x5C, sq, sq]"
    by (simp_all add: printable_def)
  ultimately show ?thesis
    using q by (auto simp: quote_def res_simps intro!: printable_replace)
qed

lemma printable_formats [simp]:
  "list_all printable LIST_SESSIONS_FORMAT" "list_all printable LIST_WINDOWS_FORMAT"
  "list_all printable LIST_PANES_FORMAT" "list_all printable PANE_STATE_FORMAT"
  by (simp_all add: printable_def LIST_SESSIONS_FORMAT_def LIST_WINDOWS_FORMAT_def
      LIST_PANES_FORMAT_def PANE_STATE_FORMAT_def)

lemma render_printable:
  assumes "render c = Inr line" "c \<noteq> Interrupt"
  shows "list_all printable line"
  using assms
  by (cases c)
    (auto simp: res_simps printable_def Let_def quote_printable
      split: if_splits option.splits resize_axis.splits)

section \<open>Quoted text\<close>




section \<open>Keys\<close>

lemma send_keys_render:
  assumes "c \<in> set (send_keys pane bs)"
  shows "\<exists>data. c = SendKeys pane data \<and> data \<noteq> [] \<and> length data \<le> MAX_KEY_BYTES \<and>
    render c = Inr (''send-keys -t '' @ show_pane_id pane @ '' -H '' @ hex_pairs data)"
proof -
  from assms obtain data where c: "c = SendKeys pane data" and data: "data \<in> set (chunks MAX_KEY_BYTES bs)"
    by (auto simp: send_keys_def)
  from chunks_bounds [OF _ data] have "data \<noteq> []" "length data \<le> MAX_KEY_BYTES"
    by (simp_all add: MAX_KEY_BYTES_def)
  with c show ?thesis by (simp add: not_less)
qed

fun key_bytes :: "command \<Rightarrow> bytes" where
  "key_bytes (SendKeys pane bs) = bs"
| "key_bytes _ = []"

lemma send_keys_concat: "concat (map key_bytes (send_keys pane bs)) = bs"
  using concat_chunks [of MAX_KEY_BYTES bs]
  by (simp add: send_keys_def comp_def MAX_KEY_BYTES_def)

section \<open>Replies are read back\<close>

text \<open>The reply lines as the format constants have tmux print them.\<close>

definition show_flag :: "bool \<Rightarrow> bytes" where
  "show_flag b = (if b then ''1'' else ''0'')"

definition state_fields :: "pane_state \<Rightarrow> bytes list" where
  "state_fields s =
     [show_pane_id (state_id s), show_nat (cursor_x s), show_nat (cursor_y s), show_flag (in_mode s),
      show_flag (alternate_on s), show_nat (scroll_upper s), show_nat (scroll_lower s),
      show_nat (width s), show_nat (height s), show_nat (history_size s)]"

fun join_words :: "bytes list \<Rightarrow> bytes" where
  "join_words [] = []"
| "join_words [w] = w"
| "join_words (w # ws) = w @ CHR '' '' # join_words ws"

definition pane_state_wf :: "pane_state \<Rightarrow> bool" where
  "pane_state_wf s \<longleftrightarrow> pane_num (state_id s) \<le> u32_max \<and> cursor_x s \<le> u32_max \<and> cursor_y s \<le> u32_max \<and>
     scroll_upper s \<le> u32_max \<and> scroll_lower s \<le> u32_max \<and> width s \<le> u32_max \<and> height s \<le> u32_max \<and>
     history_size s \<le> u32_max"

lemma split_join_words:
  "ws \<noteq> [] \<Longrightarrow> \<forall>w\<in>set ws. CHR '' '' \<notin> set w \<Longrightarrow> split_on CHR '' '' (join_words ws) = ws"
  by (induction ws rule: join_words.induct) (simp_all add: split_on_append split_on_single)

lemma set_join_words: "set (join_words ws) \<subseteq> insert CHR '' '' (\<Union>w\<in>set ws. set w)"
  by (induction ws rule: join_words.induct) auto

lemma join_words_ascii:
  assumes "\<forall>w\<in>set ws. \<forall>b\<in>set w. byte_val b < 128"
  shows "utf8_valid (join_words ws)"
proof (intro utf8_valid_ascii ballI)
  fix b assume "b \<in> set (join_words ws)"
  with set_join_words assms show "byte_val b < 128" by fastforce
qed

lemma show_flag_word:
  "CHR '' '' \<notin> set (show_flag b)" "\<forall>x\<in>set (show_flag b). byte_val x < 128"
  "parse_u32 (show_flag b) = Some (if b then 1 else 0)"
  by (simp_all add: show_flag_def parse_radix_def digit_val_def is_digit_def)

lemma parse_pane_state_show:
  assumes "pane_state_wf s"
  shows "parse_pane_state [join_words (state_fields s)] = Inr s"
proof -
  have "split_on CHR '' '' (join_words (state_fields s)) = state_fields s"
    by (rule split_join_words)
      (simp_all add: state_fields_def show_nat_word show_flag_word pane_ids.disp_no_space)
  moreover have "utf8_valid (join_words (state_fields s))"
    by (rule join_words_ascii) (simp add: state_fields_def show_nat_word show_flag_word pane_ids.disp_ascii)
  moreover have "length (state_fields s) = 10" by (simp add: state_fields_def)
  ultimately show ?thesis
    using assms
    by (simp add: parse_pane_state_def state_num_def state_fields_def pane_state_wf_def get_at_def
        parse_radix_show show_flag_word pane_ids.parse_disp)
qed

lemma parse_pane_state_wf: "parse_pane_state lines = Inr s \<Longrightarrow> pane_state_wf s"
  by (auto simp: parse_pane_state_def pane_state_wf_def state_num_def Let_def res_simps
      dest!: parse_radix_le pane_ids.parse_le split: list.splits if_splits bind_splits)

lemma parse_pane_state_one_line: "parse_pane_state lines = Inr s \<Longrightarrow> length lines = 1"
  by (auto simp: parse_pane_state_def split: list.splits)

definition window_fields :: "window_info \<Rightarrow> bytes list" where
  "window_fields i =
     [show_window_id (win_id i), win_layout i, win_visible_layout i, win_flags i, win_name i]"

definition window_info_wf :: "window_info \<Rightarrow> bool" where
  "window_info_wf i \<longleftrightarrow> window_num (win_id i) \<le> u32_max \<and>
     (\<forall>f\<in>set [win_layout i, win_visible_layout i, win_flags i].
        CHR '' '' \<notin> set f \<and> (\<forall>b\<in>set f. byte_val b < 128)) \<and>
     utf8_valid (win_name i)"

lemma splitn_join_words:
  "length ws = n \<Longrightarrow> 0 < n \<Longrightarrow> \<forall>w\<in>set (butlast ws). c \<notin> set w \<Longrightarrow> c = CHR '' '' \<Longrightarrow>
    splitn n c (join_words ws) = ws"
proof (induction ws arbitrary: n rule: join_words.induct)
  case (3 w v ws)
  then obtain m where "n = Suc (Suc m)" by (cases n; cases "n - 1") auto
  with 3 show ?case by (simp add: str_split_once_append)
qed auto

lemma join_words_utf8:
  "\<forall>w\<in>set ws. \<forall>b\<in>set w. byte_val b < 128 \<Longrightarrow> utf8_valid last_word \<Longrightarrow>
    utf8_valid (join_words (ws @ [last_word]))"
proof (induction ws)
  case (Cons w ws)
  then have "utf8_valid (CHR '' '' # join_words (ws @ [last_word]))" by simp
  then have "utf8_valid (w @ CHR '' '' # join_words (ws @ [last_word]))"
    using Cons.prems(1) utf8_valid_ascii_append [of w] by simp
  moreover have "join_words ((w # ws) @ [last_word]) = w @ CHR '' '' # join_words (ws @ [last_word])"
    by (cases "ws @ [last_word]") auto
  ultimately show ?case by simp
qed simp

lemma parse_window_line_show:
  assumes "window_info_wf i"
  shows "parse_window_line (join_words (window_fields i)) = Inr i"
proof -
  have "splitn 5 CHR '' '' (join_words (window_fields i)) = window_fields i"
    using assms
    by (intro splitn_join_words)
      (simp_all add: window_fields_def window_info_wf_def window_ids.disp_no_space)
  moreover have "utf8_valid (join_words (window_fields i))"
    using assms join_words_utf8 [of "[show_window_id (win_id i), win_layout i, win_visible_layout i, win_flags i]"
        "win_name i"]
    by (simp add: window_fields_def window_info_wf_def window_ids.disp_ascii)
  ultimately show ?thesis
    using assms by (simp add: parse_window_line_def window_info_wf_def window_ids.parse_disp)
      (simp add: window_fields_def window_ids.parse_disp)
qed

lemma parse_list_windows_show:
  "\<forall>i\<in>set infos. window_info_wf i \<Longrightarrow>
    parse_list_windows (map (\<lambda>i. join_words (window_fields i)) infos) = Inr infos"
  unfolding parse_list_windows_def
  by (subst rmap_map [where h = "\<lambda>i. i"]) (simp_all add: parse_window_line_show)

lemma parse_list_panes_show:
  assumes "\<forall>i\<in>set infos. pane_num (pane_info_id i) \<le> u32_max"
  shows "parse_list_panes (map (\<lambda>i. join_words [show_pane_id (pane_info_id i), show_flag (pane_active i)]) infos)
    = Inr infos"
proof -
  have "parse_pane_line (join_words [show_pane_id (pane_info_id i), show_flag (pane_active i)]) = Inr i"
    if "pane_num (pane_info_id i) \<le> u32_max" for i
  proof -
    let ?ws = "[show_pane_id (pane_info_id i), show_flag (pane_active i)]"
    have "split_on CHR '' '' (join_words ?ws) = ?ws"
      by (rule split_join_words) (simp_all add: pane_ids.disp_no_space show_flag_word)
    moreover have "utf8_valid (join_words ?ws)"
      by (rule join_words_ascii) (simp add: pane_ids.disp_ascii show_flag_word)
    ultimately show ?thesis
      using that by (simp add: parse_pane_line_def pane_ids.parse_disp show_flag_def del: join_words.simps)
  qed
  with assms show ?thesis
    unfolding parse_list_panes_def by (subst rmap_map [where h = "\<lambda>i. i"]) simp_all
qed

section \<open>Versions\<close>

text \<open>The derived order: by major version, then by minor.\<close>

instantiation tmux_version :: linorder
begin

definition less_eq_tmux_version :: "tmux_version \<Rightarrow> tmux_version \<Rightarrow> bool" where
  "less_eq_tmux_version a b \<longleftrightarrow> major a < major b \<or> (major a = major b \<and> minor a \<le> minor b)"

definition less_tmux_version :: "tmux_version \<Rightarrow> tmux_version \<Rightarrow> bool" where
  "less_tmux_version a b \<longleftrightarrow> major a < major b \<or> (major a = major b \<and> minor a < minor b)"

instance
  by standard (auto simp: less_eq_tmux_version_def less_tmux_version_def tmux_version.expand)

end

lemma parse_version_show:
  assumes "m \<le> u32_max" "n \<le> u32_max" "sfx = [] \<or> \<not> is_digit (hd sfx)" "pre = [] \<or> pre = ''next-''"
  shows "parse_version (pre @ show_nat m @ ''.'' @ show_nat n @ sfx) = Some (TmuxVersion m n)"
proof -
  let ?t = "show_nat m @ CHR ''.'' # show_nat n @ sfx"
  have digits: "b \<in> set (show_nat k) \<Longrightarrow> is_digit b" for b k by (rule show_nat_digits)
  have "strip_prefix ''next-'' ?t = None"
    using digits [of "hd (show_nat m)" m] by (cases "show_nat m") (auto simp: is_digit_def)
  then have stripped: "(case strip_prefix ''next-'' (pre @ ?t) of Some r \<Rightarrow> r | None \<Rightarrow> pre @ ?t) = ?t"
    using assms(4) by auto
  have "CHR ''.'' \<notin> set (show_nat m)" using digits [of "CHR ''.''" m] by (auto simp: is_digit_def)
  then have "str_split_once CHR ''.'' ?t = Some (show_nat m, show_nat n @ sfx)"
    by (rule str_split_once_append)
  moreover have "takeWhile is_digit (show_nat n @ sfx) = show_nat n"
    using assms(3) digits [of _ n] by (cases sfx) (auto simp: takeWhile_append2 takeWhile_tail)
  ultimately show ?thesis
    using assms(1,2) stripped by (simp add: parse_version_def Let_def parse_radix_show)
qed

section \<open>What is refused\<close>

lemma quote_ok_iff: "(\<exists>q. quote t = Inr q) \<longleftrightarrow> length t \<le> MAX_TEXT \<and> \<not> has_control t"
  by (auto simp: quote_def res_simps not_less)

fun sendable :: "command \<Rightarrow> bool" where
  "sendable (ClientSize cols rows) \<longleftrightarrow> cols \<in> {1..MAX_SIZE} \<and> rows \<in> {1..MAX_SIZE}"
| "sendable (WindowSize window cols rows) \<longleftrightarrow> cols \<in> {1..MAX_SIZE} \<and> rows \<in> {1..MAX_SIZE}"
| "sendable (ResizePane pane axis cells) \<longleftrightarrow> cells \<in> {1..MAX_SIZE}"
| "sendable (CapturePane pane history_rows) \<longleftrightarrow> history_rows \<le> 1000000"
| "sendable (SendKeys pane bs) \<longleftrightarrow> bs \<noteq> [] \<and> length bs \<le> MAX_KEY_BYTES"
| "sendable (NewWindow (Some dir)) \<longleftrightarrow> length dir \<le> MAX_TEXT \<and> \<not> has_control dir"
| "sendable (RenameWindow window name) \<longleftrightarrow> length name \<le> MAX_TEXT \<and> \<not> has_control name"
| "sendable _ \<longleftrightarrow> True"

lemma render_ok_iff: "(\<exists>line. render c = Inr line) \<longleftrightarrow> sendable c"
  by (cases c rule: sendable.cases)
    (auto simp: res_simps check_size_def Let_def not_less simp flip: quote_ok_iff split: if_splits)

section \<open>One line, one command\<close>















text \<open>
  \<open>render\<close> refuses exactly what cannot be sent: sizes outside 1 to 10000, captures of more than a
  million rows, no keys or more than 256, and free text that is too long or holds a control character.
\<close>

lemma render_refuses_exactly: "(\<exists>line. render c = Inr line) = sendable c"
  by (rule render_ok_iff)

text \<open>
  C19. \<open>send_keys\<close> loses nothing and sends nothing too long: its commands carry the given bytes in
  order, each at most 256 of them, every command renders, and the hex pairs of a command read back
  as its bytes.
\<close>

theorem send_keys_lossless:
  "concat (map key_bytes (send_keys pane bs)) = bs \<and>
    list_all (\<lambda>c. length (key_bytes c) \<le> 256 \<and>
      render c = Inr (''send-keys -t '' @ show_pane_id pane @ '' -H '' @ hex_pairs (key_bytes c)) \<and>
      map (digits_val 16 0) (split_on CHR '' '' (hex_pairs (key_bytes c))) =
        map (\<lambda>b. Some (byte_val b)) (key_bytes c)) (send_keys pane bs)"
proof -
  have hex: "map (digits_val 16 0) (split_on CHR '' '' (hex_pairs data)) = map (\<lambda>b. Some (byte_val b)) data"
    if "data \<noteq> []" for data
    using that by (simp add: split_hex_pairs hex_pair_val del: digits_val.simps)
  show ?thesis
    unfolding list_all_iff
  proof (intro conjI ballI send_keys_concat)
    fix c assume "c \<in> set (send_keys pane bs)"
    from send_keys_render [OF this] obtain data where data: "c = SendKeys pane data" "data \<noteq> []"
      "length data \<le> MAX_KEY_BYTES"
      "render c = Inr (''send-keys -t '' @ show_pane_id pane @ '' -H '' @ hex_pairs data)" by blast
    then show "length (key_bytes c) \<le> 256" by (simp add: MAX_KEY_BYTES_def)
    show "render c = Inr (''send-keys -t '' @ show_pane_id pane @ '' -H '' @ hex_pairs (key_bytes c))"
      using data(4) by (simp only: data(1) key_bytes.simps)
    show "map (digits_val 16 0) (split_on CHR '' '' (hex_pairs (key_bytes c))) =
        map (\<lambda>b. Some (byte_val b)) (key_bytes c)"
      using hex [OF data(2)] by (simp only: data(1) key_bytes.simps)
  qed
qed

text \<open>
  The window list is read back: the lines of windows with ids that fit, spaceless layouts and
  flags and any UTF-8 name, spaces included, parse to those windows in order.
\<close>

lemma window_list_round_trip:
  assumes "\<forall>i\<in>set infos. window_info_wf i"
  shows "parse_list_windows (map (\<lambda>i. join_words (window_fields i)) infos) = Inr infos"
  by (rule parse_list_windows_show [OF assms])

lemma window_list_round_trip_witness:
  "parse_list_windows (map (\<lambda>i. join_words (window_fields i))
      [\<lparr>win_id = WindowId 3, win_layout = ''a'', win_visible_layout = ''b'', win_flags = [], win_name = ''my shell''\<rparr>]) =
    Inr [\<lparr>win_id = WindowId 3, win_layout = ''a'', win_visible_layout = ''b'', win_flags = [], win_name = ''my shell''\<rparr>]"
  by (rule window_list_round_trip) (simp add: window_info_wf_def)

end
