(* ===== verification/Tmux_Decode.thy ===== *)
theory Tmux_Decode
  imports Tmux_Command
begin

text \<open>
  Model of \<^verbatim>\<open>crates/chan-tmux/src/decode.rs\<close>: the stream framing of tmux control mode. A method on
  \<open>&mut Decoder\<close> that appends frames to \<open>out\<close> is a function from the decoder to the decoder it
  leaves and the frames it appends; one that can fail also returns the error, with the decoder as
  the failure leaves it. \<open>feed_loop\<close> is the \<open>while\<close> loop of \<open>feed_inner\<close>: the slice it gets is
  \<open>&input[i..]\<close>, and \<open>pass\<close> is the local buffer.
\<close>

definition ESC :: byte where "ESC = CHR 0x1B"

definition MARKER :: bytes where "MARKER = CHR 0x1B # ''P1000p''"

record limits =
  max_line :: nat
  max_block_bytes :: nat
  max_block_lines :: nat

definition default_limits :: limits where
  "default_limits =
     \<lparr>max_line = 12 * 1024 * 1024, max_block_bytes = 64 * 1024 * 1024, max_block_lines = 200000\<rparr>"

record block =
  b_time :: nat
  b_number :: nat
  b_solicited :: bool
  b_ok :: bool
  b_lines :: "bytes list"

datatype frame =
    FPassthrough bytes
  | FEntered
  | FLine bytes
  | FBlock block
  | FExit "bytes option"

datatype state =
    Plain
  | Control
  | AwaitSt bool

record open_block =
  o_header :: bytes
  o_time :: nat
  o_number :: nat
  o_solicited :: bool
  o_rows :: "nat option"
  o_pane_state :: bool
  o_lines :: "bytes list"
  o_bytes :: nat

record decoder =
  d_limits :: limits
  d_state :: state
  d_armed :: bool
  d_matched :: nat
  d_line :: bytes
  d_open :: "open_block option"
  d_expect :: "expect list"
  d_pane_state :: "pane_state option"
  d_poisoned :: bool

section \<open>Operations\<close>

definition new_decoder :: "limits \<Rightarrow> decoder" where
  "new_decoder l =
     \<lparr>d_limits = l, d_state = Plain, d_armed = False, d_matched = 0, d_line = [], d_open = None,
      d_expect = [], d_pane_state = None, d_poisoned = False\<rparr>"

definition in_control :: "limits \<Rightarrow> decoder" where
  "in_control l = (new_decoder l)\<lparr>d_state := Control\<rparr>"

definition arm :: "decoder \<Rightarrow> bool \<Rightarrow> decoder" where
  "arm d armed =
     (let d = d\<lparr>d_armed := armed\<rparr> in if \<not> armed then d\<lparr>d_matched := 0\<rparr> else d)"

definition in_control_mode :: "decoder \<Rightarrow> bool" where
  "in_control_mode d \<longleftrightarrow> d_state d \<noteq> Plain"

definition expect_next :: "decoder \<Rightarrow> expect \<Rightarrow> decoder" where
  "expect_next d e = d\<lparr>d_expect := d_expect d @ [e]\<rparr>"

definition flush :: "bytes \<Rightarrow> frame list" where
  "flush pass = (if pass = [] then [] else [FPassthrough pass])"

definition parse_header :: "bytes \<Rightarrow> (nat \<times> nat \<times> nat) option" where
  "parse_header r =
     (if \<not> utf8_valid r then None
      else
        let it = split_on CHR '' '' r in
        case Option.bind (get_at it 0) parse_u64 of
          None \<Rightarrow> None
        | Some time \<Rightarrow>
            (case Option.bind (get_at it 1) parse_u64 of
               None \<Rightarrow> None
             | Some number \<Rightarrow>
                 (case Option.bind (get_at it 2) parse_u64 of
                    None \<Rightarrow> None
                  | Some flags \<Rightarrow> if get_at it 3 = None then Some (time, number, flags) else None)))"

text \<open>One byte outside control mode: the decoder, the buffer and the frames after it.\<close>

definition plain_byte :: "decoder \<Rightarrow> byte \<Rightarrow> bytes \<Rightarrow> decoder \<times> bytes \<times> frame list" where
  "plain_byte d b pass0 =
     (let pass = pass0 @ [b] in
      if d_armed d \<and> get_at MARKER (d_matched d) = Some b then
        let m = d_matched d + 1 in
        if m = length MARKER then
          (d\<lparr>d_matched := 0, d_state := Control, d_line := [], d_open := None, d_pane_state := None\<rparr>,
           [], flush pass @ [FEntered])
        else (d\<lparr>d_matched := m\<rparr>, pass, [])
      else
        (d\<lparr>d_matched := (if d_armed d \<and> get_at MARKER 0 = Some b then 1 else 0)\<rparr>, pass, []))"

definition push_line_bytes :: "decoder \<Rightarrow> bytes \<Rightarrow> (error, decoder) res" where
  "push_line_bytes d bs =
     (if max_line (d_limits d) + 1 < length (d_line d) + length bs then Err LineTooLong
      else Ok (d\<lparr>d_line := d_line d @ bs\<rparr>))"

text \<open>
  The terminator a line is for a block, if it is one: true for \<open>%end\<close>, false for \<open>%error\<close>, in
  both cases followed by exactly the block's header.
\<close>

definition terminator :: "open_block \<Rightarrow> bytes \<Rightarrow> bool option" where
  "terminator ob line =
     (case (case strip_prefix ''%end '' line of
              Some h \<Rightarrow> Some (h, True)
            | None \<Rightarrow> map_option (\<lambda>h. (h, False)) (strip_prefix ''%error '' line)) of
        None \<Rightarrow> None
      | Some (h, good) \<Rightarrow> if h = o_header ob then Some good else None)"

definition close_block :: "open_block \<Rightarrow> bool \<Rightarrow> block" where
  "close_block ob good =
     \<lparr>b_time = o_time ob, b_number = o_number ob, b_solicited = o_solicited ob, b_ok = good,
      b_lines = o_lines ob\<rparr>"

text \<open>What a fallible method leaves: the decoder, the frames it appended, its error if it failed.\<close>

type_synonym fed = "decoder \<times> frame list \<times> error option"

definition block_line :: "decoder \<Rightarrow> bytes \<Rightarrow> fed" where
  "block_line d line =
     (case d_open d of
        None \<Rightarrow> (d, [], Some (Malformed ''block''))
      | Some ob \<Rightarrow>
          case (if (case o_rows ob of None \<Rightarrow> True | Some n \<Rightarrow> n = length (o_lines ob))
                then terminator ob line else None) of
            Some good \<Rightarrow>
              let d1 = d\<lparr>d_open := None\<rparr>; out = [FBlock (close_block ob good)] in
              if o_pane_state ob then
                if good then
                  (case parse_pane_state (o_lines ob) of
                     Inl e \<Rightarrow> (d1, [], Some e)
                   | Inr s \<Rightarrow> (d1\<lparr>d_pane_state := Some s\<rparr>, out, None))
                else (d1\<lparr>d_pane_state := None\<rparr>, out, None)
              else (d1, out, None)
          | None \<Rightarrow>
              if (case o_rows ob of None \<Rightarrow> False | Some n \<Rightarrow> n \<le> length (o_lines ob)) then
                (d, [], Some ReplyShape)
              else
                let ob1 = ob\<lparr>o_bytes := o_bytes ob + (length line + 1)\<rparr> in
                if max_block_bytes (d_limits d) < o_bytes ob1
                   \<or> max_block_lines (d_limits d) \<le> length (o_lines ob1) then
                  (d\<lparr>d_open := Some ob1\<rparr>, [], Some BlockTooLarge)
                else (d\<lparr>d_open := Some (ob1\<lparr>o_lines := o_lines ob1 @ [line]\<rparr>)\<rparr>, [], None))"

text \<open>The row count an expectation promises, and whether the reply is a pane state to keep.\<close>

definition promised :: "expect \<Rightarrow> pane_state option \<Rightarrow> (error, nat option \<times> bool) res" where
  "promised e ps =
     (case e of
        ExpectAny \<Rightarrow> Ok (None, False)
      | ExpectRows n \<Rightarrow> Ok (Some n, False)
      | ExpectPaneState \<Rightarrow> Ok (None, True)
      | ExpectCapture history_rows \<Rightarrow>
          rbind (ok_or ps NoPaneState) (\<lambda>s.
            Ok (Some (min history_rows (history_size s) + height s), False)))"

text \<open>The \<open>%begin\<close> branch of \<open>finish_line\<close>.\<close>

definition begin_block :: "decoder \<Rightarrow> bytes \<Rightarrow> fed" where
  "begin_block d r =
     (case parse_header r of
        None \<Rightarrow> (d, [], Some (Malformed ''begin''))
      | Some (tm, num, flags) \<Rightarrow>
          let sol = (flags mod 2 = 1) in
          case (if sol then
                  (case d_expect d of
                     [] \<Rightarrow> None
                   | e # es \<Rightarrow> Some (e, es))
                else Some (ExpectAny, d_expect d)) of
            None \<Rightarrow> (d, [], Some UnexpectedReply)
          | Some (e, es) \<Rightarrow>
              let d1 = d\<lparr>d_expect := es, d_pane_state := None\<rparr> in
              (case promised e (d_pane_state d) of
                 Inl err \<Rightarrow> (d1, [], Some err)
               | Inr (rows, records_state) \<Rightarrow>
                   (d1\<lparr>d_open := Some
                       \<lparr>o_header = r, o_time = tm, o_number = num, o_solicited = sol, o_rows = rows,
                        o_pane_state = records_state, o_lines = [], o_bytes = 0\<rparr>\<rparr>, [], None)))"

definition exit_reason :: "bytes \<Rightarrow> bytes option" where
  "exit_reason line =
     (if length line < 6 then None
      else if drop 6 line = [] then None else Some (from_utf8_lossy (drop 6 line)))"

text \<open>A line whose trailing carriage return is gone: the branches of \<open>finish_line\<close> after the length check.\<close>

definition take_line :: "decoder \<Rightarrow> bytes \<Rightarrow> fed" where
  "take_line d line =
     (if d_open d \<noteq> None then block_line d line
      else case strip_prefix ''%begin '' line of
        Some r \<Rightarrow> begin_block d r
      | None \<Rightarrow>
          if line = ''%exit'' \<or> prefix ''%exit '' line then
            (d\<lparr>d_state := AwaitSt False, d_expect := [], d_pane_state := None\<rparr>,
             [FExit (exit_reason line)], None)
          else (d, [FLine line], None))"

definition pop_cr :: "bytes \<Rightarrow> bytes" where
  "pop_cr line = (if line \<noteq> [] \<and> last line = CHR 0x0D then butlast line else line)"

definition finish_line :: "decoder \<Rightarrow> fed" where
  "finish_line d0 =
     (let line = pop_cr (d_line d0); d = d0\<lparr>d_line := []\<rparr> in
      if max_line (d_limits d) < length line then (d, [], Some LineTooLong) else take_line d line)"

text \<open>A byte in \<open>AwaitSt\<close>: of the closing \<open>ST\<close>, or an ordinary byte after all.\<close>

definition await_byte :: "decoder \<Rightarrow> bool \<Rightarrow> byte \<Rightarrow> bytes \<Rightarrow> decoder \<times> bytes \<times> frame list" where
  "await_byte d esc b pass =
     (if \<not> esc \<and> b = ESC then (d\<lparr>d_state := AwaitSt True\<rparr>, pass, [])
      else if esc \<and> b = CHR 0x5C then (d\<lparr>d_state := Plain\<rparr>, pass, [])
      else
        let d1 = d\<lparr>d_state := Plain\<rparr>;
            (d2, pass2, fs2) = (if esc then plain_byte d1 ESC pass else (d1, pass, []));
            (d3, pass3, fs3) = plain_byte d2 b pass2
        in (d3, pass3, fs2 @ fs3))"

definition emit :: "frame list \<Rightarrow> fed \<Rightarrow> fed" where
  "emit fs r = (case r of (d, gs, e) \<Rightarrow> (d, fs @ gs, e))"

function feed_loop :: "decoder \<Rightarrow> bytes \<Rightarrow> bytes \<Rightarrow> fed" where
  "feed_loop d pass rest =
     (if rest = [] then (d, flush pass, None)
      else case d_state d of
        Plain \<Rightarrow>
          if \<not> d_armed d \<and> d_matched d = 0 then feed_loop d (pass @ rest) []
          else if d_matched d = 0 then
            (case position (\<lambda>b. b = ESC) rest of
               Some n \<Rightarrow>
                 let (d1, pass1, fs) = plain_byte d (rest ! n) (pass @ take n rest) in
                 emit fs (feed_loop d1 pass1 (drop (n + 1) rest))
             | None \<Rightarrow> feed_loop d (pass @ rest) [])
          else
            let (d1, pass1, fs) = plain_byte d (hd rest) pass in
            emit fs (feed_loop d1 pass1 (tl rest))
      | Control \<Rightarrow>
          (case position (\<lambda>b. b = CHR 0x0A) rest of
             Some n \<Rightarrow>
               (case push_line_bytes d (take n rest) of
                  Inl e \<Rightarrow> (d, [], Some e)
                | Inr d1 \<Rightarrow>
                    (case finish_line d1 of
                       (d2, fs, Some e) \<Rightarrow> (d2, fs, Some e)
                     | (d2, fs, None) \<Rightarrow> emit fs (feed_loop d2 pass (drop (n + 1) rest))))
           | None \<Rightarrow>
               (case push_line_bytes d rest of
                  Inl e \<Rightarrow> (d, [], Some e)
                | Inr d1 \<Rightarrow> feed_loop d1 pass []))
      | AwaitSt esc \<Rightarrow>
          let (d1, pass1, fs) = await_byte d esc (hd rest) pass in
          emit fs (feed_loop d1 pass1 (tl rest)))"
  by pat_completeness auto
termination
  by (relation "measure (\<lambda>(d, pass, rest). length rest)") auto

declare feed_loop.simps [simp del]

definition feed_inner :: "decoder \<Rightarrow> bytes \<Rightarrow> fed" where
  "feed_inner d input = feed_loop d [] input"

definition feed :: "decoder \<Rightarrow> bytes \<Rightarrow> fed" where
  "feed d input =
     (if d_poisoned d then (d, [], Some Poisoned)
      else case feed_inner d input of
        (d1, fs, None) \<Rightarrow> (d1, fs, None)
      | (d1, fs, Some e) \<Rightarrow> (d1\<lparr>d_poisoned := True\<rparr>, fs, Some e))"

section \<open>The bounds a running decoder keeps\<close>

definition open_wf :: "limits \<Rightarrow> open_block \<Rightarrow> bool" where
  "open_wf l ob \<longleftrightarrow> length (o_lines ob) \<le> max_block_lines l \<and>
     o_bytes ob = sum_list (map (\<lambda>r. length r + 1) (o_lines ob)) \<and>
     o_bytes ob \<le> max_block_bytes l \<and>
     (\<forall>n. o_rows ob = Some n \<longrightarrow> length (o_lines ob) \<le> n)"

definition decoder_wf :: "decoder \<Rightarrow> bool" where
  "decoder_wf d \<longleftrightarrow> d_matched d < length MARKER \<and> (\<not> d_armed d \<longrightarrow> d_matched d = 0) \<and>
     length (d_line d) \<le> max_line (d_limits d) + 1 \<and>
     (d_state d \<noteq> Control \<longrightarrow> d_open d = None) \<and> (d_state d \<noteq> Plain \<longrightarrow> d_matched d = 0) \<and>
     (\<forall>ob. d_open d = Some ob \<longrightarrow> open_wf (d_limits d) ob)"

lemma MARKER_simps [simp]:
  "length MARKER = 7" "get_at MARKER 0 = Some ESC"
  by (simp_all add: MARKER_def ESC_def)

lemma new_decoder_wf: "decoder_wf (new_decoder l)" "decoder_wf (in_control l)"
  by (simp_all add: decoder_wf_def new_decoder_def in_control_def)

lemma arm_wf: "decoder_wf d \<Longrightarrow> decoder_wf (arm d armed)"
  by (simp add: decoder_wf_def arm_def Let_def)

lemma expect_next_wf: "decoder_wf d \<Longrightarrow> decoder_wf (expect_next d e)"
  by (simp add: decoder_wf_def expect_next_def)

lemma plain_byte_wf:
  assumes "decoder_wf d" "d_state d = Plain" "plain_byte d b pass = (d1, p, fs)"
  shows "decoder_wf d1 \<and> (p \<noteq> [] \<longrightarrow> d_state d1 = Plain) \<and> d_poisoned d1 = d_poisoned d"
  using assms by (auto simp: decoder_wf_def plain_byte_def Let_def split: if_splits)

lemma await_byte_wf:
  assumes "decoder_wf d" "d_state d = AwaitSt esc" "await_byte d esc b pass = (d1, p, fs)"
    and "pass = []"
  shows "decoder_wf d1 \<and> (p \<noteq> [] \<longrightarrow> d_state d1 = Plain) \<and> d_poisoned d1 = d_poisoned d"
proof -
  let ?d = "d\<lparr>d_state := Plain\<rparr>"
  have d: "decoder_wf ?d" "decoder_wf (d\<lparr>d_state := AwaitSt True\<rparr>)"
    using assms(1,2) by (auto simp: decoder_wf_def)
  obtain d2 p2 f2 where e: "plain_byte ?d ESC pass = (d2, p2, f2)" by (cases "plain_byte ?d ESC pass")
  then have d2: "decoder_wf d2" "d_state d2 = Plain" "d_poisoned d2 = d_poisoned d"
    using plain_byte_wf [OF d(1) _ e] by (auto simp: plain_byte_def Let_def MARKER_def ESC_def get_at_def
        split: if_splits)
  show ?thesis
    using assms d d2 e plain_byte_wf [OF d(1), of b pass] plain_byte_wf [OF d2(1,2), of b p2]
    by (auto simp: await_byte_def Let_def split: if_splits prod.splits)
qed

lemma push_line_bytes_wf:
  "decoder_wf d \<Longrightarrow> push_line_bytes d bs = Inr d1 \<Longrightarrow>
    decoder_wf d1 \<and> d_state d1 = d_state d \<and> d_poisoned d1 = d_poisoned d"
  by (auto simp: decoder_wf_def push_line_bytes_def split: if_splits)

lemma block_line_wf:
  assumes "decoder_wf d" "d_state d = Control" "block_line d line = (d1, fs, None)"
  shows "decoder_wf d1 \<and> d_state d1 = Control \<and> d_poisoned d1 = d_poisoned d"
proof (cases "d_open d")
  case (Some ob)
  with assms(1) have "open_wf (d_limits d) ob" by (simp add: decoder_wf_def)
  with assms Some show ?thesis
    by (auto simp: block_line_def Let_def decoder_wf_def open_wf_def
        split: option.splits if_splits sum.splits)
qed (use assms in \<open>simp add: block_line_def\<close>)

lemma begin_block_wf:
  assumes "decoder_wf d" "d_state d = Control" "begin_block d r = (d1, fs, None)"
  shows "decoder_wf d1 \<and> d_state d1 = Control \<and> d_poisoned d1 = d_poisoned d"
  using assms
  by (auto simp: begin_block_def Let_def decoder_wf_def open_wf_def
      split: option.splits if_splits sum.splits list.splits)

lemma finish_line_wf:
  assumes "decoder_wf d" "d_state d = Control" "finish_line d = (d1, fs, None)"
  shows "decoder_wf d1 \<and> d_poisoned d1 = d_poisoned d \<and> (d_state d1 = Control \<or> d_state d1 = AwaitSt False)"
proof -
  let ?d = "d\<lparr>d_line := []\<rparr>"
  have d: "decoder_wf ?d" "d_state ?d = Control" using assms(1,2) by (auto simp: decoder_wf_def)
  consider "block_line ?d (pop_cr (d_line d)) = (d1, fs, None)" | r where "begin_block ?d r = (d1, fs, None)"
    | "d_open d = None" "d1 = ?d\<lparr>d_state := AwaitSt False, d_expect := [], d_pane_state := None\<rparr>" | "d1 = ?d"
    using assms(3) by (auto simp: finish_line_def take_line_def Let_def split: if_splits option.splits)
  then show ?thesis
  proof cases
    case 3
    with assms(1,2) show ?thesis by (auto simp: decoder_wf_def)
  qed (use d block_line_wf [OF d] begin_block_wf [OF d] in auto)
qed

section \<open>The reference: one byte at a time\<close>

text \<open>
  \<open>feed_inner\<close> takes plain bytes and control lines in bulk. \<open>dec_byte\<close> is the decoder without any
  of that, \<open>dec_run\<close> its run over a read up to the first error. Frames are compared after
  \<open>explode\<close>, which cuts a passthrough into its bytes, because how passed bytes are grouped depends
  on the reads.
\<close>

definition dec_byte :: "decoder \<Rightarrow> byte \<Rightarrow> fed" where
  "dec_byte d b =
     (case d_state d of
        Plain \<Rightarrow> (case plain_byte d b [] of (d1, p, fs) \<Rightarrow> (d1, fs @ flush p, None))
      | Control \<Rightarrow>
          if b = CHR 0x0A then finish_line d
          else (case push_line_bytes d [b] of Inl e \<Rightarrow> (d, [], Some e) | Inr d1 \<Rightarrow> (d1, [], None))
      | AwaitSt esc \<Rightarrow> (case await_byte d esc b [] of (d1, p, fs) \<Rightarrow> (d1, fs @ flush p, None)))"

fun dec_run :: "decoder \<Rightarrow> bytes \<Rightarrow> fed" where
  "dec_run d [] = (d, [], None)"
| "dec_run d (b # bs) =
     (case dec_byte d b of
        (d1, fs, Some e) \<Rightarrow> (d1, fs, Some e)
      | (d1, fs, None) \<Rightarrow> emit fs (dec_run d1 bs))"

definition singles :: "bytes \<Rightarrow> frame list" where
  "singles bs = map (\<lambda>b. FPassthrough [b]) bs"

definition explode :: "frame list \<Rightarrow> frame list" where
  "explode fs =
     concat (map (\<lambda>f. case f of FPassthrough bs \<Rightarrow> if bs = [] then [f] else singles bs | _ \<Rightarrow> [f]) fs)"

text \<open>Two runs agree: the same frames, the same error and, without one, the same decoder.\<close>

definition agree :: "fed \<Rightarrow> fed \<Rightarrow> bool" where
  "agree r r' \<longleftrightarrow> explode (fst (snd r)) = explode (fst (snd r')) \<and> snd (snd r) = snd (snd r') \<and>
     (snd (snd r) = None \<longrightarrow> fst r = fst r')"

lemma explode_simps [simp]:
  "explode [] = []" "explode (fs @ gs) = explode fs @ explode gs"
  "explode (flush p) = singles p" "explode (singles p) = singles p"
  "p \<noteq> [] \<Longrightarrow> explode (FPassthrough p # fs) = singles p @ explode fs"
  "explode (FEntered # fs) = FEntered # explode fs" "explode (FBlock bl # fs) = FBlock bl # explode fs"
  "explode (FLine l # fs) = FLine l # explode fs" "explode (FExit r # fs) = FExit r # explode fs"
  by (auto simp: explode_def flush_def singles_def comp_def)

lemma explode_id:
  "\<forall>f\<in>set (explode fs). \<forall>bs. f \<noteq> FPassthrough bs \<Longrightarrow> explode fs = fs"
proof (induction fs)
  case (Cons f fs)
  have ex: "explode (f # fs) = explode [f] @ explode fs" by (simp add: explode_def)
  with Cons.prems have "\<forall>g\<in>set (explode [f]). \<forall>bs. g \<noteq> FPassthrough bs" and IH: "explode fs = fs"
    using Cons.IH by auto
  then have "explode [f] = [f]"
    by (cases f) (auto simp: explode_def singles_def split: if_splits list.splits)
  with ex IH show ?case by simp
qed simp

lemma singles_simps [simp]: "singles [] = []" "singles (p @ q) = singles p @ singles q"
  by (simp_all add: singles_def)

lemma emit_simps [simp]:
  "emit [] r = r" "emit fs (emit gs r) = emit (fs @ gs) r" "emit fs (d, gs, e) = (d, fs @ gs, e)"
  "fst (emit fs r) = fst r" "fst (snd (emit fs r)) = fs @ fst (snd r)" "snd (snd (emit fs r)) = snd (snd r)"
  by (simp_all add: emit_def split: prod.splits)

lemma agree_emit: "agree r r' \<Longrightarrow> explode fs = explode fs' \<Longrightarrow> agree (emit fs r) (emit fs' r')"
  by (simp add: agree_def)

lemma agree_trans: "agree r r' \<Longrightarrow> agree r' r'' \<Longrightarrow> agree r r''"
  by (simp add: agree_def)

lemma plain_byte_buffer:
  "plain_byte d b pass = (d1, p, fs) \<Longrightarrow> \<exists>p0 fs0. plain_byte d b [] = (d1, p0, fs0) \<and>
    explode fs @ singles p = singles pass @ explode fs0 @ singles p0"
  by (auto simp: plain_byte_def Let_def flush_def split: if_splits)

lemma await_byte_buffer:
  assumes "await_byte d esc b pass = (d1, p, fs)"
  shows "\<exists>p0 fs0. await_byte d esc b [] = (d1, p0, fs0) \<and>
    explode fs @ singles p = singles pass @ explode fs0 @ singles p0"
proof -
  let ?d = "d\<lparr>d_state := Plain\<rparr>"
  obtain d2 p2 f2 where e: "plain_byte ?d ESC pass = (d2, p2, f2)" by (cases "plain_byte ?d ESC pass")
  from plain_byte_buffer [OF e] obtain q2 g2 where e0: "plain_byte ?d ESC [] = (d2, q2, g2)"
    and f2: "explode f2 @ singles p2 = singles pass @ explode g2 @ singles q2" by auto
  obtain d3 p3 f3 where b: "plain_byte d2 b p2 = (d3, p3, f3)" by (cases "plain_byte d2 b p2")
  from plain_byte_buffer [OF b] obtain q g where "plain_byte d2 b [] = (d3, q, g)"
    "explode f3 @ singles p3 = singles p2 @ explode g @ singles q" by auto
  moreover obtain d4 p4 f4 where b4: "plain_byte d2 b q2 = (d4, p4, f4)" by (cases "plain_byte d2 b q2")
  from plain_byte_buffer [OF b4] obtain q' g' where "plain_byte d2 b [] = (d4, q', g')"
    "explode f4 @ singles p4 = singles q2 @ explode g' @ singles q'" by auto
  ultimately have esc: "d4 = d3"
    "(explode f2 @ explode f3) @ singles p3 = singles pass @ (explode g2 @ explode f4) @ singles p4"
    using f2 by (auto simp flip: append_assoc) (metis append_assoc)
  show ?thesis
    using assms e e0 b b4 esc plain_byte_buffer [of ?d b pass]
    by (auto simp: await_byte_def Let_def split: if_splits)
qed

lemma matched_same [simp]: "d_matched d = 0 \<Longrightarrow> d\<lparr>d_matched := 0\<rparr> = d"
  by (cases d) simp

lemma dec_run_unarmed:
  "d_state d = Plain \<Longrightarrow> \<not> d_armed d \<Longrightarrow> d_matched d = 0 \<Longrightarrow> dec_run d bs = (d, singles bs, None)"
  by (induction bs) (simp_all add: dec_byte_def plain_byte_def Let_def flush_def singles_def)

lemma dec_run_no_esc:
  "d_state d = Plain \<Longrightarrow> d_matched d = 0 \<Longrightarrow> \<forall>b\<in>set xs. b \<noteq> ESC \<Longrightarrow>
    dec_run d (xs @ ys) = emit (singles xs) (dec_run d ys)"
  by (induction xs) (auto simp: dec_byte_def plain_byte_def Let_def flush_def singles_def)

lemma dec_run_line:
  "d_state d = Control \<Longrightarrow> \<forall>b\<in>set xs. b \<noteq> CHR 0x0A \<Longrightarrow>
    length (d_line d) + length xs \<le> max_line (d_limits d) + 1 \<Longrightarrow>
    dec_run d (xs @ ys) = dec_run (d\<lparr>d_line := d_line d @ xs\<rparr>) ys"
  by (induction xs arbitrary: d) (simp_all add: dec_byte_def push_line_bytes_def)

lemma dec_run_long_line:
  "d_state d = Control \<Longrightarrow> \<forall>b\<in>set xs. b \<noteq> CHR 0x0A \<Longrightarrow>
    length (d_line d) \<le> max_line (d_limits d) + 1 \<Longrightarrow>
    max_line (d_limits d) + 1 < length (d_line d) + length xs \<Longrightarrow>
    \<exists>d'. dec_run d (xs @ ys) = (d', [], Some LineTooLong)"
  by (induction xs arbitrary: d) (auto simp: dec_byte_def push_line_bytes_def)

lemma agree_step:
  assumes "agree (feed_loop d1 p rest) (emit (flush p) (dec_run d1 rest))"
    and "explode fs @ singles p = singles pass @ explode fs0 @ singles p0"
  shows "agree (emit fs (feed_loop d1 p rest)) (emit (flush pass @ fs0 @ flush p0) (dec_run d1 rest))"
proof -
  have "agree (emit fs (feed_loop d1 p rest)) (emit (fs @ flush p) (dec_run d1 rest))"
    using agree_emit [OF assms(1), of fs fs] by simp
  with assms(2) show ?thesis by (simp add: agree_def)
qed

lemma agree_plain:
  assumes "plain_byte d b pass = (d1, p, fs)" "d_state d = Plain"
    and "agree (feed_loop d1 p rest) (emit (flush p) (dec_run d1 rest))"
  shows "agree (emit fs (feed_loop d1 p rest)) (emit (flush pass) (dec_run d (b # rest)))"
proof -
  from plain_byte_buffer [OF assms(1)] obtain p0 fs0 where "plain_byte d b [] = (d1, p0, fs0)"
    "explode fs @ singles p = singles pass @ explode fs0 @ singles p0" by auto
  with agree_step [OF assms(3)] assms(2) show ?thesis by (simp add: dec_byte_def)
qed

lemma agree_await:
  assumes "await_byte d esc b pass = (d1, p, fs)" "d_state d = AwaitSt esc"
    and "agree (feed_loop d1 p rest) (emit (flush p) (dec_run d1 rest))"
  shows "agree (emit fs (feed_loop d1 p rest)) (emit (flush pass) (dec_run d (b # rest)))"
proof -
  from await_byte_buffer [OF assms(1)] obtain p0 fs0 where "await_byte d esc b [] = (d1, p0, fs0)"
    "explode fs @ singles p = singles pass @ explode fs0 @ singles p0" by auto
  with agree_step [OF assms(3)] assms(2) show ?thesis by (simp add: dec_byte_def)
qed

lemma feed_loop_Nil [simp]: "feed_loop d pass [] = (d, flush pass, None)"
  by (simp add: feed_loop.simps)

lemma agree_esc:
  assumes "plain_byte d b (pass @ xs) = (d1, p, fs)" "d_state d = Plain" "d_matched d = 0"
    and "\<forall>b\<in>set xs. b \<noteq> ESC"
    and "agree (feed_loop d1 p rest) (emit (flush p) (dec_run d1 rest))"
  shows "agree (emit fs (feed_loop d1 p rest)) (emit (flush pass) (dec_run d (xs @ b # rest)))"
  using agree_plain [OF assms(1,2,5)] dec_run_no_esc [OF assms(2-4), of "b # rest"]
  by (simp add: agree_def)

text \<open>The loop unfolded, by state.\<close>

lemma feed_loop_unarmed:
  "d_state d = Plain \<Longrightarrow> \<not> d_armed d \<Longrightarrow> d_matched d = 0 \<Longrightarrow>
    feed_loop d pass rest = (d, flush (pass @ rest), None)"
  by (cases "rest = []") (simp_all add: feed_loop.simps [of d pass rest])

lemma feed_loop_no_esc:
  "d_state d = Plain \<Longrightarrow> d_matched d = 0 \<Longrightarrow> position (\<lambda>b. b = ESC) rest = None \<Longrightarrow>
    feed_loop d pass rest = (d, flush (pass @ rest), None)"
  by (cases "rest = []") (simp_all add: feed_loop.simps [of d pass rest])

lemma feed_loop_esc:
  "d_state d = Plain \<Longrightarrow> d_armed d \<Longrightarrow> d_matched d = 0 \<Longrightarrow> \<forall>b\<in>set xs. b \<noteq> ESC \<Longrightarrow>
    plain_byte d ESC (pass @ xs) = (d1, p, fs) \<Longrightarrow>
    feed_loop d pass (xs @ ESC # rest) = emit fs (feed_loop d1 p rest)"
  by (simp add: feed_loop.simps [of d pass] position_append [of xs "\<lambda>b. b = ESC" ESC rest])

lemma feed_loop_match:
  "d_state d = Plain \<Longrightarrow> d_matched d \<noteq> 0 \<Longrightarrow> plain_byte d b pass = (d1, p, fs) \<Longrightarrow>
    feed_loop d pass (b # rest) = emit fs (feed_loop d1 p rest)"
  by (simp add: feed_loop.simps [of d pass])

lemma feed_loop_await:
  "d_state d = AwaitSt esc \<Longrightarrow> await_byte d esc b pass = (d1, p, fs) \<Longrightarrow>
    feed_loop d pass (b # rest) = emit fs (feed_loop d1 p rest)"
  by (simp add: feed_loop.simps [of d pass])

lemma feed_loop_line:
  "d_state d = Control \<Longrightarrow> \<forall>b\<in>set xs. b \<noteq> CHR 0x0A \<Longrightarrow>
    feed_loop d pass (xs @ CHR 0x0A # rest) =
      (case push_line_bytes d xs of
         Inl e \<Rightarrow> (d, [], Some e)
       | Inr d1 \<Rightarrow>
           (case finish_line d1 of
              (d2, fs, Some e) \<Rightarrow> (d2, fs, Some e)
            | (d2, fs, None) \<Rightarrow> emit fs (feed_loop d2 pass rest)))"
  by (simp add: feed_loop.simps [of d pass] position_append [of xs "\<lambda>b. b = CHR 0x0A" "CHR 0x0A" rest]
      cong: sum.case_cong option.case_cong)

lemma feed_loop_part:
  assumes "d_state d = Control" "\<forall>b\<in>set xs. b \<noteq> CHR 0x0A" "xs \<noteq> []"
  shows "feed_loop d pass xs =
    (case push_line_bytes d xs of Inl e \<Rightarrow> (d, [], Some e) | Inr d1 \<Rightarrow> (d1, flush pass, None))"
proof -
  have "position (\<lambda>b. b = CHR 0x0A) xs = None" using assms(2) by (simp only: position_None_iff)
  with assms(1,3) show ?thesis
    by (cases "push_line_bytes d xs") (simp_all add: feed_loop.simps [of d pass])
qed

lemma byte_splitE:
  fixes rest :: bytes
  obtains "position (\<lambda>b. b = c) rest = None" "\<forall>b\<in>set rest. b \<noteq> c"
    | xs ys where "rest = xs @ c # ys" "\<forall>b\<in>set xs. b \<noteq> c"
proof (cases "position (\<lambda>b. b = c) rest")
  case None
  then have "\<forall>b\<in>set rest. b \<noteq> c" by (simp only: position_None_iff)
  with None that(1) show ?thesis by simp
next
  case (Some n)
  then show ?thesis by (rule position_splitE) (use that(2) in blast)
qed

lemma control_agree:
  assumes wf: "decoder_wf d" and st: "d_state d = Control" and ne: "rest \<noteq> []"
    and IH: "\<And>d1 rest'. length rest' < length rest \<Longrightarrow> decoder_wf d1 \<Longrightarrow>
      agree (feed_loop d1 [] rest') (dec_run d1 rest')"
  shows "agree (feed_loop d [] rest) (dec_run d rest)"
proof (cases rest rule: byte_splitE [where c = "CHR 0x0A"])
  have len: "length (d_line d) \<le> max_line (d_limits d) + 1" using wf by (simp add: decoder_wf_def)
  case 1
  show ?thesis
    using dec_run_line [OF st 1(2), of "[]"] dec_run_long_line [OF st 1(2) len, of "[]"]
      feed_loop_part [OF st 1(2) ne, of "[]"]
    by (auto simp: push_line_bytes_def agree_def flush_def)
next
  have len: "length (d_line d) \<le> max_line (d_limits d) + 1" using wf by (simp add: decoder_wf_def)
  case (2 xs ys)
  show ?thesis
  proof (cases "push_line_bytes d xs")
    case (Inl e)
    with dec_run_long_line [OF st 2(2) len, of "CHR 0x0A # ys"] feed_loop_line [OF st 2(2), of "[]" ys] 2(1)
    show ?thesis
      by (auto simp: push_line_bytes_def agree_def split: if_splits)
  next
    case (Inr d1)
    then have "d1 = d\<lparr>d_line := d_line d @ xs\<rparr>"
      and "length (d_line d) + length xs \<le> max_line (d_limits d) + 1"
      by (auto simp: push_line_bytes_def split: if_splits)
    with dec_run_line [OF st 2(2), of "CHR 0x0A # ys"] 2(1)
    have run: "dec_run d rest = dec_run d1 (CHR 0x0A # ys)" by simp
    from push_line_bytes_wf [OF wf Inr] st have d1: "decoder_wf d1" "d_state d1 = Control" by auto
    obtain d2 fs e where fl: "finish_line d1 = (d2, fs, e)" by (cases "finish_line d1")
    show ?thesis
    proof (cases e)
      case None
      with finish_line_wf [OF d1] fl have "decoder_wf d2" by simp
      with IH [of ys d2] 2(1) have "agree (feed_loop d2 [] ys) (dec_run d2 ys)" by simp
      from agree_emit [OF this refl, of fs] show ?thesis
        using fl None Inr run d1(2) feed_loop_line [OF st 2(2), of "[]" ys] 2(1) by (simp add: dec_byte_def)
    next
      case (Some err)
      then show ?thesis
        using fl Inr run d1(2) feed_loop_line [OF st 2(2), of "[]" ys] 2(1) by (simp add: dec_byte_def agree_def)
    qed
  qed
qed

lemma plain_agree:
  assumes wf: "decoder_wf d" and st: "d_state d = Plain" and ne: "rest \<noteq> []"
    and IH: "\<And>d1 p rest'. length rest' < length rest \<Longrightarrow> decoder_wf d1 \<Longrightarrow> p = [] \<or> d_state d1 = Plain \<Longrightarrow>
      agree (feed_loop d1 p rest') (emit (flush p) (dec_run d1 rest'))"
  shows "agree (feed_loop d pass rest) (emit (flush pass) (dec_run d rest))"
proof (cases "d_matched d = 0")
  case m: True
  show ?thesis
  proof (cases "d_armed d")
    case False
    with dec_run_unarmed [OF st False m] feed_loop_unarmed [OF st False m] show ?thesis
      by (simp add: agree_def)
  next
    case armed: True
    show ?thesis
    proof (cases rest rule: byte_splitE [where c = ESC])
      case 1
      with dec_run_no_esc [OF st m 1(2), of "[]"] feed_loop_no_esc [OF st m 1(1)] show ?thesis
        by (simp add: agree_def)
    next
      case (2 xs ys)
      obtain d1 p fs where b: "plain_byte d ESC (pass @ xs) = (d1, p, fs)"
        by (cases "plain_byte d ESC (pass @ xs)")
      from plain_byte_wf [OF wf st b] IH [of ys d1 p] 2(1)
      have "agree (feed_loop d1 p ys) (emit (flush p) (dec_run d1 ys))" by auto
      from agree_esc [OF b st m 2(2) this] feed_loop_esc [OF st armed m 2(2) b] 2(1)
      show ?thesis by simp
    qed
  qed
next
  case m: False
  obtain b bs where rest: "rest = b # bs" using ne by (cases rest) auto
  obtain d1 p fs where b: "plain_byte d b pass = (d1, p, fs)" by (cases "plain_byte d b pass")
  from plain_byte_wf [OF wf st b] IH [of bs d1 p] rest
  have "agree (feed_loop d1 p bs) (emit (flush p) (dec_run d1 bs))" by auto
  from agree_plain [OF b st this] feed_loop_match [OF st m b] rest show ?thesis by simp
qed

lemma feed_loop_agree:
  "decoder_wf d \<Longrightarrow> pass = [] \<or> d_state d = Plain \<Longrightarrow>
    agree (feed_loop d pass rest) (emit (flush pass) (dec_run d rest))"
proof (induction rest arbitrary: d pass rule: length_induct)
  case (1 rest)
  then have IH: "\<And>d1 p rest'. length rest' < length rest \<Longrightarrow> decoder_wf d1 \<Longrightarrow> p = [] \<or> d_state d1 = Plain \<Longrightarrow>
      agree (feed_loop d1 p rest') (emit (flush p) (dec_run d1 rest'))"
    by blast
  show ?case
  proof (cases rest)
    case Nil
    then show ?thesis by (simp add: agree_def)
  next
    case (Cons b bs)
    show ?thesis
    proof (cases "d_state d")
      case Plain
      from plain_agree [OF "1.prems"(1) Plain, of rest pass] IH Cons show ?thesis by blast
    next
      case Control
      with "1.prems"(2) control_agree [OF "1.prems"(1) Control, of rest] IH [where p = "[]"] Cons
      show ?thesis by (simp add: flush_def)
    next
      case (AwaitSt esc)
      with "1.prems"(2) have pass: "pass = []" by simp
      obtain d1 p fs where b: "await_byte d esc b pass = (d1, p, fs)" by (cases "await_byte d esc b pass")
      from await_byte_wf [OF "1.prems"(1) AwaitSt b pass] IH [of bs d1 p] Cons
      have "agree (feed_loop d1 p bs) (emit (flush p) (dec_run d1 bs))" by auto
      from agree_await [OF b AwaitSt this] feed_loop_await [OF AwaitSt b] Cons show ?thesis by simp
    qed
  qed
qed

lemma dec_byte_wf:
  assumes "decoder_wf d" "dec_byte d b = (d1, fs, None)"
  shows "decoder_wf d1 \<and> d_poisoned d1 = d_poisoned d"
proof (cases "d_state d")
  case Plain
  with assms show ?thesis
    using plain_byte_wf [OF assms(1) Plain, of b "[]"] by (auto simp: dec_byte_def split: prod.splits)
next
  case Control
  with assms show ?thesis
    using push_line_bytes_wf [OF assms(1), of "[b]"] finish_line_wf [OF assms(1) Control]
    by (auto simp: dec_byte_def split: if_splits sum.splits)
next
  case (AwaitSt esc)
  with assms show ?thesis
    using await_byte_wf [OF assms(1) AwaitSt, of b "[]"] by (auto simp: dec_byte_def split: prod.splits)
qed

lemma dec_run_wf:
  "decoder_wf d \<Longrightarrow> dec_run d bs = (d1, fs, None) \<Longrightarrow> decoder_wf d1 \<and> d_poisoned d1 = d_poisoned d"
proof (induction bs arbitrary: d fs)
  case (Cons b bs)
  obtain d2 gs e where b: "dec_byte d b = (d2, gs, e)" by (cases "dec_byte d b")
  obtain d3 hs e' where bs: "dec_run d2 bs = (d3, hs, e')" by (cases "dec_run d2 bs")
  from Cons.prems b bs have "e = None" "d3 = d1" "e' = None" by (auto split: option.splits)
  with Cons.IH [of d2 hs] dec_byte_wf [of d b d2 gs] Cons.prems(1) b bs show ?case by simp
qed simp

lemma dec_run_append:
  "dec_run d (xs @ ys) =
     (case dec_run d xs of
        (d1, fs, Some e) \<Rightarrow> (d1, fs, Some e)
      | (d1, fs, None) \<Rightarrow> emit fs (dec_run d1 ys))"
  by (induction xs arbitrary: d) (auto split: prod.splits option.splits)

section \<open>Reads\<close>

text \<open>
  The decoder as a reader: it stops at its first error, as the connection does, and its outputs are
  the exploded frames.
\<close>

definition feed_run :: "(error, decoder) res \<Rightarrow> bytes \<Rightarrow> (error, decoder) res \<times> frame list" where
  "feed_run s input =
     (case s of
        Inl e \<Rightarrow> (Inl e, [])
      | Inr d \<Rightarrow>
          (case feed d input of
             (d1, fs, None) \<Rightarrow> (Inr d1, explode fs)
           | (d1, fs, Some e) \<Rightarrow> (Inl e, explode fs)))"

definition running :: "(error, decoder) res \<Rightarrow> bool" where
  "running s = (case s of Inl e \<Rightarrow> True | Inr d \<Rightarrow> decoder_wf d \<and> \<not> d_poisoned d)"

lemma feed_eq_dec_run:
  assumes "decoder_wf d" "\<not> d_poisoned d"
  shows "feed_run (Inr d) input =
    (case dec_run d input of (d1, fs, None) \<Rightarrow> (Inr d1, explode fs) | (d1, fs, Some e) \<Rightarrow> (Inl e, explode fs))"
proof -
  have "agree (feed_inner d input) (dec_run d input)"
    using feed_loop_agree [OF assms(1), of "[]" input] by (simp add: feed_inner_def flush_def)
  with assms(2) show ?thesis
    by (auto simp: feed_run_def feed_def agree_def split: prod.splits option.splits)
qed

lemma feed_run_inv: "running s \<Longrightarrow> running (fst (feed_run s xs))"
proof (cases s)
  case (Inr d)
  assume "running s"
  with Inr have d: "decoder_wf d" "\<not> d_poisoned d" by (simp_all add: running_def)
  with Inr dec_run_wf [OF d(1), of xs] show ?thesis
    by (auto simp: feed_eq_dec_run [OF d] running_def split: prod.splits option.splits)
qed (simp add: running_def feed_run_def)

interpretation decoding: incremental feed_run running
proof unfold_locales
  fix s :: "(error, decoder) res" and xs ys :: bytes
  assume s: "running s"
  show "feed_run s [] = (s, [])"
    using s by (cases s) (simp_all add: running_def feed_eq_dec_run feed_run_def [of "Inl _"])
  show inv: "running (fst (feed_run s xs))" by (rule feed_run_inv) (rule s)
  show "feed_run s (xs @ ys) = (fst (feed_run (fst (feed_run s xs)) ys),
      snd (feed_run s xs) @ snd (feed_run (fst (feed_run s xs)) ys))"
  proof (cases s)
    case (Inr d)
    with s have d: "decoder_wf d" "\<not> d_poisoned d" by (simp_all add: running_def)
    obtain d1 fs e where xs: "dec_run d xs = (d1, fs, e)" by (cases "dec_run d xs")
    obtain d2 gs e' where ys: "dec_run d1 ys = (d2, gs, e')" by (cases "dec_run d1 ys")
    show ?thesis
    proof (cases e)
      case None
      with dec_run_wf [OF d(1), of xs d1 fs] xs d have "decoder_wf d1" "\<not> d_poisoned d1" by auto
      with None Inr xs ys show ?thesis
        by (simp add: feed_eq_dec_run d dec_run_append split: option.splits)
    next
      case (Some err)
      with Inr xs show ?thesis by (simp add: feed_eq_dec_run d dec_run_append feed_run_def [of "Inl _"])
    qed
  qed (simp add: feed_run_def)
qed

section \<open>Entering control mode\<close>

text \<open>
  \<open>matches k seen\<close>: of the prefixes of the marker that end the bytes seen so far, the one of length
  \<open>k\<close> is the longest. The automaton of \<open>plain_byte\<close> keeps it although a mismatch falls back only
  to the marker's first byte.
\<close>

definition matches :: "nat \<Rightarrow> bytes \<Rightarrow> bool" where
  "matches k seen \<longleftrightarrow> suffix (take k MARKER) seen \<and>
     (\<forall>j. k < j \<and> j \<le> length MARKER \<longrightarrow> \<not> suffix (take j MARKER) seen)"

definition next_match :: "nat \<Rightarrow> byte \<Rightarrow> nat" where
  "next_match k b = (if get_at MARKER k = Some b then k + 1 else if b = ESC then 1 else 0)"

lemma suffix_take_snoc:
  "j < length m \<Longrightarrow> suffix (take (Suc j) m) (seen @ [b]) \<longleftrightarrow> suffix (take j m) seen \<and> m ! j = b"
  by (auto simp: take_Suc_conv_app_nth snoc_suffix_snoc)

lemma marker_esc: "i < length MARKER \<Longrightarrow> MARKER ! i = ESC \<longleftrightarrow> i = 0"
  by (auto simp: MARKER_def ESC_def less_Suc_eq simp del: MARKER_simps)

lemma marker_no_overlap:
  assumes "0 < j" "j < k" "k \<le> length MARKER"
  shows "\<not> suffix (take j MARKER) (take k MARKER)"
proof
  assume "suffix (take j MARKER) (take k MARKER)"
  then obtain zs where zs: "take k MARKER = zs @ take j MARKER" by (auto simp: suffix_def)
  then have len: "length zs = k - j" using assms by (metis length_append length_take min.absorb2
        add_diff_cancel_right' less_imp_le order_trans)
  have "MARKER ! (k - j) = (zs @ take j MARKER) ! (k - j)"
    using zs assms by (metis diff_less nth_take order_less_trans)
  also have "\<dots> = MARKER ! 0" using len assms by (simp add: nth_append)
  finally have "MARKER ! (k - j) = ESC" using marker_esc [of 0] by simp
  moreover have "k - j < length MARKER" using assms by simp
  ultimately have "k - j = 0" by (simp only: marker_esc)
  with assms show False by simp
qed

lemma next_match_longest:
  assumes "matches k seen" "k < length MARKER"
  shows "matches (next_match k b) (seen @ [b])"
  unfolding matches_def
proof (intro conjI allI impI)
  have k: "suffix (take k MARKER) seen" using assms(1) by (simp add: matches_def)
  show "suffix (take (next_match k b) MARKER) (seen @ [b])"
    using suffix_take_snoc [of k MARKER seen b] suffix_take_snoc [of 0 MARKER seen b] assms(2) k marker_esc [of 0]
    by (auto simp: next_match_def get_at_def split: if_splits)
  fix j assume j: "next_match k b < j \<and> j \<le> length MARKER"
  show "\<not> suffix (take j MARKER) (seen @ [b])"
  proof
    assume suf: "suffix (take j MARKER) (seen @ [b])"
    obtain i where i: "j = Suc i" using j by (cases j) auto
    with j have "i < length MARKER" by simp
    from suf [unfolded i suffix_take_snoc [OF this]]
    have si: "suffix (take i MARKER) seen" "MARKER ! i = b" by blast+
    then have "i \<le> k" using assms(1) i j by (auto simp: matches_def not_less [symmetric])
    moreover have "i \<noteq> k" using i j si(2) assms(2) by (auto simp: next_match_def get_at_def)
    moreover have "i = 0" if "i < k"
    proof (rule ccontr)
      assume "i \<noteq> 0"
      have "suffix (take i MARKER) (take k MARKER)"
        using suffix_length_suffix [OF si(1) k] that by simp
      moreover have "0 < i" "k \<le> length MARKER" using \<open>i \<noteq> 0\<close> assms(2) by linarith+
      ultimately show False using marker_no_overlap that by blast
    qed
    ultimately have "i = 0" by linarith
    then show False using i j si(2) marker_esc [of 0] by (auto simp: next_match_def split: if_splits)
  qed
qed

lemma plain_byte_armed:
  assumes "d_state d = Plain" "d_armed d" "d_matched d < length MARKER"
  shows "plain_byte d b [] =
    (if next_match (d_matched d) b = length MARKER
     then (d\<lparr>d_matched := 0, d_state := Control, d_line := [], d_open := None, d_pane_state := None\<rparr>, [],
           [FPassthrough [b], FEntered])
     else (d\<lparr>d_matched := next_match (d_matched d) b\<rparr>, [b], []))"
  using assms by (auto simp: plain_byte_def next_match_def Let_def flush_def)

lemma next_match_bound: "k < length MARKER \<Longrightarrow> next_match k b \<le> length MARKER"
  by (simp add: next_match_def)

text \<open>Without the whole marker every byte passes and the decoder stays outside control mode.\<close>

lemma dec_run_no_marker:
  assumes "d_state d = Plain" "d_armed d" "d_matched d < length MARKER" "matches (d_matched d) seen"
    and "\<not> sublist MARKER (seen @ xs)"
  shows "\<exists>k < length MARKER. dec_run d xs = (d\<lparr>d_matched := k\<rparr>, singles xs, None) \<and> matches k (seen @ xs)"
  using assms
proof (induction xs arbitrary: d seen)
  case Nil
  then show ?case by (auto intro!: exI [of _ "d_matched d"])
next
  case (Cons b xs)
  let ?k = "next_match (d_matched d) b"
  have m: "matches ?k (seen @ [b])" by (rule next_match_longest) (use Cons.prems in auto)
  have "?k \<noteq> length MARKER"
  proof
    assume "?k = length MARKER"
    with m have "suffix MARKER (seen @ [b])" by (simp add: matches_def)
    then have "sublist MARKER (seen @ b # xs)"
      by (metis append.assoc append_Cons append_Nil sublist_appendI suffix_def)
    with Cons.prems(5) show False by simp
  qed
  then have k: "?k < length MARKER" using next_match_bound [OF Cons.prems(3), of b] by linarith
  obtain k' where "k' < length MARKER" "matches k' (seen @ b # xs)"
    "dec_run (d\<lparr>d_matched := ?k\<rparr>) xs = (d\<lparr>d_matched := k'\<rparr>, singles xs, None)"
    using Cons.IH [of "d\<lparr>d_matched := ?k\<rparr>" "seen @ [b]"] Cons.prems k m by auto
  moreover have "dec_byte d b = (d\<lparr>d_matched := ?k\<rparr>, [FPassthrough [b]], None)"
    using plain_byte_armed [OF Cons.prems(1-3), of b] k Cons.prems(1) by (simp add: dec_byte_def flush_def)
  ultimately show ?case by (auto simp: singles_def)
qed

definition entered :: "decoder \<Rightarrow> decoder" where
  "entered d =
     d\<lparr>d_matched := 0, d_state := Control, d_line := [], d_open := None, d_pane_state := None\<rparr>"

lemma matches_Nil: "matches 0 []"
  by (simp add: matches_def MARKER_def)

lemma dec_run_marker:
  assumes "d_state d = Plain" "d_armed d" "d_matched d = 0"
    and "\<not> sublist MARKER (pre @ butlast MARKER)"
  shows "dec_run d (pre @ MARKER @ rest) = emit (singles (pre @ MARKER) @ [FEntered]) (dec_run (entered d) rest)"
proof -
  let ?m = "butlast MARKER"
  have M: "MARKER = ?m @ [last MARKER]" "last MARKER = CHR ''p''" "length ?m = 6" by (simp_all add: MARKER_def)
  obtain k where k: "k < length MARKER" "matches k (pre @ ?m)"
    and run: "dec_run d (pre @ ?m) = (d\<lparr>d_matched := k\<rparr>, singles (pre @ ?m), None)"
    using dec_run_no_marker [of d "[]" "pre @ ?m"] assms matches_Nil by auto
  have "take 6 MARKER = ?m" by (simp add: MARKER_def)
  then have "suffix (take 6 MARKER) (pre @ ?m)" by (simp add: suffix_def)
  with k(2) have "\<not> (k < 6 \<and> 6 \<le> length MARKER)" unfolding matches_def by blast
  with k(1) have "k = 6" by simp
  then have "next_match k CHR ''p'' = length MARKER" by (simp add: next_match_def MARKER_def get_at_def)
  then have "dec_byte (d\<lparr>d_matched := k\<rparr>) CHR ''p'' =
      (entered d, [FPassthrough [CHR ''p''], FEntered], None)"
    using plain_byte_armed [of "d\<lparr>d_matched := k\<rparr>" "CHR ''p''"] assms k(1)
    by (simp add: dec_byte_def entered_def flush_def)
  then have "dec_run (d\<lparr>d_matched := k\<rparr>) (CHR ''p'' # rest) =
      emit [FPassthrough [CHR ''p''], FEntered] (dec_run (entered d) rest)" by simp
  moreover have "pre @ MARKER @ rest = (pre @ ?m) @ CHR ''p'' # rest" using M by simp
  moreover have "singles (pre @ MARKER) = singles (pre @ ?m) @ [FPassthrough [CHR ''p'']]"
    using M by (metis append.assoc singles_simps(2) singles_def list.map)
  ultimately show ?thesis
    using dec_run_append [of d "pre @ ?m" "CHR ''p'' # rest"] run
    by (simp only: prod.case option.case emit_simps append_assoc append_Cons append_Nil)
qed

section \<open>Reply blocks\<close>

text \<open>A line of the stream: the row and its line break, with the carriage return a terminal adds.\<close>

definition line_bytes :: "bool \<Rightarrow> bytes \<Rightarrow> bytes" where
  "line_bytes cr r = r @ (if cr then [CHR 0x0D, CHR 0x0A] else [CHR 0x0A])"

definition line_fits :: "limits \<Rightarrow> bool \<Rightarrow> bytes \<Rightarrow> bool" where
  "line_fits l cr r \<longleftrightarrow> CHR 0x0A \<notin> set r \<and> (\<not> cr \<longrightarrow> r = [] \<or> last r \<noteq> CHR 0x0D) \<and> length r \<le> max_line l"

lemma dec_run_line_bytes:
  assumes "d_state d = Control" "d_line d = []" "line_fits (d_limits d) cr r"
  shows "dec_run d (line_bytes cr r @ rest) =
    (case take_line d r of
       (d1, fs, Some e) \<Rightarrow> (d1, fs, Some e)
     | (d1, fs, None) \<Rightarrow> emit fs (dec_run d1 rest))"
proof -
  let ?l = "r @ (if cr then [CHR 0x0D] else [])"
  have nl: "\<forall>b\<in>set ?l. b \<noteq> CHR 0x0A" and len: "length (d_line d) + length ?l \<le> max_line (d_limits d) + 1"
    using assms(2,3) by (auto simp: line_fits_def)
  have "line_bytes cr r @ rest = ?l @ CHR 0x0A # rest" by (simp add: line_bytes_def)
  with dec_run_line [OF assms(1) nl len, of "CHR 0x0A # rest"] assms(2)
  have run: "dec_run d (line_bytes cr r @ rest) = dec_run (d\<lparr>d_line := ?l\<rparr>) (CHR 0x0A # rest)" by simp
  have "pop_cr ?l = r"
    using assms(3) by (auto simp: line_fits_def pop_cr_def butlast_append)
  moreover have "d\<lparr>d_line := []\<rparr> = d" using assms(2) by (cases d) simp
  ultimately have "finish_line (d\<lparr>d_line := ?l\<rparr>) = take_line d r"
    using assms(3) by (simp add: finish_line_def Let_def line_fits_def)
  with run assms(1) show ?thesis by (simp add: dec_byte_def)
qed

definition rows_bytes :: "bytes list \<Rightarrow> nat" where
  "rows_bytes rs = sum_list (map (\<lambda>r. length r + 1) rs)"

text \<open>
  The rows a block takes without ending: as many as promised, whatever they hold, or any number
  of lines that are not its terminator.
\<close>

definition takes_rows :: "limits \<Rightarrow> open_block \<Rightarrow> bytes list \<Rightarrow> bool" where
  "takes_rows l ob rs \<longleftrightarrow>
     (case o_rows ob of
        Some n \<Rightarrow> length (o_lines ob) + length rs \<le> n
      | None \<Rightarrow> (\<forall>r\<in>set rs. terminator ob r = None)) \<and>
     length (o_lines ob) + length rs \<le> max_block_lines l \<and>
     o_bytes ob + rows_bytes rs \<le> max_block_bytes l"

definition add_rows :: "open_block \<Rightarrow> bytes list \<Rightarrow> open_block" where
  "add_rows ob rs = ob\<lparr>o_lines := o_lines ob @ rs, o_bytes := o_bytes ob + rows_bytes rs\<rparr>"

lemma terminator_add_rows [simp]: "terminator (add_rows ob rs) line = terminator ob line"
proof -
  have "o_header (add_rows ob rs) = o_header ob" by (simp add: add_rows_def)
  then show ?thesis unfolding terminator_def by (rule ssubst) (rule refl)
qed

lemma takes_rows_Cons:
  "takes_rows l ob (r # rs) \<longleftrightarrow> takes_rows l ob [r] \<and> takes_rows l (add_rows ob [r]) rs"
  unfolding takes_rows_def by (auto simp: add_rows_def rows_bytes_def terminator_def split: option.splits)

lemma block_line_row:
  "d_open d = Some ob \<Longrightarrow> takes_rows (d_limits d) ob [r] \<Longrightarrow>
    block_line d r = (d\<lparr>d_open := Some (add_rows ob [r])\<rparr>, [], None)"
  by (auto simp: block_line_def takes_rows_def add_rows_def rows_bytes_def Let_def split: option.splits)

lemma dec_run_rows:
  assumes "d_state d = Control" "d_line d = []" "d_open d = Some ob"
    and "\<forall>r\<in>set rs. line_fits (d_limits d) cr r" "takes_rows (d_limits d) ob rs"
  shows "dec_run d (concat (map (line_bytes cr) rs) @ rest) =
    dec_run (d\<lparr>d_open := Some (add_rows ob rs)\<rparr>) rest"
  using assms
proof (induction rs arbitrary: d ob)
  case Nil
  then have "d\<lparr>d_open := Some (add_rows ob [])\<rparr> = d" by (cases d) (simp add: add_rows_def rows_bytes_def)
  then show ?case by simp
next
  case (Cons r rs)
  let ?d = "d\<lparr>d_open := Some (add_rows ob [r])\<rparr>"
  from Cons.prems(5) have r: "takes_rows (d_limits d) ob [r]" and rs: "takes_rows (d_limits ?d) (add_rows ob [r]) rs"
    unfolding takes_rows_Cons [of _ _ r rs] by simp_all
  have "take_line d r = (?d, [], None)"
    using block_line_row [OF Cons.prems(3) r] Cons.prems(3) by (simp add: take_line_def)
  then have "dec_run d (concat (map (line_bytes cr) (r # rs)) @ rest) =
      dec_run ?d (concat (map (line_bytes cr) rs) @ rest)"
    using dec_run_line_bytes [OF Cons.prems(1,2), of cr r] Cons.prems(4) by simp
  also have "\<dots> = dec_run (?d\<lparr>d_open := Some (add_rows (add_rows ob [r]) rs)\<rparr>) rest"
    by (rule Cons.IH) (use Cons.prems rs in auto)
  also have "add_rows (add_rows ob [r]) rs = add_rows ob (r # rs)"
    by (simp add: add_rows_def rows_bytes_def)
  finally show ?case by simp
qed

definition end_word :: "bool \<Rightarrow> bytes" where
  "end_word good = (if good then ''%end '' else ''%error '')"

lemma terminator_end: "terminator ob (end_word good @ o_header ob) = Some good"
  by (cases good) (simp_all add: terminator_def end_word_def)

lemma terminator_SomeD: "terminator ob line = Some good \<Longrightarrow> line = end_word good @ o_header ob"
  by (auto simp: terminator_def end_word_def strip_prefix_Some_iff split: option.splits if_splits)

definition kept_state :: "bool \<Rightarrow> bool \<Rightarrow> bytes list \<Rightarrow> pane_state option \<Rightarrow> (error, pane_state option) res" where
  "kept_state keep good rs ps =
     (if \<not> keep then Ok ps else if good then rbind (parse_pane_state rs) (\<lambda>s. Ok (Some s)) else Ok None)"

lemma block_line_end:
  assumes "d_open d = Some ob" "o_rows ob = None \<or> o_rows ob = Some (length (o_lines ob))"
    and "kept_state (o_pane_state ob) good (o_lines ob) (d_pane_state d) = Inr ps"
  shows "block_line d (end_word good @ o_header ob) =
    (d\<lparr>d_open := None, d_pane_state := ps\<rparr>, [FBlock (close_block ob good)], None)"
proof -
  have "d\<lparr>d_open := None, d_pane_state := d_pane_state d\<rparr> = d\<lparr>d_open := None\<rparr>" by (cases d) simp
  with assms terminator_end [of ob good] show ?thesis
    by (auto simp: block_line_def kept_state_def Let_def res_simps split: if_splits)
qed

lemma dec_run_reply:
  assumes st: "d_state d = Control" "d_line d = []" "d_open d = None" and q: "d_expect d = e # es"
    and hdr: "parse_header hdr = Some (tm, num, flags)" "flags mod 2 = 1"
    and pr: "promised e (d_pane_state d) = Inr (rows, keep)"
    and fits: "line_fits (d_limits d) cr (''%begin '' @ hdr)" "\<forall>r\<in>set rs. line_fits (d_limits d) cr r"
    and ob: "ob = \<lparr>o_header = hdr, o_time = tm, o_number = num, o_solicited = True, o_rows = rows,
        o_pane_state = keep, o_lines = [], o_bytes = 0\<rparr>"
    and rs: "takes_rows (d_limits d) ob rs" "rows = None \<or> rows = Some (length rs)"
    and ps: "kept_state keep good rs None = Inr ps"
  shows "dec_run d (line_bytes cr (''%begin '' @ hdr) @ concat (map (line_bytes cr) rs) @
      line_bytes cr (end_word good @ hdr) @ rest) =
    emit [FBlock \<lparr>b_time = tm, b_number = num, b_solicited = True, b_ok = good, b_lines = rs\<rparr>]
      (dec_run (d\<lparr>d_expect := es, d_pane_state := ps\<rparr>) rest)"
proof -
  let ?d1 = "d\<lparr>d_expect := es, d_pane_state := None, d_open := Some ob\<rparr>"
  let ?ob = "add_rows ob rs"
  let ?d2 = "?d1\<lparr>d_open := Some ?ob\<rparr>"
  have "take_line d (''%begin '' @ hdr) = (?d1, [], None)"
    using st q hdr pr ob by (simp add: take_line_def begin_block_def)
  with dec_run_line_bytes [OF st(1,2) fits(1)]
  have 1: "dec_run d (line_bytes cr (''%begin '' @ hdr) @ tl) = dec_run ?d1 tl" for tl by simp
  have 2: "dec_run ?d1 (concat (map (line_bytes cr) rs) @ tl) = dec_run ?d2 tl" for tl
    using dec_run_rows [of ?d1 ob rs cr tl] st fits(2) rs(1) by simp
  have "line_fits (d_limits ?d2) cr (end_word good @ hdr)"
    using fits(1) by (cases "hdr = []") (auto simp: line_fits_def end_word_def)
  moreover have "block_line ?d2 (end_word good @ hdr) =
      (?d2\<lparr>d_open := None, d_pane_state := ps\<rparr>, [FBlock (close_block ?ob good)], None)"
    using block_line_end [of ?d2 ?ob good ps] rs(2) ps by (simp add: ob add_rows_def)
  moreover have "d\<lparr>d_expect := es, d_open := None, d_pane_state := ps\<rparr> = d\<lparr>d_expect := es, d_pane_state := ps\<rparr>"
    using st(3) by (cases d) simp
  ultimately have "dec_run ?d2 (line_bytes cr (end_word good @ hdr) @ rest) =
      emit [FBlock (close_block ?ob good)] (dec_run (d\<lparr>d_expect := es, d_pane_state := ps\<rparr>) rest)"
    using dec_run_line_bytes [of ?d2 cr "end_word good @ hdr" rest] st by (simp add: take_line_def)
  with 1 2 show ?thesis by (simp add: close_block_def add_rows_def ob)
qed

lemma block_line_NoneE:
  assumes "block_line d line = (d1, fs, None)" "d_open d = Some ob"
  obtains (row) "d1 = d\<lparr>d_open := Some (add_rows ob [line])\<rparr>" "fs = []"
    | (fin) good ps where "terminator ob line = Some good"
      "\<forall>n. o_rows ob = Some n \<longrightarrow> length (o_lines ob) = n"
      "kept_state (o_pane_state ob) good (o_lines ob) (d_pane_state d) = Inr ps"
      "d1 = d\<lparr>d_open := None, d_pane_state := ps\<rparr>" "fs = [FBlock (close_block ob good)]"
proof -
  have same: "d\<lparr>d_open := None, d_pane_state := d_pane_state d\<rparr> = d\<lparr>d_open := None\<rparr>" by (cases d) simp
  let ?t = "if (case o_rows ob of None \<Rightarrow> True | Some n \<Rightarrow> n = length (o_lines ob)) then terminator ob line else None"
  show thesis
  proof (cases ?t)
    case None
    with assms row show ?thesis
      by (auto simp: block_line_def add_rows_def rows_bytes_def Let_def split: if_split_asm)
  next
    case (Some good)
    then have "terminator ob line = Some good" "\<forall>n. o_rows ob = Some n \<longrightarrow> length (o_lines ob) = n"
      by (auto split: if_splits)
    moreover from Some assms same have
      "\<exists>ps. kept_state (o_pane_state ob) good (o_lines ob) (d_pane_state d) = Inr ps \<and>
        d1 = d\<lparr>d_open := None, d_pane_state := ps\<rparr> \<and> fs = [FBlock (close_block ob good)]"
      by (auto simp: block_line_def kept_state_def Let_def res_simps split: if_split_asm sum.split_asm)
    ultimately show ?thesis using fin by blast
  qed
qed

lemma dec_byte_limits: "dec_byte d b = (d1, fs, e) \<Longrightarrow> d_limits d1 = d_limits d"
proof -
  have pb: "plain_byte d b p = (d1, q, fs) \<Longrightarrow> d_limits d1 = d_limits d" for d b p d1 q fs
    by (auto simp: plain_byte_def Let_def split: if_splits)
  have aw: "await_byte d esc b p = (d1, q, fs) \<Longrightarrow> d_limits d1 = d_limits d" for d esc b p d1 q fs
    by (auto simp: await_byte_def Let_def split: if_splits prod.splits dest!: pb)
  have bl: "block_line d l = (d1, fs, e) \<Longrightarrow> d_limits d1 = d_limits d" for d l d1 fs e
    by (auto simp: block_line_def Let_def split: if_splits option.splits sum.splits)
  have bb: "begin_block d l = (d1, fs, e) \<Longrightarrow> d_limits d1 = d_limits d" for d l d1 fs e
    by (auto simp: begin_block_def Let_def split: if_splits option.splits sum.splits list.splits)
  have "take_line d l = (d1, fs, e) \<Longrightarrow> d_limits d1 = d_limits d" for d l d1 fs e
    unfolding take_line_def by (auto split: if_splits option.splits dest: bl bb)
  then have "finish_line d = (d1, fs, e) \<Longrightarrow> d_limits d1 = d_limits d" for d d1 fs e
    unfolding finish_line_def by (fastforce simp: Let_def split: if_splits)
  then show "dec_byte d b = (d1, fs, e) \<Longrightarrow> d_limits d1 = d_limits d"
    by (auto simp: dec_byte_def push_line_bytes_def split: state.splits if_splits prod.splits sum.splits dest: pb aw)
qed

lemma dec_run_limits: "dec_run d bs = (d1, fs, e) \<Longrightarrow> d_limits d1 = d_limits d"
proof (induction bs arbitrary: d fs)
  case (Cons b bs)
  obtain d2 gs r where b: "dec_byte d b = (d2, gs, r)" by (cases "dec_byte d b")
  obtain d3 hs r3 where bs: "dec_run d2 bs = (d3, hs, r3)" by (cases "dec_run d2 bs")
  show ?case
  proof (cases r)
    case None
    with Cons.prems b bs have "dec_run d2 bs = (d1, hs, e)" by simp
    from Cons.IH [OF this] dec_byte_limits [OF b] show ?thesis by (rule trans)
  next
    case (Some err)
    with Cons.prems b dec_byte_limits [OF b] show ?thesis by simp
  qed
qed simp

section \<open>Properties\<close>

text \<open>
  C3. The decoder does not depend on how the stream is cut into reads: reads with the same bytes give
  the same frames (passthrough compared byte by byte), the same error and the same decoder.
\<close>

theorem decoder_reads_irrelevant:
  assumes "decoder_wf d" "\<not> d_poisoned d" "concat cs = concat ds"
  shows "run_reads feed_run (Inr d) cs = run_reads feed_run (Inr d) ds"
  using decoding.reads_irrelevant [of "Inr d" cs ds] assms by (simp add: running_def)

theorem decoder_reads_irrelevant_witness:
  "run_reads feed_run (Inr (in_control default_limits)) [''%ex'', ''it'', [CHR 0x0A]] =
    run_reads feed_run (Inr (in_control default_limits)) [''%exit'' @ [CHR 0x0A]]"
  by (rule decoder_reads_irrelevant [OF new_decoder_wf(2)]) (simp_all add: in_control_def new_decoder_def)

text \<open>
  C4. The bulk loop of \<open>feed_inner\<close>, which takes runs of plain bytes and whole lines at once, is
  the decoder that takes one byte at a time.
\<close>

theorem feed_is_bytewise:
  assumes "decoder_wf d" "\<not> d_poisoned d"
  shows "feed_run (Inr d) input =
    (case dec_run d input of (d1, fs, None) \<Rightarrow> (Inr d1, explode fs) | (d1, fs, Some e) \<Rightarrow> (Inl e, explode fs))"
  by (rule feed_eq_dec_run [OF assms])

theorem feed_is_bytewise_witness:
  "feed_run (Inr (new_decoder default_limits)) ''ab'' =
    (Inr (new_decoder default_limits), [FPassthrough ''a'', FPassthrough ''b''])"
  using feed_is_bytewise [OF new_decoder_wf(1), of default_limits "''ab''"] dec_run_unarmed [of "new_decoder default_limits" "''ab''"]
  by (simp add: new_decoder_def explode_def singles_def)

text \<open>
  Unarmed, the decoder passes every byte on unchanged and never enters control mode, whatever a
  program prints.
\<close>

lemma unarmed_passes_everything:
  assumes "decoder_wf d" "\<not> d_poisoned d" "d_state d = Plain" "\<not> d_armed d"
  shows "feed d input = (d, if input = [] then [] else [FPassthrough input], None)"
  using assms feed_loop_unarmed [of d "[]" input]
  by (simp add: feed_def feed_inner_def decoder_wf_def flush_def)

theorem unarmed_passes_everything_witness:
  "feed (new_decoder default_limits) (MARKER @ ''%exit'') =
    (new_decoder default_limits, [FPassthrough (MARKER @ ''%exit'')], None)"
  using unarmed_passes_everything [OF new_decoder_wf(1), of default_limits "MARKER @ ''%exit''"]
  by (simp add: new_decoder_def)

text \<open>
  C14. Armed, the decoder enters control mode exactly at the end of the first occurrence of the marker:
  the bytes up to it pass, \<open>Entered\<close> follows, and what comes next is read as control lines.
\<close>

theorem marker_enters:
  assumes "decoder_wf d" "\<not> d_poisoned d" "d_state d = Plain" "d_armed d" "d_matched d = 0"
    and "\<not> sublist MARKER (pre @ butlast MARKER)"
  shows "feed_run (Inr d) (pre @ MARKER @ rest) =
    (case feed_run (Inr (entered d)) rest of (s, fs) \<Rightarrow> (s, singles (pre @ MARKER) @ FEntered # fs))"
proof -
  have "decoder_wf (entered d)" "\<not> d_poisoned (entered d)"
    using assms(1,2) by (auto simp: decoder_wf_def entered_def)
  from feed_eq_dec_run [OF this] feed_eq_dec_run [OF assms(1,2)] dec_run_marker [OF assms(3-6), of rest]
  show ?thesis by (auto simp: emit_def split: prod.splits option.splits)
qed

theorem marker_enters_witness:
  "feed_run (Inr (arm (new_decoder default_limits) True)) (''x'' @ MARKER @ []) =
    (case feed_run (Inr (entered (arm (new_decoder default_limits) True))) [] of
       (s, fs) \<Rightarrow> (s, singles (''x'' @ MARKER) @ FEntered # fs))"
  by (rule marker_enters [OF arm_wf [OF new_decoder_wf(1)]])
    (simp_all add: arm_def new_decoder_def MARKER_def sublist_code)

text \<open>
  Without the marker, an armed decoder passes every byte and stays outside control mode.
\<close>

lemma no_marker_passes:
  assumes "decoder_wf d" "\<not> d_poisoned d" "d_state d = Plain" "d_armed d" "d_matched d = 0"
    and "\<not> sublist MARKER xs"
  shows "\<exists>k < length MARKER. feed_run (Inr d) xs = (Inr (d\<lparr>d_matched := k\<rparr>), singles xs)"
proof -
  obtain k where "k < length MARKER" "dec_run d xs = (d\<lparr>d_matched := k\<rparr>, singles xs, None)"
    using dec_run_no_marker [of d "[]" xs] assms(3-6) matches_Nil by auto
  with feed_eq_dec_run [OF assms(1,2), of xs] show ?thesis by auto
qed

lemma no_marker_passes_witness:
  "\<exists>k < length MARKER. feed_run (Inr (arm (new_decoder default_limits) True)) [ESC, CHR ''P'', ESC] =
    (Inr ((arm (new_decoder default_limits) True)\<lparr>d_matched := k\<rparr>), singles [ESC, CHR ''P'', ESC])"
  by (rule no_marker_passes [OF arm_wf [OF new_decoder_wf(1)]])
    (simp_all add: arm_def new_decoder_def MARKER_def ESC_def sublist_code)

text \<open>
  C6. Inside a reply block nothing is read as a notification, and a block ends only at \<open>%end\<close> or
  \<open>%error\<close> with its own header and, when a row count was promised, only after exactly that many
  rows: every other line becomes a row or ends the stream with an error.
\<close>

theorem open_block_integrity:
  assumes "d_open d = Some ob" "take_line d line = (d1, fs, None)"
  shows "(fs = [] \<and> d_open d1 = Some (add_rows ob [line])) \<or>
    (\<exists>good. line = end_word good @ o_header ob \<and> fs = [FBlock (close_block ob good)] \<and> d_open d1 = None \<and>
      o_rows ob \<in> {None, Some (length (o_lines ob))})"
proof -
  from assms have "block_line d line = (d1, fs, None)" by (simp add: take_line_def)
  then show ?thesis
    using assms(1)
  proof (cases rule: block_line_NoneE)
    case row
    then show ?thesis by simp
  next
    case (fin good ps)
    then show ?thesis by (cases "o_rows ob") (auto dest: terminator_SomeD)
  qed
qed

definition demo_open :: open_block where
  "demo_open = \<lparr>o_header = ''1 2 1'', o_time = 1, o_number = 2, o_solicited = True, o_rows = Some 1,
     o_pane_state = False, o_lines = [], o_bytes = 0\<rparr>"

theorem open_block_integrity_witness:
  "\<exists>d1 fs. take_line ((in_control default_limits)\<lparr>d_open := Some demo_open\<rparr>) ''%end 1 2 1'' = (d1, fs, None) \<and>
    fs = [] \<and> d_open d1 = Some (add_rows demo_open [''%end 1 2 1''])"
proof -
  let ?d = "(in_control default_limits)\<lparr>d_open := Some demo_open\<rparr>"
  have t: "take_line ?d ''%end 1 2 1'' = (?d\<lparr>d_open := Some (add_rows demo_open [''%end 1 2 1''])\<rparr>, [], None)"
    using block_line_row [of ?d demo_open "''%end 1 2 1''"]
    by (simp add: take_line_def takes_rows_def demo_open_def rows_bytes_def in_control_def new_decoder_def
        default_limits_def)
  from open_block_integrity [OF _ t, of demo_open] t show ?thesis by auto
qed

text \<open>
  C15. However long and hostile the stream, what a running decoder holds stays within its limits: the
  line under way, the rows of the open block and their bytes.
\<close>

theorem decoder_memory_bounded:
  "case fst (run_reads feed_run (Inr (arm (new_decoder l) armed)) cs) of
     Inl e \<Rightarrow> True
   | Inr d \<Rightarrow> d_limits d = l \<and> length (d_line d) \<le> max_line l + 1 \<and>
       (case d_open d of
          None \<Rightarrow> True
        | Some ob \<Rightarrow> length (o_lines ob) \<le> max_block_lines l \<and>
            sum_list (map (\<lambda>r. length r + 1) (o_lines ob)) \<le> max_block_bytes l)"
proof -
  let ?d = "arm (new_decoder l) armed"
  have d: "decoder_wf ?d" "\<not> d_poisoned ?d" "d_limits ?d = l"
    using arm_wf [OF new_decoder_wf(1)] by (simp_all add: arm_def new_decoder_def Let_def)
  then have run: "running (Inr ?d)" by (simp add: running_def)
  show ?thesis
  proof (cases "fst (run_reads feed_run (Inr ?d) cs)")
    case (Inr d1)
    with decoding.run_reads_inv [OF run, of cs] have wf: "decoder_wf d1" by (simp add: running_def)
    have "d_limits d1 = l"
      using Inr decoding.run_reads_concat [OF run, of cs] feed_eq_dec_run [OF d(1,2), of "concat cs"] d(3)
      by (auto split: prod.splits option.splits dest: dec_run_limits)
    with wf Inr show ?thesis by (auto simp: decoder_wf_def open_wf_def split: option.splits)
  qed simp
qed

end
