(* ===== verification/Tmux_Message.thy ===== *)
theory Tmux_Message
  imports Tmux_Ids Tmux_Escape
begin

text \<open>
  Model of \<^verbatim>\<open>crates/chan-tmux/src/message.rs\<close>: the notifications tmux sends outside a reply
  block. \<open>parse_message\<close> checks and splits the line; \<open>parse_keyword\<close> is the match on its keyword.
\<close>

datatype message =
    Output pane_id bytes
  | ExtendedOutput pane_id nat bytes
  | WindowAdd window_id
  | WindowClose window_id
  | WindowRenamed window_id bytes
  | UnlinkedWindowAdd window_id
  | UnlinkedWindowClose window_id
  | UnlinkedWindowRenamed window_id bytes
  | LayoutChange window_id bytes bytes bytes
  | WindowPaneChanged window_id pane_id
  | SessionChanged session_id bytes
  | SessionsChanged
  | SessionRenamed bytes
  | SessionWindowChanged session_id window_id
  | ClientSessionChanged bytes session_id bytes
  | ClientDetached bytes
  | Pause pane_id
  | Continue pane_id
  | PaneModeChanged pane_id
  | Exit "bytes option"
  | Other bytes

section \<open>Field readers\<close>

definition bad :: "bytes \<Rightarrow> error" where
  "bad what = Malformed what"

definition split_once :: "bytes \<Rightarrow> byte \<Rightarrow> bytes \<times> bytes option" where
  "split_once line sep =
     (case position (\<lambda>b. b = sep) line of
        Some i \<Rightarrow> (take i line, Some (drop (i + 1) line))
      | None \<Rightarrow> (line, None))"

definition msg_text :: "bytes \<Rightarrow> (error, bytes) res" where
  "msg_text bs = (if utf8_valid bs then Ok bs else Err (Malformed ''not utf-8''))"

definition pane_field :: "bytes \<Rightarrow> bytes \<Rightarrow> (error, pane_id) res" where
  "pane_field bs what = rbind (msg_text bs) (\<lambda>t. ok_or (parse_pane_id t) (bad what))"

definition only_window :: "bytes option \<Rightarrow> bytes \<Rightarrow> (error, window_id) res" where
  "only_window r what =
     rbind (ok_or r (bad what)) (\<lambda>bs.
     rbind (msg_text bs) (\<lambda>t. ok_or (parse_window_id t) (bad what)))"

definition or_empty :: "bytes option \<Rightarrow> bytes" where
  "or_empty b = (case b of Some x \<Rightarrow> x | None \<Rightarrow> [])"

definition window_and_text :: "bytes option \<Rightarrow> bytes \<Rightarrow> (error, window_id \<times> bytes) res" where
  "window_and_text r what =
     rbind (ok_or r (bad what)) (\<lambda>bs.
       let (window, name) = split_once bs CHR '' '' in
       rbind (msg_text window) (\<lambda>t.
       rbind (ok_or (parse_window_id t) (bad what)) (\<lambda>w.
         Ok (w, from_utf8_lossy (or_empty name)))))"

definition session_and_text :: "bytes option \<Rightarrow> bytes \<Rightarrow> (error, session_id \<times> bytes) res" where
  "session_and_text r what =
     rbind (ok_or r (bad what)) (\<lambda>bs.
       let (session, name) = split_once bs CHR '' '' in
       rbind (msg_text session) (\<lambda>t.
       rbind (ok_or (parse_session_id t) (bad what)) (\<lambda>s.
         Ok (s, from_utf8_lossy (or_empty name)))))"

text \<open>\<open>filter(|l| !l.is_empty())\<close> on an optional piece.\<close>

definition non_empty :: "bytes option \<Rightarrow> bytes option" where
  "non_empty b = (case b of Some x \<Rightarrow> if x = [] then None else Some x | None \<Rightarrow> None)"

definition layout_change :: "bytes \<Rightarrow> (error, message) res" where
  "layout_change r =
     rbind (msg_text r) (\<lambda>t.
       let it = split_on CHR '' '' t in
       rbind (ok_or (Option.bind (get_at it 0) parse_window_id) (bad ''layout-change'')) (\<lambda>window.
       rbind (ok_or (non_empty (get_at it 1)) (bad ''layout-change'')) (\<lambda>layout.
         let visible_layout = (case non_empty (get_at it 2) of Some v \<Rightarrow> v | None \<Rightarrow> layout);
             flags = or_empty (get_at it 3)
         in Ok (LayoutChange window layout visible_layout flags))))"

definition extended_output :: "bytes \<Rightarrow> (error, message) res" where
  "extended_output r =
     (let (pane, tail) = split_once r CHR '' '' in
      rbind (pane_field pane ''extended-output'') (\<lambda>p.
      rbind (ok_or tail (bad ''extended-output'')) (\<lambda>tail.
      rbind (ok_or (find_sub '' :'' tail) (bad ''extended-output'')) (\<lambda>colon.
      rbind (msg_text (take colon tail)) (\<lambda>header.
      rbind (ok_or (Option.bind (get_at (split_on CHR '' '' header) 0) parse_u64)
                   (bad ''extended-output'')) (\<lambda>latency_ms.
        Ok (ExtendedOutput p latency_ms (unescape_output (drop (colon + 3) tail)))))))))"

section \<open>Notifications\<close>

definition parse_keyword :: "bytes \<Rightarrow> bytes option \<Rightarrow> (error, message) res" where
  "parse_keyword keyword r =
     (if keyword = ''%output'' then
        rbind (ok_or r (bad ''output'')) (\<lambda>bs.
          let (pane, data) = split_once bs CHR '' '' in
          rbind (pane_field pane ''output'') (\<lambda>p.
            Ok (Output p (unescape_output (or_empty data)))))
      else if keyword = ''%extended-output'' then
        rbind (ok_or r (bad ''extended-output'')) extended_output
      else if keyword = ''%window-add'' then
        rbind (only_window r ''window-add'') (\<lambda>w. Ok (WindowAdd w))
      else if keyword = ''%window-close'' then
        rbind (only_window r ''window-close'') (\<lambda>w. Ok (WindowClose w))
      else if keyword = ''%unlinked-window-add'' then
        rbind (only_window r ''unlinked-window-add'') (\<lambda>w. Ok (UnlinkedWindowAdd w))
      else if keyword = ''%unlinked-window-close'' then
        rbind (only_window r ''unlinked-window-close'') (\<lambda>w. Ok (UnlinkedWindowClose w))
      else if keyword = ''%window-renamed'' then
        rbind (window_and_text r ''window-renamed'') (\<lambda>(w, name). Ok (WindowRenamed w name))
      else if keyword = ''%unlinked-window-renamed'' then
        rbind (window_and_text r ''unlinked-window-renamed'')
          (\<lambda>(w, name). Ok (UnlinkedWindowRenamed w name))
      else if keyword = ''%layout-change'' then
        rbind (ok_or r (bad ''layout-change'')) layout_change
      else if keyword = ''%window-pane-changed'' then
        rbind (ok_or r (bad ''window-pane-changed'')) (\<lambda>bs.
        rbind (msg_text bs) (\<lambda>t.
          let it = split_on CHR '' '' t;
              window = Option.bind (get_at it 0) parse_window_id;
              pane = Option.bind (get_at it 1) parse_pane_id
          in case (window, pane, get_at it 2) of
               (Some w, Some p, None) \<Rightarrow> Ok (WindowPaneChanged w p)
             | _ \<Rightarrow> Err (bad ''window-pane-changed'')))
      else if keyword = ''%session-changed'' then
        rbind (session_and_text r ''session-changed'') (\<lambda>(s, name). Ok (SessionChanged s name))
      else if keyword = ''%sessions-changed'' then Ok SessionsChanged
      else if keyword = ''%session-renamed'' then
        rbind (msg_text (or_empty r)) (\<lambda>t. Ok (SessionRenamed t))
      else if keyword = ''%session-window-changed'' then
        rbind (ok_or r (bad ''session-window-changed'')) (\<lambda>bs.
        rbind (msg_text bs) (\<lambda>t.
          let it = split_on CHR '' '' t;
              session = Option.bind (get_at it 0) parse_session_id;
              window = Option.bind (get_at it 1) parse_window_id
          in case (session, window, get_at it 2) of
               (Some s, Some w, None) \<Rightarrow> Ok (SessionWindowChanged s w)
             | _ \<Rightarrow> Err (bad ''session-window-changed'')))
      else if keyword = ''%client-session-changed'' then
        rbind (ok_or r (bad ''client-session-changed'')) (\<lambda>bs.
        rbind (msg_text bs) (\<lambda>t.
          let it = splitn 3 CHR '' '' t;
              client = non_empty (get_at it 0);
              session = Option.bind (get_at it 1) parse_session_id
          in case (client, session) of
               (Some c, Some s) \<Rightarrow> Ok (ClientSessionChanged c s (or_empty (get_at it 2)))
             | _ \<Rightarrow> Err (bad ''client-session-changed'')))
      else if keyword = ''%client-detached'' then
        rbind (msg_text (or_empty r)) (\<lambda>t. Ok (ClientDetached t))
      else if keyword = ''%pause'' then
        rbind (ok_or r (bad ''pause'')) (\<lambda>bs. rbind (pane_field bs ''pause'') (\<lambda>p. Ok (Pause p)))
      else if keyword = ''%continue'' then
        rbind (ok_or r (bad ''continue'')) (\<lambda>bs.
          rbind (pane_field bs ''continue'') (\<lambda>p. Ok (Continue p)))
      else if keyword = ''%pane-mode-changed'' then
        rbind (ok_or r (bad ''pane-mode-changed'')) (\<lambda>bs.
          rbind (pane_field bs ''pane-mode-changed'') (\<lambda>p. Ok (PaneModeChanged p)))
      else if keyword = ''%exit'' then
        Ok (Exit (map_option from_utf8_lossy (non_empty r)))
      else Ok (Other keyword))"

definition parse_message :: "bytes \<Rightarrow> (error, message) res" where
  "parse_message line =
     (if get_at line 0 \<noteq> Some CHR ''%'' then Err (Malformed ''not a notification'')
      else let (keyword, r) = split_once line CHR '' '' in
           if utf8_valid keyword then parse_keyword keyword r else Err (Malformed ''keyword''))"

section \<open>Reading fields back\<close>

lemma split_once_append: "sep \<notin> set a \<Longrightarrow> split_once (a @ sep # b) sep = (a, Some b)"
proof -
  assume "sep \<notin> set a"
  then have "position (\<lambda>b. b = sep) (a @ sep # b) = Some (length a)"
    by (intro position_append) auto
  then show ?thesis by (simp add: split_once_def)
qed

lemma split_once_single: "sep \<notin> set a \<Longrightarrow> split_once a sep = (a, None)"
  by (auto simp: split_once_def position_None_iff split: option.splits)

lemma split_once_head: "split_once line sep = (a, b) \<Longrightarrow> sep \<notin> set a"
  by (auto simp: split_once_def position_None_iff split: option.splits dest!: position_SomeD)

lemma msg_text_ascii [simp]: "utf8_valid bs \<Longrightarrow> msg_text bs = Inr bs"
  by (simp add: msg_text_def)

lemma or_empty_simps [simp]: "or_empty None = []" "or_empty (Some x) = x"
  by (simp_all add: or_empty_def)

lemma non_empty_simps [simp]:
  "non_empty None = None" "non_empty (Some []) = None" "x \<noteq> [] \<Longrightarrow> non_empty (Some x) = Some x"
  by (simp_all add: non_empty_def)

lemma pane_field_disp:
  "pane_num p \<le> u32_max \<Longrightarrow> pane_field (show_pane_id p) what = Inr p"
  by (simp add: pane_field_def pane_ids.disp_utf8 pane_ids.parse_disp)

lemma only_window_disp:
  "window_num w \<le> u32_max \<Longrightarrow> only_window (Some (show_window_id w)) what = Inr w"
  by (simp add: only_window_def window_ids.disp_utf8 window_ids.parse_disp)

lemma window_and_text_disp:
  "window_num w \<le> u32_max \<Longrightarrow> utf8_valid name \<Longrightarrow>
    window_and_text (Some (show_window_id w @ CHR '' '' # name)) what = Inr (w, name)"
  by (simp add: window_and_text_def split_once_append window_ids.disp_no_space window_ids.disp_utf8
      window_ids.parse_disp from_utf8_lossy_valid)

lemma session_and_text_disp:
  "session_num s \<le> u32_max \<Longrightarrow> utf8_valid name \<Longrightarrow>
    session_and_text (Some (show_session_id s @ CHR '' '' # name)) what = Inr (s, name)"
  by (simp add: session_and_text_def split_once_append session_ids.disp_no_space session_ids.disp_utf8
      session_ids.parse_disp from_utf8_lossy_valid)

section \<open>The messages the parser can give\<close>

text \<open>
  A line that is read as a given message: its keyword and its fields, single spaces between them. Where
  the parser takes no field, the arguments \<open>args\<close> follow the keyword. What else tmux may print for a
  message is not described here.
\<close>

definition msg_line :: "bytes \<Rightarrow> bytes \<Rightarrow> bytes" where
  "msg_line keyword r = keyword @ CHR '' '' # r"

definition with_args :: "bytes \<Rightarrow> bytes option \<Rightarrow> bytes" where
  "with_args keyword args = keyword @ (case args of None \<Rightarrow> [] | Some a \<Rightarrow> CHR '' '' # a)"

fun message_line :: "bytes option \<Rightarrow> message \<Rightarrow> bytes" where
  "message_line args (Output p data) = msg_line ''%output'' (show_pane_id p @ CHR '' '' # escape_output data)"
| "message_line args (ExtendedOutput p ms data) =
     msg_line ''%extended-output'' (show_pane_id p @ CHR '' '' # show_nat ms @ '' : '' @ escape_output data)"
| "message_line args (WindowAdd w) = msg_line ''%window-add'' (show_window_id w)"
| "message_line args (WindowClose w) = msg_line ''%window-close'' (show_window_id w)"
| "message_line args (WindowRenamed w n) = msg_line ''%window-renamed'' (show_window_id w @ CHR '' '' # n)"
| "message_line args (UnlinkedWindowAdd w) = msg_line ''%unlinked-window-add'' (show_window_id w)"
| "message_line args (UnlinkedWindowClose w) = msg_line ''%unlinked-window-close'' (show_window_id w)"
| "message_line args (UnlinkedWindowRenamed w n) =
     msg_line ''%unlinked-window-renamed'' (show_window_id w @ CHR '' '' # n)"
| "message_line args (LayoutChange w l v f) =
     msg_line ''%layout-change'' (show_window_id w @ CHR '' '' # l @ CHR '' '' # v @ CHR '' '' # f)"
| "message_line args (WindowPaneChanged w p) =
     msg_line ''%window-pane-changed'' (show_window_id w @ CHR '' '' # show_pane_id p)"
| "message_line args (SessionChanged s n) = msg_line ''%session-changed'' (show_session_id s @ CHR '' '' # n)"
| "message_line args SessionsChanged = with_args ''%sessions-changed'' args"
| "message_line args (SessionRenamed n) = msg_line ''%session-renamed'' (n)"
| "message_line args (SessionWindowChanged s w) =
     msg_line ''%session-window-changed'' (show_session_id s @ CHR '' '' # show_window_id w)"
| "message_line args (ClientSessionChanged c s n) =
     msg_line ''%client-session-changed'' (c @ CHR '' '' # show_session_id s @ CHR '' '' # n)"
| "message_line args (ClientDetached c) = msg_line ''%client-detached'' (c)"
| "message_line args (Pause p) = msg_line ''%pause'' (show_pane_id p)"
| "message_line args (Continue p) = msg_line ''%continue'' (show_pane_id p)"
| "message_line args (PaneModeChanged p) = msg_line ''%pane-mode-changed'' (show_pane_id p)"
| "message_line args (Exit None) = ''%exit''"
| "message_line args (Exit (Some r)) = msg_line ''%exit'' (r)"
| "message_line args (Other k) = with_args k args"

definition known_keywords :: "bytes list" where
  "known_keywords =
     [''%output'', ''%extended-output'', ''%window-add'', ''%window-close'', ''%unlinked-window-add'',
      ''%unlinked-window-close'', ''%window-renamed'', ''%unlinked-window-renamed'', ''%layout-change'',
      ''%window-pane-changed'', ''%session-changed'', ''%sessions-changed'', ''%session-renamed'',
      ''%session-window-changed'', ''%client-session-changed'', ''%client-detached'', ''%pause'',
      ''%continue'', ''%pane-mode-changed'', ''%exit'']"

text \<open>A space-free piece of text, as a layout or a client name is.\<close>

definition word_text :: "bytes \<Rightarrow> bool" where
  "word_text t \<longleftrightarrow> t \<noteq> [] \<and> utf8_valid t \<and> CHR '' '' \<notin> set t"

text \<open>
  The fields a message can have: ids and latencies that fit their types, names that are UTF-8, layouts and
  clients that are words, flags without a space, and as another keyword only one that is not interpreted.
\<close>

fun message_wf :: "message \<Rightarrow> bool" where
  "message_wf (Output p data) \<longleftrightarrow> pane_num p \<le> u32_max"
| "message_wf (ExtendedOutput p ms data) \<longleftrightarrow> pane_num p \<le> u32_max \<and> ms \<le> u64_max"
| "message_wf (WindowAdd w) \<longleftrightarrow> window_num w \<le> u32_max"
| "message_wf (WindowClose w) \<longleftrightarrow> window_num w \<le> u32_max"
| "message_wf (WindowRenamed w n) \<longleftrightarrow> window_num w \<le> u32_max \<and> utf8_valid n"
| "message_wf (UnlinkedWindowAdd w) \<longleftrightarrow> window_num w \<le> u32_max"
| "message_wf (UnlinkedWindowClose w) \<longleftrightarrow> window_num w \<le> u32_max"
| "message_wf (UnlinkedWindowRenamed w n) \<longleftrightarrow> window_num w \<le> u32_max \<and> utf8_valid n"
| "message_wf (LayoutChange w l v f) \<longleftrightarrow>
     window_num w \<le> u32_max \<and> word_text l \<and> word_text v \<and> (f = [] \<or> word_text f)"
| "message_wf (WindowPaneChanged w p) \<longleftrightarrow> window_num w \<le> u32_max \<and> pane_num p \<le> u32_max"
| "message_wf (SessionChanged s n) \<longleftrightarrow> session_num s \<le> u32_max \<and> utf8_valid n"
| "message_wf SessionsChanged \<longleftrightarrow> True"
| "message_wf (SessionRenamed n) \<longleftrightarrow> utf8_valid n"
| "message_wf (SessionWindowChanged s w) \<longleftrightarrow> session_num s \<le> u32_max \<and> window_num w \<le> u32_max"
| "message_wf (ClientSessionChanged c s n) \<longleftrightarrow>
     word_text c \<and> session_num s \<le> u32_max \<and> utf8_valid n"
| "message_wf (ClientDetached c) \<longleftrightarrow> utf8_valid c"
| "message_wf (Pause p) \<longleftrightarrow> pane_num p \<le> u32_max"
| "message_wf (Continue p) \<longleftrightarrow> pane_num p \<le> u32_max"
| "message_wf (PaneModeChanged p) \<longleftrightarrow> pane_num p \<le> u32_max"
| "message_wf (Exit r) \<longleftrightarrow> (case r of None \<Rightarrow> True | Some t \<Rightarrow> t \<noteq> [] \<and> utf8_valid t)"
| "message_wf (Other k) \<longleftrightarrow>
     prefix ''%'' k \<and> utf8_valid k \<and> CHR '' '' \<notin> set k \<and> k \<notin> set known_keywords"

lemma word_textD: "word_text t \<Longrightarrow> t \<noteq> []" "word_text t \<Longrightarrow> CHR '' '' \<notin> set t" "word_text t \<Longrightarrow> utf8_valid t"
  by (simp_all add: word_text_def)

lemmas id_ascii = window_ids.disp_ascii session_ids.disp_ascii pane_ids.disp_ascii show_nat_word(2)

lemmas id_words = window_ids.disp_no_space session_ids.disp_no_space pane_ids.disp_no_space
  window_ids.parse_disp session_ids.parse_disp pane_ids.parse_disp
  window_ids.disp_utf8 session_ids.disp_utf8 pane_ids.disp_utf8

lemma parse_message_split:
  assumes "CHR '' '' \<notin> set k" "utf8_valid k" "prefix ''%'' k"
  shows "parse_message (k @ CHR '' '' # r) = parse_keyword k (Some r)"
    and "parse_message k = parse_keyword k None"
proof -
  obtain k' where k: "k = CHR ''%'' # k'" using assms(3) by (cases k) auto
  have "get_at (k @ CHR '' '' # r) 0 = Some CHR ''%''" "get_at k 0 = Some CHR ''%''"
    by (simp_all add: k get_at_def)
  then show "parse_message (k @ CHR '' '' # r) = parse_keyword k (Some r)"
      "parse_message k = parse_keyword k None"
    using assms(1,2) by (simp_all add: parse_message_def split_once_append split_once_single)
qed

lemma known_keywords_words:
  "k \<in> set known_keywords \<Longrightarrow> CHR '' '' \<notin> set k \<and> utf8_valid k \<and> prefix ''%'' k"
proof -
  have "list_all (\<lambda>k. CHR '' '' \<notin> set k \<and> prefix ''%'' k) known_keywords"
    by (simp add: known_keywords_def)
  moreover have "list_all (list_all (\<lambda>b. byte_val b < 128)) known_keywords"
    by (simp add: known_keywords_def)
  ultimately show "k \<in> set known_keywords \<Longrightarrow> CHR '' '' \<notin> set k \<and> utf8_valid k \<and> prefix ''%'' k"
    by (auto simp: list_all_iff intro: utf8_valid_ascii)
qed

lemma parse_msg_line:
  "k \<in> set known_keywords \<Longrightarrow> parse_message (msg_line k r) = parse_keyword k (Some r)"
  "k \<in> set known_keywords \<Longrightarrow> parse_message k = parse_keyword k None"
  using known_keywords_words [of k] by (simp_all add: msg_line_def parse_message_split)

lemma parse_keyword_other: "k \<notin> set known_keywords \<Longrightarrow> parse_keyword k r = Inr (Other k)"
  by (simp add: known_keywords_def parse_keyword_def)

lemma find_sub_header: "CHR '' '' \<notin> set h \<Longrightarrow> find_sub '' :'' (h @ '' : '' @ r) = Some (length h)"
  by (induction h) auto

lemma extended_output_show:
  assumes "pane_num p \<le> u32_max" "ms \<le> u64_max"
  shows "extended_output (show_pane_id p @ '' '' @ show_nat ms @ '' : '' @ escape_output data)
    = Inr (ExtendedOutput p ms data)"
proof -
  have sp: "CHR '' '' \<notin> set (show_nat ms)" by (rule show_nat_word)
  have "find_sub '' :'' (show_nat ms @ '' : '' @ escape_output data) = Some (length (show_nat ms))"
    by (rule find_sub_header) (rule sp)
  moreover have "drop (length (show_nat ms) + 3) (show_nat ms @ '' : '' @ escape_output data) = escape_output data"
    by simp
  moreover have "utf8_valid (show_nat ms)" by (intro utf8_valid_ascii id_ascii)
  ultimately show ?thesis
    using assms sp unescape_escape [of data "[]"]
    by (simp add: extended_output_def split_once_append [OF pane_ids.disp_no_space, simplified]
        pane_field_disp split_on_single parse_radix_show del: drop_append)
qed

lemma two_words: "CHR '' '' \<notin> set a \<Longrightarrow> CHR '' '' \<notin> set b \<Longrightarrow>
    split_on CHR '' '' (a @ CHR '' '' # b) = [a, b]"
  by (simp add: split_on_append split_on_single)

lemma utf8_words: "utf8_valid a \<Longrightarrow> utf8_valid b \<Longrightarrow> utf8_valid (a @ CHR '' '' # b)"
  by (simp add: utf8_valid_cut)

lemma layout_change_show:
  assumes "window_num w \<le> u32_max" "word_text l" "word_text v" "f = [] \<or> word_text f"
  shows "layout_change (show_window_id w @ CHR '' '' # l @ CHR '' '' # v @ CHR '' '' # f)
    = Inr (LayoutChange w l v f)"
proof -
  have f: "utf8_valid f" "CHR '' '' \<notin> set f" using assms(4) word_textD [of f] by auto
  then have "utf8_valid (show_window_id w @ CHR '' '' # l @ CHR '' '' # v @ CHR '' '' # f)"
    using assms by (intro utf8_words) (auto simp: id_words word_textD)
  moreover have "split_on CHR '' '' (show_window_id w @ CHR '' '' # l @ CHR '' '' # v @ CHR '' '' # f)
      = [show_window_id w, l, v, f]"
    using assms f by (simp add: split_on_append split_on_single id_words word_textD)
  ultimately show ?thesis
    using assms word_textD(1) by (simp add: layout_change_def get_at_def id_words)
qed

lemma pane_changed_show:
  assumes "window_num w \<le> u32_max" "pane_num p \<le> u32_max"
  shows "parse_keyword ''%window-pane-changed'' (Some (show_window_id w @ CHR '' '' # show_pane_id p))
    = Inr (WindowPaneChanged w p)"
  using assms
  by (simp add: parse_keyword_def two_words id_words utf8_words get_at_def)

lemma session_window_show:
  assumes "session_num s \<le> u32_max" "window_num w \<le> u32_max"
  shows "parse_keyword ''%session-window-changed'' (Some (show_session_id s @ CHR '' '' # show_window_id w))
    = Inr (SessionWindowChanged s w)"
  using assms
  by (simp add: parse_keyword_def two_words id_words utf8_words get_at_def)

lemma client_session_show:
  assumes "word_text c" "session_num s \<le> u32_max" "utf8_valid n"
  shows "parse_keyword ''%client-session-changed'' (Some (c @ CHR '' '' # show_session_id s @ CHR '' '' # n))
    = Inr (ClientSessionChanged c s n)"
proof -
  have "splitn 3 CHR '' '' (c @ CHR '' '' # show_session_id s @ CHR '' '' # n) = [c, show_session_id s, n]"
    using assms by (simp add: numeral_3_eq_3 str_split_once_append word_textD id_words)
  moreover have "utf8_valid (c @ CHR '' '' # show_session_id s @ CHR '' '' # n)"
    using assms by (intro utf8_words) (auto simp: id_words word_textD)
  ultimately show ?thesis
    using assms word_textD(1) by (simp add: parse_keyword_def get_at_def id_words)
qed

lemma parse_keyword_show:
  "pane_num p \<le> u32_max \<Longrightarrow>
    parse_keyword ''%output'' (Some (show_pane_id p @ CHR '' '' # escape_output data)) = Inr (Output p data)"
  using unescape_escape [of data "[]"]
  by (simp add: parse_keyword_def split_once_append id_words pane_field_disp)

lemma parse_with_args:
  "k \<in> set known_keywords \<Longrightarrow> parse_message (with_args k args) = parse_keyword k args"
  "CHR '' '' \<notin> set k \<Longrightarrow> utf8_valid k \<Longrightarrow> prefix ''%'' k \<Longrightarrow> parse_message (with_args k args) = parse_keyword k args"
  using known_keywords_words [of k] by (cases args; simp add: with_args_def parse_message_split)+

lemma parse_message_line: "message_wf m \<Longrightarrow> parse_message (message_line args m) = Inr m"
proof (cases m)
  case (ExtendedOutput p ms data)
  then show "message_wf m \<Longrightarrow> ?thesis"
    using extended_output_show [of p ms data]
    by (simp add: parse_msg_line known_keywords_def) (simp add: parse_keyword_def)
next
  case (LayoutChange w l v f)
  then show "message_wf m \<Longrightarrow> ?thesis"
    using layout_change_show [of w l v f]
    by (simp add: parse_msg_line known_keywords_def) (simp add: parse_keyword_def)
next
  case (Exit r)
  then show "message_wf m \<Longrightarrow> ?thesis"
    by (cases r) (simp_all add: parse_msg_line known_keywords_def parse_keyword_def from_utf8_lossy_valid)
next
  case (Other k)
  then show "message_wf m \<Longrightarrow> ?thesis"
    by (simp add: parse_with_args(2) parse_keyword_other)
next
  case SessionsChanged
  then show "message_wf m \<Longrightarrow> ?thesis"
    by (simp add: parse_with_args(1) known_keywords_def) (simp add: parse_keyword_def)
qed (simp_all add: parse_msg_line known_keywords_def parse_keyword_show pane_changed_show
      session_window_show client_session_show,
    simp_all add: parse_keyword_def only_window_disp window_and_text_disp session_and_text_disp
      pane_field_disp)

text \<open>Conversely, the fields of what the parser gives are within their types.\<close>

lemma pane_field_num: "pane_field bs what = Inr p \<Longrightarrow> pane_num p \<le> u32_max"
  by (auto simp: pane_field_def res_simps msg_text_def split: if_splits dest: pane_ids.parse_le)

lemma only_window_num: "only_window r what = Inr w \<Longrightarrow> window_num w \<le> u32_max"
  by (auto simp: only_window_def res_simps msg_text_def split: if_splits dest: window_ids.parse_le)

lemma window_and_text_wf: "window_and_text r what = Inr (w, n) \<Longrightarrow> window_num w \<le> u32_max \<and> utf8_valid n"
  by (auto simp: window_and_text_def res_simps msg_text_def from_utf8_lossy_utf8 case_prod_unfold Let_def split: if_splits
      dest: window_ids.parse_le)

lemma session_and_text_wf: "session_and_text r what = Inr (s, n) \<Longrightarrow> session_num s \<le> u32_max \<and> utf8_valid n"
  by (auto simp: session_and_text_def res_simps msg_text_def from_utf8_lossy_utf8 case_prod_unfold Let_def split: if_splits
      dest: session_ids.parse_le)

lemma piece_word:
  assumes "utf8_valid t" "get_at (split_on CHR '' '' t) i = Some p"
  shows "p = [] \<or> word_text p"
proof -
  have "p \<in> set (split_on CHR '' '' t)" using assms(2) by (auto simp: get_at_def split: if_splits)
  then show ?thesis
    using split_on_pieces [of p "CHR '' ''" t] split_on_utf8 [OF assms(1), of "CHR '' ''" p] by (auto simp: word_text_def)
qed

lemma layout_change_wf: "layout_change r = Inr m \<Longrightarrow> message_wf m"
  by (auto simp: layout_change_def res_simps msg_text_def non_empty_def or_empty_def bind_eq_Some_conv Let_def
      split: if_splits option.splits dest: window_ids.parse_le piece_word)

lemma extended_output_wf: "extended_output r = Inr m \<Longrightarrow> message_wf m"
  by (auto simp: extended_output_def res_simps bind_eq_Some_conv case_prod_unfold Let_def dest: pane_field_num parse_radix_le)

lemma client_session_wf:
  assumes "utf8_valid t" "get_at (splitn 3 CHR '' '' t) 0 = Some c" "c \<noteq> []"
  shows "word_text c \<and> utf8_valid (or_empty (get_at (splitn 3 CHR '' '' t) 2))"
proof (cases "str_split_once CHR '' '' t")
  case None
  then have "CHR '' '' \<notin> set t" by (metis split_list_first str_split_once_append option.distinct(1))
  with None assms show ?thesis by (auto simp: numeral_3_eq_3 get_at_def word_text_def split: if_splits)
next
  case (Some ab)
  obtain a b where ab: "ab = (a, b)" by (cases ab)
  with Some have t: "t = a @ CHR '' '' # b" "CHR '' '' \<notin> set a" using str_split_once_SomeD [of "CHR '' ''" t a b] by auto
  with assms(1) have v: "utf8_valid a" "utf8_valid b" by (auto simp: utf8_valid_cut)
  show ?thesis
  proof (cases "str_split_once CHR '' '' b")
    case None
    with Some ab t v assms(2,3) show ?thesis by (auto simp: numeral_3_eq_3 get_at_def word_text_def split: if_splits)
  next
    case (Some xy)
    obtain x y where xy: "xy = (x, y)" by (cases xy)
    with Some have "b = x @ CHR '' '' # y" using str_split_once_SomeD [of "CHR '' ''" b x y] by auto
    with v have "utf8_valid y" by (auto simp: utf8_valid_cut)
    with Some xy \<open>str_split_once CHR '' '' t = Some ab\<close> ab t v assms(2,3) show ?thesis
      by (auto simp: numeral_3_eq_3 get_at_def word_text_def split: if_splits)
  qed
qed

lemma parse_keyword_wf:
  assumes "parse_keyword k r = Inr m" "CHR '' '' \<notin> set k" "utf8_valid k" "prefix ''%'' k"
  shows "message_wf m"
proof (cases "k \<in> set known_keywords")
  case False
  with assms show ?thesis by (auto simp: parse_keyword_other)
next
  case True
  then show ?thesis
    using assms(1)
    by (auto simp: known_keywords_def parse_keyword_def res_simps msg_text_def non_empty_def from_utf8_lossy_utf8
        from_utf8_lossy_eq_Nil bind_eq_Some_conv case_prod_unfold Let_def
        split: if_splits option.splits
        dest: pane_field_num only_window_num window_and_text_wf session_and_text_wf layout_change_wf extended_output_wf
          window_ids.parse_le pane_ids.parse_le session_ids.parse_le client_session_wf)
qed

lemma parse_message_wf: "parse_message line = Inr m \<Longrightarrow> message_wf m"
proof -
  assume p: "parse_message line = Inr m"
  obtain k r where kr: "split_once line CHR '' '' = (k, r)" by (cases "split_once line CHR '' ''")
  from p obtain ls where line: "line = CHR ''%'' # ls"
    by (cases line) (auto simp: parse_message_def get_at_def split: if_splits)
  have "prefix ''%'' k"
    using kr line by (cases k) (auto simp: split_once_def split: option.splits dest!: position_SomeD split: if_splits)
  then show ?thesis
    using p kr line split_once_head [OF kr] parse_keyword_wf [of k r m]
    by (auto simp: parse_message_def get_at_def split: if_splits)
qed

section \<open>Properties\<close>

text \<open>
  C20. The messages \<open>parse_message\<close> gives are exactly the well-formed ones. A message with ids and latencies
  that fit their types, names that are UTF-8, layouts and clients that are non-empty words, flags
  without a space and, for a kind that is not interpreted, a keyword that no other kind has, is read from
  the line of its keyword and its fields, whatever arguments follow a keyword that takes none. No
  line at all is read as any other message, whatever its bytes.
\<close>

theorem notifications_exact:
  "if message_wf m then parse_message (message_line args m) = Inr m else parse_message line \<noteq> Inr m"
  using parse_message_line [of m args] parse_message_wf [of line m] by auto

end
