(* ===== verification/Tmux_Client.thy ===== *)
theory Tmux_Client
  imports Tmux_Decode Tmux_Message
begin

text \<open>
  Model of \<^verbatim>\<open>crates/chan-tmux/src/client.rs\<close>: the decoder plus the queue that pairs each reply block with
  the command that asked for it. A method returns the client it leaves and its result.
\<close>

definition MAX_PENDING :: nat where "MAX_PENDING = 256"

datatype token = Token nat

datatype event =
    EPassthrough bytes
  | EEntered
  | EMessage message
  | EReply token "bytes list + bytes list"
  | ECapture token pane_state "bytes list"
  | EUnsolicited bool "bytes list"
  | EStray bytes
  | EExited "bytes option" "token list"

datatype part = Whole | CaptureState | CaptureRows

record client =
  c_decoder :: decoder
  c_pending :: "(token \<times> part) list"
  c_capture :: "(token \<times> pane_state) option"
  c_next :: nat
  c_ready :: bool
  c_failed :: bool

definition with_decoder :: "decoder \<Rightarrow> client" where
  "with_decoder d =
     \<lparr>c_decoder = d, c_pending = [], c_capture = None, c_next = 0, c_ready = False, c_failed = False\<rparr>"

definition new_client :: "limits \<Rightarrow> client" where
  "new_client l = with_decoder (new_decoder l)"

definition in_control_client :: "limits \<Rightarrow> client" where
  "in_control_client l = with_decoder (in_control l)"

definition client_arm :: "client \<Rightarrow> bool \<Rightarrow> client" where
  "client_arm c armed = c\<lparr>c_decoder := arm (c_decoder c) armed\<rparr>"

definition expect_part :: "expect \<Rightarrow> part" where
  "expect_part e =
     (case e of
        ExpectPaneState \<Rightarrow> CaptureState
      | ExpectCapture _ \<Rightarrow> CaptureRows
      | ExpectAny \<Rightarrow> Whole
      | ExpectRows _ \<Rightarrow> Whole)"

text \<open>The loop over a command's expectations at the end of \<open>submit\<close>.\<close>

definition queue_expect :: "token \<Rightarrow> expect \<Rightarrow> client \<Rightarrow> client" where
  "queue_expect t e c =
     c\<lparr>c_pending := c_pending c @ [(t, expect_part e)], c_decoder := expect_next (c_decoder c) e\<rparr>"

definition capture_too_big :: "client \<Rightarrow> command \<Rightarrow> bool" where
  "capture_too_big c cmd =
     (case cmd of
        CapturePane _ history_rows \<Rightarrow>
          max_block_lines (d_limits (c_decoder c)) < history_rows + MAX_SIZE
      | _ \<Rightarrow> False)"

definition submit :: "client \<Rightarrow> command \<Rightarrow> client \<times> (error, token \<times> bytes) res" where
  "submit c cmd =
     (if c_failed c then (c, Err Poisoned)
      else if \<not> in_control_mode (c_decoder c) \<or> \<not> c_ready c then (c, Err NotReady)
      else if MAX_PENDING < length (c_pending c) + length (expects cmd) then (c, Err TooManyPending)
      else if capture_too_big c cmd then (c, Err (BadArgument ''capture exceeds the block bound''))
      else case render cmd of
        Inl e \<Rightarrow> (c, Err e)
      | Inr line \<Rightarrow>
          let t = Token (c_next c); c1 = c\<lparr>c_next := (c_next c + 1) mod 2 ^ 64\<rparr> in
          (fold (queue_expect t) (expects cmd) c1, Ok (t, line @ [CHR 0x0A])))"

definition fail_client :: "client \<Rightarrow> client" where
  "fail_client c = c\<lparr>c_failed := True\<rparr>"

text \<open>A solicited block against the head of the queue.\<close>

definition reply_event :: "client \<Rightarrow> block \<Rightarrow> client \<times> (error, event list) res" where
  "reply_event c b =
     (case c_pending c of
        [] \<Rightarrow> (c, Err UnexpectedReply)
      | (t, p) # ps \<Rightarrow>
          let c1 = c\<lparr>c_pending := ps\<rparr>;
              result = (if b_ok b then Inr (b_lines b) else Inl (b_lines b))
          in case (p, result) of
               (Whole, r) \<Rightarrow> (c1, Ok [EReply t r])
             | (CaptureState, Inr ls) \<Rightarrow>
                 (case parse_pane_state ls of
                    Inl e \<Rightarrow> (c1, Err e)
                  | Inr s \<Rightarrow> (c1\<lparr>c_capture := Some (t, s)\<rparr>, Ok []))
             | (CaptureRows, Inr ls) \<Rightarrow>
                 let c2 = c1\<lparr>c_capture := None\<rparr> in
                 (case c_capture c1 of
                    Some (t', s) \<Rightarrow> if t' = t then (c2, Ok [ECapture t s ls]) else (c2, Err NoPaneState)
                  | None \<Rightarrow> (c2, Err NoPaneState))
             | (CaptureState, Inl ls) \<Rightarrow> (c1\<lparr>c_capture := None\<rparr>, Ok [EReply t (Inl ls)])
             | (CaptureRows, Inl ls) \<Rightarrow> (c1\<lparr>c_capture := None\<rparr>, Ok [EReply t (Inl ls)]))"

text \<open>The tokens of the queue, each once: the loop that fills \<open>dropped\<close>.\<close>

fun drop_tokens :: "token list \<Rightarrow> (token \<times> part) list \<Rightarrow> token list" where
  "drop_tokens dropped [] = dropped"
| "drop_tokens dropped ((t, _) # ps) =
     drop_tokens (if dropped \<noteq> [] \<and> last dropped = t then dropped else dropped @ [t]) ps"

definition client_event :: "client \<Rightarrow> frame \<Rightarrow> client \<times> (error, event list) res" where
  "client_event c f =
     (case f of
        FPassthrough bs \<Rightarrow> (c, Ok [EPassthrough bs])
      | FEntered \<Rightarrow> (c\<lparr>c_ready := False, c_pending := [], c_capture := None\<rparr>, Ok [EEntered])
      | FLine line \<Rightarrow>
          (case parse_message line of
             Inr m \<Rightarrow>
               ((case m of SessionChanged _ _ \<Rightarrow> c\<lparr>c_ready := True\<rparr> | _ \<Rightarrow> c), Ok [EMessage m])
           | Inl e \<Rightarrow>
               if get_at line 0 \<noteq> Some CHR ''%'' then (c, Ok [EStray line]) else (c, Err e))
      | FBlock b \<Rightarrow>
          if \<not> b_solicited b then (c, Ok [EUnsolicited (b_ok b) (b_lines b)]) else reply_event c b
      | FExit reason \<Rightarrow>
          (c\<lparr>c_ready := False, c_capture := None, c_pending := []\<rparr>,
           Ok [EExited reason (drop_tokens [] (c_pending c))]))"

text \<open>\<open>try_for_each\<close> of \<open>event\<close> over the frames.\<close>

fun events :: "client \<Rightarrow> frame list \<Rightarrow> client \<times> (error, event list) res" where
  "events c [] = (c, Ok [])"
| "events c (f # fs) =
     (case client_event c f of
        (c1, Inl e) \<Rightarrow> (c1, Err e)
      | (c1, Inr es) \<Rightarrow>
          (case events c1 fs of
             (c2, Inl e) \<Rightarrow> (c2, Err e)
           | (c2, Inr es') \<Rightarrow> (c2, Ok (es @ es'))))"

definition client_feed :: "client \<Rightarrow> bytes \<Rightarrow> client \<times> (error, event list) res" where
  "client_feed c input =
     (if c_failed c then (c, Err Poisoned)
      else
        let (d, frames, decoded) = feed (c_decoder c) input;
            (c1, r) = events (c\<lparr>c_decoder := d\<rparr>) frames
        in case r of
             Inl e \<Rightarrow> (c1\<lparr>c_failed := True\<rparr>, Err e)
           | Inr es \<Rightarrow>
               (case decoded of
                  None \<Rightarrow> (c1, Ok es)
                | Some e \<Rightarrow> (c1\<lparr>c_failed := True\<rparr>, Err e)))"

section \<open>Events of a run of frames\<close>

lemma event_decoder:
  "client_event (c\<lparr>c_decoder := d\<rparr>) f = (case client_event c f of (c1, r) \<Rightarrow> (c1\<lparr>c_decoder := d\<rparr>, r))"
  by (auto simp: client_event_def reply_event_def Let_def split: frame.splits sum.splits message.splits
      list.splits part.splits option.splits prod.splits)

lemma events_decoder:
  "events (c\<lparr>c_decoder := d\<rparr>) fs = (case events c fs of (c1, r) \<Rightarrow> (c1\<lparr>c_decoder := d\<rparr>, r))"
  by (induction fs arbitrary: c) (auto simp: event_decoder split: prod.splits sum.splits)

lemma events_append:
  "events c (fs @ gs) =
     (case events c fs of
        (c1, Inl e) \<Rightarrow> (c1, Inl e)
      | (c1, Inr es) \<Rightarrow>
          (case events c1 gs of (c2, Inl e) \<Rightarrow> (c2, Inl e) | (c2, Inr es') \<Rightarrow> (c2, Inr (es @ es'))))"
  by (induction fs arbitrary: c) (auto split: prod.splits sum.splits)

text \<open>How passed bytes are grouped changes the passthrough events only.\<close>

definition quiet :: "event list \<Rightarrow> event list" where
  "quiet es = filter (\<lambda>e. \<forall>bs. e \<noteq> EPassthrough bs) es"

definition quiet_result :: "client \<times> (error, event list) res \<Rightarrow> client \<times> (error, event list) res" where
  "quiet_result r = (case r of (c, Inl e) \<Rightarrow> (c, Inl e) | (c, Inr es) \<Rightarrow> (c, Inr (quiet es)))"

lemma events_singles: "events c (singles bs) = (c, Inr (map (\<lambda>b. EPassthrough [b]) bs))"
  by (induction bs) (simp_all add: singles_def client_event_def)

lemma events_explode: "quiet_result (events c (explode fs)) = quiet_result (events c fs)"
proof (induction fs arbitrary: c)
  case (Cons f fs)
  have ex: "explode (f # fs) = explode [f] @ explode fs" by (simp add: explode_def)
  have one: "quiet_result (events c (explode [f])) = quiet_result (events c [f])"
    by (cases f) (auto simp: explode_def events_singles client_event_def quiet_result_def quiet_def
        split: sum.splits prod.splits if_splits)
  obtain c1 r1 where e1: "events c (explode [f]) = (c1, r1)" by (cases "events c (explode [f])")
  obtain c2 r2 where e2: "client_event c f = (c2, r2)" by (cases "client_event c f")
  from one e1 e2 have c: "c1 = c2" "(\<exists>e. r1 = Inl e \<and> r2 = Inl e) \<or> (\<exists>a b. r1 = Inr a \<and> r2 = Inr b \<and> quiet a = quiet b)"
    by (auto simp: quiet_result_def split: sum.splits)
  obtain c3 r3 where e3: "events c2 (explode fs) = (c3, r3)" by (cases "events c2 (explode fs)")
  obtain c4 r4 where e4: "events c2 fs = (c4, r4)" by (cases "events c2 fs")
  from Cons.IH [of c2] e3 e4 c e1 e2 show ?case
    unfolding ex events_append
    by (auto simp: quiet_result_def quiet_def split: sum.splits)
qed (simp add: quiet_result_def)

section \<open>The pairing of replies and commands\<close>

text \<open>
  The part a solicited open block answers, the shape of the queue (a capture's two halves are
  next to each other, and only the head can be the second half alone), and the relation between
  the decoder and the queue.
\<close>

definition open_part :: "decoder \<Rightarrow> part list" where
  "open_part d =
     (case d_open d of
        None \<Rightarrow> []
      | Some ob \<Rightarrow>
          if \<not> o_solicited ob then []
          else [if o_pane_state ob then CaptureState else if o_rows ob = None then Whole else CaptureRows])"

fun caps_ok :: "(token \<times> part) list \<Rightarrow> bool" where
  "caps_ok [] = True"
| "caps_ok ((t, Whole) # ps) = caps_ok ps"
| "caps_ok ((t, CaptureState) # (t', CaptureRows) # ps) = (t = t' \<and> caps_ok ps)"
| "caps_ok _ = False"

fun pend_ok :: "(token \<times> part) list \<Rightarrow> bool" where
  "pend_ok ((t, CaptureRows) # ps) = caps_ok ps"
| "pend_ok ps = caps_ok ps"

definition captured :: "client \<Rightarrow> pane_state \<Rightarrow> bool" where
  "captured c s \<longleftrightarrow> (\<exists>t ps. c_pending c = (t, CaptureRows) # ps \<and> c_capture c = Some (t, s))"

definition open_ok :: "client \<Rightarrow> open_block \<Rightarrow> bool" where
  "open_ok c ob \<longleftrightarrow> (\<not> o_solicited ob \<longrightarrow> o_rows ob = None \<and> \<not> o_pane_state ob) \<and>
     (o_pane_state ob \<longrightarrow> o_rows ob = None) \<and> (o_rows ob \<noteq> None \<longrightarrow> (\<exists>s. captured c s))"

definition paired :: "decoder \<Rightarrow> client \<Rightarrow> bool" where
  "paired d c \<longleftrightarrow>
     map snd (c_pending c) = open_part d @ map expect_part (d_expect d) \<and>
     (\<forall>n. ExpectRows n \<notin> set (d_expect d)) \<and> pend_ok (c_pending c) \<and>
     (\<forall>s. d_pane_state d = Some s \<longrightarrow> d_open d = None \<and> captured c s) \<and>
     (\<forall>ob. d_open d = Some ob \<longrightarrow> open_ok c ob) \<and>
     (d_state d \<noteq> Control \<longrightarrow> d_open d = None \<and> d_expect d = [] \<and> d_pane_state d = None) \<and>
     (c_ready c \<longrightarrow> d_state d = Control)"

lemma pend_ok_caps: "caps_ok ps \<Longrightarrow> pend_ok ps"
  by (cases ps rule: pend_ok.cases) auto

lemma pend_ok_Whole: "pend_ok ((t, Whole) # ps) \<Longrightarrow> pend_ok ps"
  by (simp add: pend_ok_caps)

lemma pend_ok_CaptureRows: "pend_ok ((t, CaptureRows) # ps) \<Longrightarrow> pend_ok ps"
  by (simp add: pend_ok_caps)

lemma pend_ok_CaptureState:
  "pend_ok ((t, CaptureState) # ps) \<Longrightarrow> \<exists>ps'. ps = (t, CaptureRows) # ps' \<and> pend_ok ps"
  by (cases "(t, CaptureState) # ps" rule: caps_ok.cases) auto

lemma paired_close:
  assumes pd: "paired d c" and ob: "d_open d = Some ob"
    and ps: "kept_state (o_pane_state ob) good (o_lines ob) (d_pane_state d) = Inr ps"
  shows "\<exists>c1 es. client_event c (FBlock (close_block ob good)) = (c1, Inr es) \<and>
    paired (d\<lparr>d_open := None, d_pane_state := ps\<rparr>) c1"
proof -
  let ?b = "close_block ob good" and ?d = "d\<lparr>d_open := None, d_pane_state := ps\<rparr>"
  have nops: "d_pane_state d = None" using pd ob by (cases "d_pane_state d") (auto simp: paired_def)
  have ctl: "d_state d = Control" using pd ob by (auto simp: paired_def)
  have parts: "map snd (c_pending c) = open_part d @ map expect_part (d_expect d)"
    and pok: "pend_ok (c_pending c)" and oo: "open_ok c ob"
    and nrows: "\<forall>n. ExpectRows n \<notin> set (d_expect d)"
    using pd ob by (auto simp: paired_def)
  have b: "b_solicited ?b = o_solicited ob" "b_ok ?b = good" "b_lines ?b = o_lines ob"
    by (simp_all add: close_block_def)
  consider (uns) "\<not> o_solicited ob" | (state) "o_solicited ob" "o_pane_state ob"
    | (whole) "o_solicited ob" "\<not> o_pane_state ob" "o_rows ob = None"
    | (rows) "o_solicited ob" "\<not> o_pane_state ob" "o_rows ob \<noteq> None" by blast
  then show ?thesis
  proof cases
    case uns
    then show ?thesis
      using oo ps nops parts pok nrows ctl ob b
      by (auto simp: client_event_def paired_def open_ok_def kept_state_def open_part_def)
  next
    case state
    then obtain t ps' where pend: "c_pending c = (t, CaptureState) # (t, CaptureRows) # ps'"
      using parts pok ob pend_ok_CaptureState by (cases "c_pending c") (auto simp: open_part_def, blast)
    with pok have "pend_ok ((t, CaptureRows) # ps')" using pend_ok_CaptureState by fastforce
    then show ?thesis
      using state pend parts nrows ctl ob b ps nops
      by (cases good) (auto simp: client_event_def reply_event_def paired_def open_part_def kept_state_def
          captured_def res_simps)
  next
    case whole
    then obtain t ps' where pend: "c_pending c = (t, Whole) # ps'"
      using parts ob by (cases "c_pending c") (auto simp: open_part_def)
    with pok have "pend_ok ps'" by (simp add: pend_ok_caps)
    then show ?thesis
      using whole pend parts nrows ctl ob b ps nops
      by (auto simp: client_event_def reply_event_def paired_def open_part_def kept_state_def Let_def)
  next
    case rows
    then obtain t s ps' where pend: "c_pending c = (t, CaptureRows) # ps'" "c_capture c = Some (t, s)"
      using oo by (auto simp: open_ok_def captured_def)
    with pok have "pend_ok ps'" by (simp add: pend_ok_caps)
    then show ?thesis
      using rows pend parts nrows ctl ob b ps nops
      by (cases good) (auto simp: client_event_def reply_event_def paired_def open_part_def kept_state_def Let_def)
  qed
qed

lemma paired_block_line:
  assumes "paired d c" "d_open d = Some ob" "block_line d line = (d1, fs, None)"
  shows "fs = [] \<and> paired d1 c \<or> (\<exists>b c1 es. fs = [FBlock b] \<and> client_event c (FBlock b) = (c1, Inr es) \<and> paired d1 c1)"
  using assms(3,2)
proof (cases rule: block_line_NoneE)
  case row
  with assms(1,2) show ?thesis
    by (auto simp: paired_def open_part_def open_ok_def add_rows_def)
next
  case (fin good ps)
  with paired_close [OF assms(1,2) fin(3)] show ?thesis by auto
qed

lemma paired_begin:
  assumes pd: "paired d c" and no: "d_open d = None" and st: "d_state d = Control"
    and b: "begin_block d r = (d1, fs, None)"
  shows "fs = [] \<and> paired d1 c"
proof -
  obtain tm num flags where h: "parse_header r = Some (tm, num, flags)"
    using b by (cases "parse_header r") (auto simp: begin_block_def)
  show ?thesis
  proof (cases "flags mod 2 = 1")
    case False
    with b h pd no st show ?thesis
      by (auto simp: begin_block_def promised_def paired_def open_part_def open_ok_def Let_def)
  next
    case True
    with b h obtain e es where q: "d_expect d = e # es"
      by (cases "d_expect d") (auto simp: begin_block_def)
    with b h True obtain rows keep where pr: "promised e (d_pane_state d) = Inr (rows, keep)"
      by (cases "promised e (d_pane_state d)") (auto simp: begin_block_def)
    let ?ob = "\<lparr>o_header = r, o_time = tm, o_number = num, o_solicited = True, o_rows = rows,
      o_pane_state = keep, o_lines = [], o_bytes = 0\<rparr>"
    have d1: "fs = []" "d1 = d\<lparr>d_expect := es, d_pane_state := None, d_open := Some ?ob\<rparr>"
      using b h True q pr by (auto simp: begin_block_def)
    have "open_part d1 = [expect_part e] \<and> open_ok c ?ob"
      using pr pd q d1(2)
      by (cases e) (auto simp: promised_def open_part_def expect_part_def open_ok_def paired_def res_simps)
    with d1 pd no st q show ?thesis by (auto simp: paired_def) (simp add: open_part_def)
  qed
qed

text \<open>
  The tokens events answer, and the accounting: what was owed before is what the events answered
  followed by what is still owed, where a token counts once however many of its halves are named.
\<close>

definition tokens :: "event list \<Rightarrow> token list" where
  "tokens es =
     concat (map (\<lambda>e. case e of EReply t _ \<Rightarrow> [t] | ECapture t _ _ \<Rightarrow> [t] | EExited _ ts \<Rightarrow> ts | _ \<Rightarrow> []) es)"

definition accounts :: "client \<Rightarrow> event list \<Rightarrow> client \<Rightarrow> bool" where
  "accounts c es c1 \<longleftrightarrow>
     remdups_adj (tokens es @ map fst (c_pending c1)) = remdups_adj (map fst (c_pending c))"

lemma remdups_adj_cong_append:
  "remdups_adj ys = remdups_adj zs \<Longrightarrow> remdups_adj (xs @ ys) = remdups_adj (xs @ zs)"
  by (induction xs) (simp_all add: remdups_adj_Cons)

lemma accounts_append: "accounts c es c1 \<Longrightarrow> accounts c1 es' c2 \<Longrightarrow> accounts c (es @ es') c2"
proof -
  assume 1: "accounts c es c1" and 2: "accounts c1 es' c2"
  from 2 have "remdups_adj (tokens es' @ map fst (c_pending c2)) = remdups_adj (map fst (c_pending c1))"
    by (simp add: accounts_def)
  from remdups_adj_cong_append [OF this, of "tokens es"] 1 show ?thesis
    by (simp add: accounts_def tokens_def)
qed

lemma remdups_adj_snoc:
  "remdups_adj (a @ [t]) = (if a \<noteq> [] \<and> last a = t then remdups_adj a else remdups_adj a @ [t])"
  by (induction a rule: remdups_adj.induct) auto

lemma remdups_adj_idem: "remdups_adj (remdups_adj xs) = remdups_adj xs"
  using distinct_adj_remdups_adj distinct_adj_altdef by blast

lemma drop_tokens_remdups: "drop_tokens (remdups_adj a) ps = remdups_adj (a @ map fst ps)"
proof (induction ps arbitrary: a)
  case (Cons p ps)
  obtain t q where p: "p = (t, q)" by (cases p)
  have "drop_tokens (remdups_adj a) (p # ps) = drop_tokens (remdups_adj (a @ [t])) ps"
    by (simp add: p remdups_adj_snoc)
  with Cons.IH [of "a @ [t]"] p show ?case by simp
qed simp

lemma event_accounts:
  assumes "client_event c f = (c1, Inr es)" "f = FEntered \<longrightarrow> c_pending c = []" "pend_ok (c_pending c)"
  shows "accounts c es c1"
proof (cases f)
  case (FBlock b)
  show ?thesis
  proof (cases "b_solicited b")
    case False
    with assms(1) FBlock show ?thesis by (auto simp: client_event_def accounts_def tokens_def)
  next
    case True
    with assms(1) FBlock have r: "reply_event c b = (c1, Inr es)" by (simp add: client_event_def)
    then obtain t p ps where pend: "c_pending c = (t, p) # ps"
      by (cases "c_pending c") (auto simp: reply_event_def)
    have state: "\<exists>ps'. ps = (t, CaptureRows) # ps'" if "p = CaptureState"
      using pend_ok_CaptureState [of t ps] assms(3) pend that by auto
    show ?thesis
    proof (cases p)
      case CaptureState
      with state obtain ps' where "ps = (t, CaptureRows) # ps'" by blast
      with r pend CaptureState show ?thesis
        by (auto simp: reply_event_def accounts_def tokens_def Let_def split: if_splits sum.splits)
    qed (use r pend in \<open>auto simp: reply_event_def accounts_def tokens_def Let_def
        split: if_splits sum.splits option.splits\<close>)
  qed
next
  case (FLine line)
  with assms(1) show ?thesis
    by (auto simp: client_event_def accounts_def tokens_def split: sum.splits if_splits message.splits)
next
  case (FExit r)
  with assms(1) drop_tokens_remdups [of "[]" "c_pending c"] show ?thesis
    by (auto simp: client_event_def accounts_def tokens_def remdups_adj_idem)
qed (use assms in \<open>auto simp: client_event_def accounts_def tokens_def\<close>)

text \<open>
  A run of frames either goes through and keeps the pairing, or stops at a notification that
  does not parse.
\<close>

definition bad_line :: "client \<Rightarrow> frame list \<Rightarrow> error \<Rightarrow> bool" where
  "bad_line c fs e \<longleftrightarrow> (\<exists>as line bs c1 es. fs = as @ FLine line # bs \<and> events c as = (c1, Inr es) \<and>
     get_at line 0 = Some CHR ''%'' \<and> parse_message line = Inl e)"

definition follows :: "client \<Rightarrow> frame list \<Rightarrow> decoder \<Rightarrow> bool" where
  "follows c fs d \<longleftrightarrow> (\<exists>c1 es. events c fs = (c1, Inr es) \<and> paired d c1 \<and> accounts c es c1) \<or>
     (\<exists>c1 e. events c fs = (c1, Inl e) \<and> bad_line c fs e)"

lemma bad_line_one: "get_at line 0 = Some CHR ''%'' \<Longrightarrow> parse_message line = Inl e \<Longrightarrow> bad_line c [FLine line] e"
  unfolding bad_line_def by (rule exI [of _ "[]"]) simp

lemma bad_line_before: "bad_line c fs e \<Longrightarrow> bad_line c (fs @ gs) e"
  by (auto simp: bad_line_def) blast

lemma bad_line_after:
  assumes "events c fs = (c1, Inr es)" "bad_line c1 gs e"
  shows "bad_line c (fs @ gs) e"
proof -
  from assms(2) obtain as line bs c2 es' where "gs = as @ FLine line # bs" "events c1 as = (c2, Inr es')"
    "get_at line 0 = Some CHR ''%''" "parse_message line = Inl e" by (auto simp: bad_line_def)
  moreover from this have "events c (fs @ as) = (c2, Inr (es @ es'))" using assms(1) by (simp add: events_append)
  moreover have "fs @ gs = (fs @ as) @ FLine line # bs" using calculation(1) by simp
  ultimately show ?thesis unfolding bad_line_def by blast
qed

text \<open>A line keeps its place when passed bytes are grouped in another way.\<close>

lemma explode_line:
  "explode fs = as @ FLine line # bs \<Longrightarrow> \<exists>as' bs'. fs = as' @ FLine line # bs' \<and> explode as' = as"
proof (induction fs arbitrary: as)
  case (Cons f fs)
  have ex: "explode (f # fs) = explode [f] @ explode fs" by (simp add: explode_def)
  show ?case
  proof (cases "f = FLine line \<and> as = []")
    case True
    then have "f # fs = [] @ FLine line # fs \<and> explode [] = as" by (simp add: explode_def)
    then show ?thesis by blast
  next
    case False
    have all: "as @ FLine line # bs = explode [f] @ explode fs" using Cons.prems ex by simp
    have "\<exists>us. as = explode [f] @ us \<and> explode fs = us @ FLine line # bs"
    proof (cases "f = FLine line")
      case True
      with False all show ?thesis by (auto simp: explode_def Cons_eq_append_conv append_eq_Cons_conv)
    next
      case other: False
      then have "FLine line \<notin> set (explode [f])"
        by (cases f) (auto simp: explode_def singles_def)
      with all show ?thesis
        by (auto simp: append_eq_append_conv2 Cons_eq_append_conv) (metis in_set_conv_decomp)
    qed
    then obtain us where us: "as = explode [f] @ us" "explode fs = us @ FLine line # bs" by blast
    from Cons.IH [OF us(2)] obtain as' bs' where "fs = as' @ FLine line # bs'" "explode as' = us" by blast
    then have "f # fs = (f # as') @ FLine line # bs' \<and> explode (f # as') = as" using us(1) by (simp add: explode_def)
    then show ?thesis by blast
  qed
qed (simp add: explode_def)

lemma bad_line_explode:
  assumes "bad_line c gs e" "explode fs = explode gs"
  shows "bad_line c fs e"
proof -
  from assms(1) obtain as line bs c1 es where gs: "gs = as @ FLine line # bs" "events c as = (c1, Inr es)"
    "get_at line 0 = Some CHR ''%''" "parse_message line = Inl e" by (auto simp: bad_line_def)
  have "explode fs = explode as @ FLine line # explode bs" unfolding assms(2) gs(1) by (simp add: explode_def)
  from explode_line [OF this] obtain as' bs' where fs: "fs = as' @ FLine line # bs'" "explode as' = explode as" by blast
  have "quiet_result (events c as') = quiet_result (c1, Inr es)"
    using events_explode [of c as'] events_explode [of c as] fs(2) gs(2) by simp
  then obtain es' where "events c as' = (c1, Inr es')"
    by (cases "events c as'") (auto simp: quiet_result_def split: sum.splits)
  with fs(1) gs(3,4) show ?thesis by (auto simp: bad_line_def)
qed

lemma follows_Nil: "follows c [] d \<longleftrightarrow> paired d c"
  by (simp add: follows_def accounts_def tokens_def)

lemma paired_pending: "paired d c \<Longrightarrow> d_state d \<noteq> Control \<Longrightarrow> c_pending c = []"
  by (auto simp: paired_def open_part_def)

lemma follows_event:
  assumes "client_event c f = (c1, Inr es)" "paired d c1" "f = FEntered \<longrightarrow> c_pending c = []" "paired d0 c"
  shows "follows c [f] d"
  using event_accounts [OF assms(1,3)] assms by (auto simp: follows_def paired_def)

lemma paired_message:
  assumes "paired d c" "d_state d = Control"
  shows "follows c [FLine line] d"
proof (cases "parse_message line")
  case (Inl e)
  with assms(1) show ?thesis by (auto simp: follows_def client_event_def bad_line_one accounts_def tokens_def)
next
  case (Inr m)
  have "paired d (c\<lparr>c_ready := True\<rparr>)" using assms by (simp add: paired_def captured_def open_ok_def)
  with assms(1) Inr show ?thesis
    by (auto simp: follows_def client_event_def accounts_def tokens_def split: message.splits)
qed

lemma paired_take_line:
  assumes "paired d c" "d_state d = Control" "take_line d line = (d1, fs, None)"
  shows "follows c fs d1"
proof (cases "d_open d")
  case (Some ob)
  with assms(3) have "block_line d line = (d1, fs, None)" by (simp add: take_line_def)
  from paired_block_line [OF assms(1) Some this] follows_event [OF _ _ _ assms(1)] show ?thesis
    by (auto simp: follows_Nil)
next
  case None
  show ?thesis
  proof (cases "strip_prefix ''%begin '' line")
    case (Some r)
    with None assms(3) have "begin_block d r = (d1, fs, None)" by (simp add: take_line_def)
    from paired_begin [OF assms(1) None assms(2) this] show ?thesis by (simp add: follows_Nil)
  next
    case no: None
    show ?thesis
    proof (cases "line = ''%exit'' \<or> prefix ''%exit '' line")
      case True
      with no None assms(3) have "d1 = d\<lparr>d_state := AwaitSt False, d_expect := [], d_pane_state := None\<rparr>"
        "fs = [FExit (exit_reason line)]" by (auto simp: take_line_def)
      moreover have "client_event c (FExit (exit_reason line)) =
          (c\<lparr>c_ready := False, c_capture := None, c_pending := []\<rparr>,
           Inr [EExited (exit_reason line) (drop_tokens [] (c_pending c))])" by (simp add: client_event_def)
      ultimately show ?thesis
        using follows_event [OF _ _ _ assms(1), of "FExit (exit_reason line)"] None
        by (simp add: paired_def open_part_def)
    next
      case False
      with no None assms(3) have "d1 = d" "fs = [FLine line]" by (auto simp: take_line_def)
      with paired_message [OF assms(1,2)] show ?thesis by simp
    qed
  qed
qed

lemma paired_update:
  "paired (d\<lparr>d_line := l\<rparr>) c = paired d c" "paired (d\<lparr>d_matched := m\<rparr>) c = paired d c"
  "paired (d\<lparr>d_armed := a\<rparr>) c = paired d c" "paired d (c\<lparr>c_decoder := d'\<rparr>) = paired d c"
  "paired d (c\<lparr>c_failed := f\<rparr>) = paired d c"
  by (simp_all add: paired_def open_part_def captured_def open_ok_def)

lemma paired_plain:
  assumes "paired d c" "d_state d \<noteq> Control"
  shows "paired (d\<lparr>d_state := Plain\<rparr>) c" "paired (d\<lparr>d_state := AwaitSt x\<rparr>) c"
    "paired (entered d) (c\<lparr>c_ready := False, c_pending := [], c_capture := None\<rparr>)"
  using assms by (auto simp: paired_def entered_def open_part_def)

lemma follows_append_ex:
  assumes "follows c fs d" "\<And>c1. paired d c1 \<Longrightarrow> \<exists>d2. follows c1 gs d2 \<and> P d2" "P d1"
  shows "\<exists>d2. follows c (fs @ gs) d2 \<and> P d2"
proof -
  from assms(1) consider c1 es where "events c fs = (c1, Inr es)" "paired d c1" "accounts c es c1"
    | c1 e where "events c fs = (c1, Inl e)" "bad_line c fs e" by (auto simp: follows_def)
  then show ?thesis
  proof cases
    case (1 c1 es)
    from assms(2) [OF 1(2)] obtain d2 where "follows c1 gs d2" "P d2" by blast
    with 1 accounts_append [OF 1(3)] show ?thesis
      by (intro exI [of _ d2]) (auto simp: follows_def events_append bad_line_after)
  next
    case (2 c1 e)
    with assms(3) show ?thesis by (auto simp: follows_def events_append bad_line_before)
  qed
qed

lemma follows_append:
  "follows c fs d \<Longrightarrow> (\<And>c1. paired d c1 \<Longrightarrow> follows c1 gs d1) \<Longrightarrow> follows c (fs @ gs) d1"
  using follows_append_ex [of c fs d gs "\<lambda>d2. d2 = d1" d1] by simp

lemma follows_pass: "paired d c \<Longrightarrow> follows c (flush q) d" "paired d c \<Longrightarrow> follows c [FPassthrough q] d"
  by (simp_all add: follows_def flush_def client_event_def accounts_def tokens_def)

lemma paired_plain_byte:
  assumes "paired d c" "d_state d = Plain" "plain_byte d b pass = (d1, p, fs)"
  shows "follows c (fs @ flush q) d1"
proof -
  have "follows c (flush (pass @ [b]) @ [FEntered]) (entered d)"
    by (rule follows_append [OF follows_pass(1) [OF assms(1)]])
      (use paired_plain(3) assms(2) paired_pending in \<open>auto intro!: follows_event simp: client_event_def\<close>)
  moreover have "paired (d\<lparr>d_matched := m\<rparr>) c" for m using assms(1) by (simp add: paired_update)
  ultimately have "follows c fs d1"
    using assms(3) by (auto simp: plain_byte_def Let_def follows_Nil entered_def split: if_splits)
  then show ?thesis by (rule follows_append) (rule follows_pass)
qed

lemma plain_byte_ESC:
  "plain_byte d ESC pass = (d\<lparr>d_matched := (if d_armed d then 1 else 0)\<rparr>, pass @ [ESC], [])"
proof -
  have "get_at MARKER k = Some ESC \<longleftrightarrow> k = 0" for k
    using marker_esc [of k] by (auto simp: get_at_def)
  then show ?thesis by (auto simp: plain_byte_def Let_def simp del: matched_same)
qed

lemma paired_await_byte:
  assumes "paired d c" "d_state d = AwaitSt esc" "await_byte d esc b pass = (d1, p, fs)"
  shows "follows c (fs @ flush p) d1"
proof -
  let ?d = "d\<lparr>d_state := Plain\<rparr>"
  let ?e = "?d\<lparr>d_matched := (if d_armed d then 1 else 0)\<rparr>"
  have pl: "paired ?d c" "paired ?e c"
    using paired_plain(1) [OF assms(1)] assms(2) by (simp_all only: paired_update) simp_all
  note ev = follows_pass(1) [of _ c p]
  consider "\<not> esc" "b = ESC" | "esc" "b = CHR 0x5C" | "\<not> esc" "b \<noteq> ESC" | "esc" "b \<noteq> CHR 0x5C" by blast
  then show ?thesis
  proof cases
    case 1
    with assms ev paired_plain(2) [OF assms(1), of True] show ?thesis by (simp add: await_byte_def)
  next
    case 2
    with assms ev pl(1) show ?thesis by (simp add: await_byte_def)
  next
    case 3
    with assms(3) have "plain_byte ?d b pass = (d1, p, fs)" by (simp add: await_byte_def split: prod.splits)
    with paired_plain_byte [OF pl(1)] show ?thesis by simp
  next
    case 4
    with assms(3) have "plain_byte ?e b (pass @ [ESC]) = (d1, p, fs)"
      by (simp add: await_byte_def plain_byte_ESC split: prod.splits)
    with paired_plain_byte [OF pl(2)] show ?thesis by simp
  qed
qed

lemma paired_byte:
  assumes "paired d c" "dec_byte d b = (d1, fs, None)"
  shows "follows c fs d1"
proof (cases "d_state d")
  case Plain
  obtain d2 p2 f2 where "plain_byte d b [] = (d2, p2, f2)" by (cases "plain_byte d b []")
  with paired_plain_byte [OF assms(1) Plain this, of p2] Plain assms(2) show ?thesis
    by (simp add: dec_byte_def)
next
  case Control
  with assms paired_take_line [of "d\<lparr>d_line := []\<rparr>" c] show ?thesis
    by (auto simp: dec_byte_def finish_line_def push_line_bytes_def paired_update follows_Nil Let_def
        split: if_splits)
next
  case (AwaitSt esc)
  obtain d2 p2 f2 where "await_byte d esc b [] = (d2, p2, f2)" by (cases "await_byte d esc b []")
  with paired_await_byte [OF assms(1) AwaitSt this] AwaitSt assms(2) show ?thesis
    by (simp add: dec_byte_def)
qed

lemma dec_byte_error: "dec_byte d b = (d1, fs, Some e) \<Longrightarrow> fs = []"
  by (auto simp: dec_byte_def finish_line_def take_line_def block_line_def begin_block_def Let_def
      split: state.splits if_splits prod.splits sum.splits option.splits list.splits)

lemma paired_run:
  assumes "paired d c" "dec_run d bs = (d1, fs, r)"
  shows "\<exists>d2. follows c fs d2 \<and> (r = None \<longrightarrow> d2 = d1)"
  using assms
proof (induction bs arbitrary: d c fs)
  case Nil
  then show ?case by (auto simp: follows_Nil)
next
  case (Cons b bs)
  obtain d2 gs e where b: "dec_byte d b = (d2, gs, e)" by (cases "dec_byte d b")
  show ?case
  proof (cases e)
    case (Some err)
    with dec_byte_error [of d b d2 gs err] b Cons.prems show ?thesis
      by (auto simp: follows_Nil intro!: exI [of _ d])
  next
    case None
    obtain d3 hs e' where bs: "dec_run d2 bs = (d3, hs, e')" by (cases "dec_run d2 bs")
    with None b Cons.prems(2) have "fs = gs @ hs" "d3 = d1" "e' = r" by auto
    moreover have "follows c gs d2" using paired_byte [OF Cons.prems(1)] b None by simp
    moreover have "\<exists>d4. follows c1 hs d4 \<and> (r = None \<longrightarrow> d4 = d1)" if "paired d2 c1" for c1
      using Cons.IH [OF that] bs calculation by simp
    ultimately show ?thesis
      using follows_append_ex [of c gs d2 hs "\<lambda>d4. r = None \<longrightarrow> d4 = d1" d1] by simp
  qed
qed

section \<open>The client\<close>

definition client_running :: "client \<Rightarrow> bool" where
  "client_running c \<longleftrightarrow> \<not> c_failed c \<and> decoder_wf (c_decoder c) \<and> \<not> d_poisoned (c_decoder c) \<and>
     paired (c_decoder c) c \<and> length (c_pending c) \<le> MAX_PENDING"

lemma new_client_running: "client_running (new_client l)" "client_running (in_control_client l)"
  using new_decoder_wf [of l]
  by (simp_all add: client_running_def new_client_def in_control_client_def with_decoder_def paired_def
      new_decoder_def in_control_def open_part_def MAX_PENDING_def)

lemma client_arm_running: "client_running c \<Longrightarrow> client_running (client_arm c a)"
  using arm_wf [of "c_decoder c" a]
  by (auto simp: client_running_def client_arm_def arm_def Let_def paired_update)

lemma event_pending: "client_event c f = (c1, r) \<Longrightarrow> length (c_pending c1) \<le> length (c_pending c)"
  by (auto simp: client_event_def reply_event_def Let_def split: frame.splits sum.splits message.splits
      list.splits part.splits option.splits prod.splits if_splits)

lemma events_pending: "events c fs = (c1, r) \<Longrightarrow> length (c_pending c1) \<le> length (c_pending c)"
  by (induction fs arbitrary: c r)
    (auto split: prod.splits sum.splits dest!: event_pending, (metis order_trans)+)

lemma event_failed: "client_event c f = (c1, r) \<Longrightarrow> c_failed c1 = c_failed c \<and> c_decoder c1 = c_decoder c \<and> c_next c1 = c_next c"
  by (auto simp: client_event_def reply_event_def Let_def split: frame.splits sum.splits message.splits
      list.splits part.splits option.splits prod.splits if_splits)

lemma events_failed: "events c fs = (c1, r) \<Longrightarrow> c_failed c1 = c_failed c \<and> c_decoder c1 = c_decoder c \<and> c_next c1 = c_next c"
  by (induction fs arbitrary: c r)
    (auto split: prod.splits sum.splits dest!: event_failed)

text \<open>Feeding the frames the decoder gave is following the byte-at-a-time decoder.\<close>

lemma quiet_resultE:
  assumes "quiet_result r = quiet_result (c1, Inr es)"
  obtains es' where "r = (c1, Inr es')" "quiet es' = quiet es"
  using assms by (cases r) (auto simp: quiet_result_def split: sum.splits prod.splits)

lemma tokens_quiet: "tokens (quiet es) = tokens es"
  by (induction es) (auto simp: tokens_def quiet_def split: event.splits)

lemma feed_follows:
  assumes "client_running c" "feed (c_decoder c) input = (d1, fs, r)"
  shows "\<exists>d2. follows c fs d2 \<and> (r = None \<longrightarrow> d2 = d1)"
proof -
  let ?d = "c_decoder c"
  have d: "decoder_wf ?d" "\<not> d_poisoned ?d" "paired ?d c" using assms(1) by (auto simp: client_running_def)
  have "agree (feed_inner ?d input) (dec_run ?d input)"
    using feed_loop_agree [OF d(1), of "[]" input] by (simp add: feed_inner_def flush_def)
  moreover obtain d3 gs r3 where run: "dec_run ?d input = (d3, gs, r3)" by (cases "dec_run ?d input")
  ultimately have ex: "explode fs = explode gs" "r3 = r" "r = None \<longrightarrow> d3 = d1"
    using assms(2) d(2) by (auto simp: feed_def agree_def split: prod.splits option.splits)
  from paired_run [OF d(3) run] obtain d2 where d2: "follows c gs d2" "r = None \<longrightarrow> d2 = d1"
    using ex by auto
  have q: "quiet_result (events c fs) = quiet_result (events c gs)"
    using events_explode [of c fs] events_explode [of c gs] ex(1) by simp
  have "follows c fs d2"
  proof (cases "events c gs")
    case (Pair c1 r1)
    show ?thesis
    proof (cases r1)
      case (Inl e)
      with q Pair have "events c fs = (c1, Inl e)"
        by (cases "events c fs") (auto simp: quiet_result_def split: sum.splits)
      with d2(1) Pair Inl show ?thesis using bad_line_explode [OF _ ex(1)] by (auto simp: follows_def)
    next
      case (Inr es)
      with q Pair obtain es' where "events c fs = (c1, Inr es')" "quiet es' = quiet es"
        using quiet_resultE by metis
      moreover from this have "tokens es' = tokens es" using tokens_quiet by metis
      ultimately show ?thesis using d2(1) Pair Inr by (auto simp: follows_def accounts_def)
    qed
  qed
  with d2(2) show ?thesis by blast
qed

lemma client_feed_cases:
  assumes "client_running c"
  shows "(\<exists>c1 es. client_feed c input = (c1, Inr es) \<and> client_running c1 \<and> accounts c es c1) \<or>
    (\<exists>c1 e. client_feed c input = (c1, Inl e) \<and> c_failed c1 \<and>
      (case feed (c_decoder c) input of (_, fs, r) \<Rightarrow>
         bad_line c fs e \<or> (\<exists>c2 es. events c fs = (c2, Inr es)) \<and> r = Some e))"
proof -
  obtain d fs r where f: "feed (c_decoder c) input = (d, fs, r)" by (cases "feed (c_decoder c) input")
  from feed_follows [OF assms f] obtain d2 where d2: "follows c fs d2" "r = None \<longrightarrow> d2 = d" by blast
  have run: "running (Inr (c_decoder c))" and nf: "\<not> c_failed c" "length (c_pending c) \<le> MAX_PENDING"
    using assms by (auto simp: running_def client_running_def)
  have wf: "r = None \<longrightarrow> decoder_wf d \<and> \<not> d_poisoned d"
    using feed_run_inv [OF run, of input] f by (auto simp: feed_run_def running_def)
  obtain c1 q where ev: "events c fs = (c1, q)" by (cases "events c fs")
  have cf: "client_feed c input =
      (case q of
         Inl e \<Rightarrow> (c1\<lparr>c_decoder := d, c_failed := True\<rparr>, Inl e)
       | Inr es \<Rightarrow>
           (case r of
              None \<Rightarrow> (c1\<lparr>c_decoder := d\<rparr>, Inr es)
            | Some e \<Rightarrow> (c1\<lparr>c_decoder := d, c_failed := True\<rparr>, Inl e)))"
    using nf(1) f ev by (simp add: client_feed_def events_decoder split: sum.splits option.splits)
  show ?thesis
  proof (cases q)
    case (Inl e)
    with cf d2(1) ev f show ?thesis by (auto simp: follows_def)
  next
    case (Inr es)
    show ?thesis
    proof (cases r)
      case (Some e)
      with cf Inr f ev show ?thesis by auto
    next
      case None
      with d2 ev Inr have "paired d c1" "accounts c es c1" by (auto simp: follows_def)
      moreover have "\<not> c_failed c1" "length (c_pending c1) \<le> MAX_PENDING"
        using events_failed [OF ev] events_pending [OF ev] nf by auto
      ultimately show ?thesis
        using cf Inr None wf by (auto simp: client_running_def paired_update accounts_def)
    qed
  qed
qed

section \<open>Submitting\<close>

lemma caps_ok_append: "caps_ok ps \<Longrightarrow> caps_ok qs \<Longrightarrow> caps_ok (ps @ qs)"
  by (induction ps rule: caps_ok.induct) auto

lemma pend_ok_append: "pend_ok ps \<Longrightarrow> caps_ok qs \<Longrightarrow> pend_ok (ps @ qs)"
  using caps_ok_append [of ps qs]
  by (cases ps rule: pend_ok.cases) (auto simp: caps_ok_append pend_ok_caps)

definition queued :: "token \<Rightarrow> expect list \<Rightarrow> client \<Rightarrow> client" where
  "queued t es c =
     c\<lparr>c_pending := c_pending c @ map (\<lambda>e. (t, expect_part e)) es,
       c_decoder := (c_decoder c)\<lparr>d_expect := d_expect (c_decoder c) @ es\<rparr>\<rparr>"

lemma fold_queue_expect: "fold (queue_expect t) es c = queued t es c"
proof (induction es arbitrary: c)
  case Nil
  then show ?case by (cases c, cases "c_decoder c") (simp add: queued_def)
next
  case (Cons e es)
  then show ?case by (simp add: queued_def queue_expect_def expect_next_def)
qed

lemma expects_shape: "expects cmd = [ExpectAny] \<or> (\<exists>h. expects cmd = [ExpectPaneState, ExpectCapture h])"
  by (cases cmd) auto

lemma paired_queued:
  assumes "paired (c_decoder c) c" "d_state (c_decoder c) = Control"
  shows "paired (c_decoder (queued t (expects cmd) c)) (queued t (expects cmd) c)"
proof -
  let ?qs = "map (\<lambda>e. (t, expect_part e)) (expects cmd)"
  have q: "caps_ok ?qs" "\<forall>n. ExpectRows n \<notin> set (expects cmd)"
    using expects_shape [of cmd] by (auto simp: expect_part_def)
  have cap: "captured (queued t (expects cmd) c) s" if "captured c s" for s
    using that by (auto simp: captured_def queued_def)
  let ?c = "queued t (expects cmd) c"
  have same: "c_pending ?c = c_pending c @ ?qs" "d_expect (c_decoder ?c) = d_expect (c_decoder c) @ expects cmd"
    "d_open (c_decoder ?c) = d_open (c_decoder c)" "d_pane_state (c_decoder ?c) = d_pane_state (c_decoder c)"
    "d_state (c_decoder ?c) = d_state (c_decoder c)" "c_ready ?c = c_ready c"
    by (simp_all add: queued_def)
  have "open_ok ?c ob" if "open_ok c ob" for ob using that cap by (auto simp: open_ok_def)
  with assms q pend_ok_append [OF _ q(1), of "c_pending c"] cap show ?thesis
    unfolding paired_def same by (simp add: open_part_def same comp_def)
qed

lemma submit_cases:
  "(\<exists>e. submit c cmd = (c, Inl e)) \<or>
    (\<exists>line. render cmd = Inr line \<and> \<not> c_failed c \<and> c_ready c \<and>
      length (c_pending c) + length (expects cmd) \<le> MAX_PENDING \<and> \<not> capture_too_big c cmd \<and>
      submit c cmd =
        (queued (Token (c_next c)) (expects cmd) (c\<lparr>c_next := (c_next c + 1) mod 2 ^ 64\<rparr>),
         Inr (Token (c_next c), line @ [CHR 0x0A])))"
  by (cases "render cmd") (simp_all add: submit_def fold_queue_expect Let_def not_less)

lemma submit_running: "client_running c \<Longrightarrow> client_running (fst (submit c cmd))"
proof -
  assume c: "client_running c"
  let ?c = "c\<lparr>c_next := (c_next c + 1) mod 2 ^ 64\<rparr>"
  let ?q = "queued (Token (c_next c)) (expects cmd) ?c"
  have pc: "paired (c_decoder ?c) ?c"
    using c by (simp add: client_running_def paired_def captured_def open_ok_def)
  from submit_cases [of c cmd] consider e where "submit c cmd = (c, Inl e)"
    | r where "submit c cmd = (?q, r)" "c_ready c" "length (c_pending c) + length (expects cmd) \<le> MAX_PENDING"
    by blast
  then show ?thesis
  proof cases
    case 1
    with c show ?thesis by simp
  next
    case 2
    with c have "d_state (c_decoder ?c) = Control" by (auto simp: client_running_def paired_def)
    from paired_queued [OF pc this, of "Token (c_next c)" cmd] c 2 show ?thesis
      by (simp add: client_running_def) (simp add: queued_def decoder_wf_def)
  qed
qed

section \<open>A reply from end to end\<close>

definition block_stream :: "bool \<Rightarrow> bytes \<Rightarrow> bytes list \<Rightarrow> bool \<Rightarrow> bytes" where
  "block_stream cr hdr rs good =
     line_bytes cr (''%begin '' @ hdr) @ concat (map (line_bytes cr) rs) @ line_bytes cr (end_word good @ hdr)"

text \<open>A header a solicited block can have, with lines that fit.\<close>

definition header_ok :: "limits \<Rightarrow> bool \<Rightarrow> bytes \<Rightarrow> bool" where
  "header_ok l cr hdr \<longleftrightarrow> line_fits l cr (''%begin '' @ hdr) \<and>
     (case parse_header hdr of None \<Rightarrow> False | Some (_, _, flags) \<Rightarrow> flags mod 2 = 1)"

definition rows_fit :: "limits \<Rightarrow> bool \<Rightarrow> bytes list \<Rightarrow> bool" where
  "rows_fit l cr rs \<longleftrightarrow> list_all (line_fits l cr) rs \<and> length rs \<le> max_block_lines l \<and>
     rows_bytes rs \<le> max_block_bytes l"

text \<open>A client between two replies: in control mode, no line begun, no block open.\<close>

definition idle :: "client \<Rightarrow> bool" where
  "idle c \<longleftrightarrow> d_state (c_decoder c) = Control \<and> d_line (c_decoder c) = [] \<and> d_open (c_decoder c) = None"

lemma feed_dec_run:
  assumes "decoder_wf d" "\<not> d_poisoned d" "dec_run d input = (d1, gs, None)"
    and "\<forall>f\<in>set gs. \<forall>bs. f \<noteq> FPassthrough bs"
  shows "feed d input = (d1, gs, None)"
proof -
  have gs: "explode gs = gs" using assms(4) by (induction gs) (auto simp: explode_def split: frame.splits)
  have "feed_run (Inr d) input = (Inr d1, gs)" using feed_eq_dec_run [OF assms(1,2), of input] assms(3) gs by simp
  then obtain fs where f: "feed d input = (d1, fs, None)" "explode fs = gs"
    by (auto simp: feed_run_def split: prod.splits option.splits)
  with explode_id [of fs] assms(4) show ?thesis by simp
qed

lemma dec_run_block_stream:
  assumes "d_state d = Control" "d_line d = []" "d_open d = None" "d_expect d = e # es"
    and "header_ok (d_limits d) cr hdr" "promised e (d_pane_state d) = Inr (rows, keep)" "rows_fit (d_limits d) cr rs"
    and "rows = Some (length rs) \<or> (rows = None \<and> (\<forall>r\<in>set rs. r \<noteq> ''%end '' @ hdr \<and> r \<noteq> ''%error '' @ hdr))"
    and "kept_state keep good rs None = Inr ps"
  shows "\<exists>tm num. dec_run d (block_stream cr hdr rs good @ rest) =
    emit [FBlock \<lparr>b_time = tm, b_number = num, b_solicited = True, b_ok = good, b_lines = rs\<rparr>]
      (dec_run (d\<lparr>d_expect := es, d_pane_state := ps\<rparr>) rest)"
proof -
  from assms(5) obtain tm num flags where h: "parse_header hdr = Some (tm, num, flags)" "flags mod 2 = 1"
    "line_fits (d_limits d) cr (''%begin '' @ hdr)"
    by (auto simp: header_ok_def split: option.splits)
  let ?ob = "\<lparr>o_header = hdr, o_time = tm, o_number = num, o_solicited = True, o_rows = rows,
    o_pane_state = keep, o_lines = [], o_bytes = 0\<rparr>"
  have free: "terminator ?ob r = None" if "r \<noteq> ''%end '' @ hdr" "r \<noteq> ''%error '' @ hdr" for r
    using that terminator_SomeD [of ?ob r] by (cases "terminator ?ob r") (auto simp: end_word_def split: if_splits)
  have "takes_rows (d_limits d) ?ob rs"
    using assms(8)
  proof
    assume "rows = Some (length rs)"
    with assms(7) show ?thesis by (simp add: takes_rows_def rows_fit_def)
  next
    assume none: "rows = None \<and> (\<forall>r\<in>set rs. r \<noteq> ''%end '' @ hdr \<and> r \<noteq> ''%error '' @ hdr)"
    have "\<forall>r\<in>set rs. terminator ?ob r = None"
      by (intro ballI free)
        (erule none [THEN conjunct2, THEN bspec, THEN conjunct1], erule none [THEN conjunct2, THEN bspec, THEN conjunct2])
    with assms(7) none [THEN conjunct1] show ?thesis by (simp add: takes_rows_def rows_fit_def)
  qed
  from dec_run_reply [OF assms(1-4) h(1,2) assms(6) h(3) _ refl this _ assms(9), of rest] assms(7,8)
  show ?thesis by (auto simp: block_stream_def rows_fit_def list_all_iff)
qed

lemma reply_whole_idle:
  assumes c: "client_running c" "idle c" and pend: "c_pending c = (t, Whole) # ps"
    and hdr: "header_ok (d_limits (c_decoder c)) cr hdr" and rs: "rows_fit (d_limits (c_decoder c)) cr rs"
    and free: "\<forall>r\<in>set rs. r \<noteq> ''%end '' @ hdr \<and> r \<noteq> ''%error '' @ hdr"
  shows "\<exists>c1. client_feed c (block_stream cr hdr rs good) =
      (c1, Inr [EReply t (if good then Inr rs else Inl rs)]) \<and> c_pending c1 = ps \<and> idle c1 \<and> c_ready c1 = c_ready c \<and>
      d_limits (c_decoder c1) = d_limits (c_decoder c)"
proof -
  let ?d = "c_decoder c"
  have d: "decoder_wf ?d" "\<not> d_poisoned ?d" "\<not> c_failed c" and pd: "paired ?d c"
    using c(1) by (auto simp: client_running_def)
  have st: "d_state ?d = Control" "d_line ?d = []" "d_open ?d = None" using c(2) by (auto simp: idle_def)
  have "map snd (c_pending c) = map expect_part (d_expect ?d)" "\<forall>n. ExpectRows n \<notin> set (d_expect ?d)"
    using pd st by (auto simp: paired_def open_part_def)
  then obtain e es where q: "d_expect ?d = e # es" "expect_part e = Whole" "\<forall>n. e \<noteq> ExpectRows n"
    using pend by (cases "d_expect ?d") auto
  then have "e = ExpectAny" by (cases e) (auto simp: expect_part_def)
  then have pr: "promised e (d_pane_state ?d) = Inr (None, False)" by (simp add: promised_def)
  obtain tm num where "dec_run ?d (block_stream cr hdr rs good) =
      (?d\<lparr>d_expect := es, d_pane_state := None\<rparr>,
       [FBlock \<lparr>b_time = tm, b_number = num, b_solicited = True, b_ok = good, b_lines = rs\<rparr>], None)"
    using dec_run_block_stream [OF st q(1) hdr pr rs, of good None "[]"] free by (auto simp: kept_state_def)
  from feed_dec_run [OF d(1,2) this] d(3) pend st show ?thesis
    by (auto simp: client_feed_def client_event_def reply_event_def idle_def Let_def)
qed

lemma reply_whole:
  assumes "client_running c" "idle c" "c_pending c = (t, Whole) # ps"
    and "header_ok (d_limits (c_decoder c)) cr hdr" "rows_fit (d_limits (c_decoder c)) cr rs"
    and "\<forall>r\<in>set rs. r \<noteq> ''%end '' @ hdr \<and> r \<noteq> ''%error '' @ hdr"
  shows "\<exists>c1. client_feed c (block_stream cr hdr rs good) =
      (c1, Inr [EReply t (if good then Inr rs else Inl rs)]) \<and> c_pending c1 = ps"
  using reply_whole_idle [OF assms] by blast

lemma state_line_not_end:
  "join_words (state_fields s) \<noteq> ''%end '' @ hdr" "join_words (state_fields s) \<noteq> ''%error '' @ hdr"
proof -
  obtain b r where b: "show_nat (pane_num (state_id s)) = b # r" by (cases "show_nat (pane_num (state_id s))") auto
  then have "is_digit b" using show_nat_digits [of b "pane_num (state_id s)"] by simp
  then have "b \<noteq> CHR ''e''" by (auto simp: is_digit_def)
  then show "join_words (state_fields s) \<noteq> ''%end '' @ hdr" "join_words (state_fields s) \<noteq> ''%error '' @ hdr"
    by (simp_all add: state_fields_def show_pane_id_def show_id_def b)
qed

lemma reply_capture:
  assumes c: "client_running c" "idle c"
    and pend: "c_pending c = (t, CaptureState) # (t, CaptureRows) # ps"
    and q: "d_expect (c_decoder c) = ExpectPaneState # ExpectCapture h # es"
    and hdr: "header_ok (d_limits (c_decoder c)) cr hdr1" "header_ok (d_limits (c_decoder c)) cr hdr2"
    and s: "pane_state_wf s" "rows_fit (d_limits (c_decoder c)) cr [join_words (state_fields s)]"
    and rs: "rows_fit (d_limits (c_decoder c)) cr rs" "length rs = min h (history_size s) + height s"
  shows "\<exists>c1. client_feed c (block_stream cr hdr1 [join_words (state_fields s)] True @
      block_stream cr hdr2 rs True) = (c1, Inr [ECapture t s rs]) \<and> c_pending c1 = ps"
proof -
  let ?d = "c_decoder c" and ?l = "join_words (state_fields s)"
  let ?d1 = "?d\<lparr>d_expect := ExpectCapture h # es, d_pane_state := Some s\<rparr>"
  have d: "decoder_wf ?d" "\<not> d_poisoned ?d" "\<not> c_failed c" using c(1) by (auto simp: client_running_def)
  have st: "d_state ?d = Control" "d_line ?d = []" "d_open ?d = None" using c(2) by (auto simp: idle_def)
  have ps: "parse_pane_state [?l] = Inr s" by (rule parse_pane_state_show) (rule s)
  have 1: "promised ExpectPaneState (d_pane_state ?d) = Inr (None, True)" by (simp add: promised_def)
  have k1: "kept_state True True [?l] None = Inr (Some s)" by (simp add: kept_state_def ps)
  obtain t1 n1 where r1: "dec_run ?d (block_stream cr hdr1 [?l] True @ block_stream cr hdr2 rs True) =
      emit [FBlock \<lparr>b_time = t1, b_number = n1, b_solicited = True, b_ok = True, b_lines = [?l]\<rparr>]
        (dec_run ?d1 (block_stream cr hdr2 rs True))"
    using dec_run_block_stream [OF st q hdr(1) 1 s(2) _ k1, of "block_stream cr hdr2 rs True"]
      state_line_not_end [of s hdr1] by auto
  have 2: "promised (ExpectCapture h) (Some s) = Inr (Some (length rs), False)" by (simp add: promised_def rs(2))
  obtain t2 n2 where r2: "dec_run ?d1 (block_stream cr hdr2 rs True) =
      (?d1\<lparr>d_expect := es, d_pane_state := None\<rparr>,
       [FBlock \<lparr>b_time = t2, b_number = n2, b_solicited = True, b_ok = True, b_lines = rs\<rparr>], None)"
    using dec_run_block_stream [of ?d1 "ExpectCapture h" es cr hdr2 "Some (length rs)" False rs True None "[]"]
      st hdr(2) rs(1) 2 by (auto simp: kept_state_def)
  from r1 r2 feed_dec_run [OF d(1,2)] d(3) pend ps show ?thesis
    by (auto simp: client_feed_def client_event_def reply_event_def Let_def)
qed

section \<open>Reachable clients\<close>

inductive client_reach :: "limits \<Rightarrow> client \<Rightarrow> bool" for l where
  start: "client_reach l (new_client l)"
| start_control: "client_reach l (in_control_client l)"
| armed: "client_reach l c \<Longrightarrow> client_reach l (client_arm c a)"
| submitted: "client_reach l c \<Longrightarrow> client_reach l (fst (submit c cmd))"
| fed: "client_reach l c \<Longrightarrow> client_reach l (fst (client_feed c input))"
| failed: "client_reach l c \<Longrightarrow> client_reach l (fail_client c)"

lemma failed_client:
  "c_failed c \<Longrightarrow> client_feed c input = (c, Inl Poisoned)" "c_failed c \<Longrightarrow> submit c cmd = (c, Inl Poisoned)"
  by (simp_all add: client_feed_def submit_def)

lemma client_reach_running: "client_reach l c \<Longrightarrow> c_failed c \<or> client_running c"
proof (induction rule: client_reach.induct)
  case (armed c a)
  then show ?case using client_arm_running [of c a] by (auto simp: client_arm_def)
next
  case (submitted c cmd)
  then show ?case using submit_running [of c cmd] failed_client(2) [of c cmd] by auto
next
  case (fed c input)
  then show ?case using client_feed_cases [of c input] failed_client(1) [of c input] by auto
qed (simp_all add: new_client_running fail_client_def)

lemma submit_idle:
  assumes "submit c cmd = (c1, Inr (t, line))" "client_running c" "idle c" "c_pending c = []"
  shows "client_running c1" "idle c1" "d_limits (c_decoder c1) = d_limits (c_decoder c)"
    "c_pending c1 = map (\<lambda>e. (t, expect_part e)) (expects cmd)" "d_expect (c_decoder c1) = expects cmd"
proof -
  have c1: "c1 = queued t (expects cmd) (c\<lparr>c_next := (c_next c + 1) mod 2 ^ 64\<rparr>)"
    using submit_cases [of c cmd] assms(1) by auto
  have "d_expect (c_decoder c) = []"
    using assms(2-4) by (auto simp: client_running_def paired_def)
  then show "c_pending c1 = map (\<lambda>e. (t, expect_part e)) (expects cmd)" "d_expect (c_decoder c1) = expects cmd"
    "idle c1" "d_limits (c_decoder c1) = d_limits (c_decoder c)"
    using c1 assms(3,4) by (simp_all add: queued_def idle_def)
  show "client_running c1" using submit_running [OF assms(2), of cmd] assms(1) by simp
qed

section \<open>Tokens\<close>

text \<open>The tokens owed are consecutive numbers that end before the next one.\<close>

definition token_run :: "nat \<Rightarrow> nat \<Rightarrow> token list" where
  "token_run b n = map (\<lambda>i. Token ((b + i) mod 2 ^ 64)) [0..<n]"

definition numbered :: "client \<Rightarrow> bool" where
  "numbered c \<longleftrightarrow> (\<exists>b n. remdups_adj (map fst (c_pending c)) = token_run b n \<and> c_next c = (b + n) mod 2 ^ 64)"

lemma token_run_Suc: "token_run b (Suc n) = token_run b n @ [Token ((b + n) mod 2 ^ 64)]"
  by (simp add: token_run_def)

lemma token_run_suffix:
  assumes "xs @ ys = token_run b n"
  shows "ys = token_run (b + length xs) (length ys)" "length xs + length ys = n"
proof -
  show n: "length xs + length ys = n" using arg_cong [OF assms, of length] by (simp add: token_run_def)
  have "ys ! i = token_run (b + length xs) (length ys) ! i" if "i < length ys" for i
    using that n arg_cong [OF assms, of "\<lambda>l. l ! (length xs + i)"] by (simp add: token_run_def add.assoc)
  then show "ys = token_run (b + length xs) (length ys)" by (intro nth_equalityI) (simp_all add: token_run_def)
qed

lemma token_run_fresh:
  assumes "n < 2 ^ 64"
  shows "Token ((b + n) mod 2 ^ 64) \<notin> set (token_run b n)"
proof
  assume "Token ((b + n) mod 2 ^ 64) \<in> set (token_run b n)"
  then obtain i where i: "i < n" "(b + n) mod 2 ^ 64 = (b + i) mod 2 ^ 64" by (auto simp: token_run_def)
  then have "2 ^ 64 dvd n - i" using mod_eq_dvd_iff_nat [of "b + i" "b + n" "2 ^ 64"] by simp
  with i(1) have "2 ^ 64 \<le> n - i" by (intro dvd_imp_le) auto
  with assms show False by simp
qed

lemma remdups_adj_suffix: "\<exists>zs. remdups_adj (xs @ ys) = zs @ remdups_adj ys"
proof (induction xs)
  case (Cons x xs)
  then obtain zs where "remdups_adj (xs @ ys) = zs @ remdups_adj ys" by blast
  moreover have "remdups_adj (x # xs @ ys) = remdups_adj (xs @ ys) \<or> remdups_adj (x # xs @ ys) = x # remdups_adj (xs @ ys)"
    by (simp add: remdups_adj_Cons split: list.split)
  ultimately show ?case by (metis append_Cons)
qed simp

lemma remdups_adj_new: "t \<notin> set xs \<Longrightarrow> remdups_adj (xs @ replicate (Suc n) t) = remdups_adj xs @ [t]"
proof (induction xs rule: remdups_adj.induct)
  case 1
  then show ?case using remdups_adj_replicate [of "Suc n" t] by simp
next
  case (2 x)
  then show ?case using remdups_adj_replicate [of "Suc n" t] by (auto simp: remdups_adj_Cons)
qed simp_all

lemma numbered_fresh:
  assumes "numbered c" "length (c_pending c) \<le> MAX_PENDING"
  shows "Token (c_next c) \<notin> fst ` set (c_pending c)"
proof -
  obtain b n where r: "remdups_adj (map fst (c_pending c)) = token_run b n" "c_next c = (b + n) mod 2 ^ 64"
    using assms(1) by (auto simp: numbered_def)
  have "n = length (remdups_adj (map fst (c_pending c)))" by (simp add: r token_run_def)
  then have "n \<le> length (c_pending c)" using remdups_adj_length [of "map fst (c_pending c)"] by simp
  with assms(2) have "n < 2 ^ 64" by (simp add: MAX_PENDING_def)
  from token_run_fresh [OF this, of b] r have "Token (c_next c) \<notin> set (remdups_adj (map fst (c_pending c)))" by simp
  then show ?thesis by simp
qed

lemma submit_numbered:
  assumes "numbered c" "length (c_pending c) \<le> MAX_PENDING"
  shows "numbered (fst (submit c cmd))"
proof -
  obtain b n where r: "remdups_adj (map fst (c_pending c)) = token_run b n" "c_next c = (b + n) mod 2 ^ 64"
    using assms(1) by (auto simp: numbered_def)
  have e: "map fst (map (\<lambda>e. (Token (c_next c), expect_part e)) (expects cmd)) =
      replicate (Suc (length (expects cmd) - 1)) (Token (c_next c))"
    using expects_shape [of cmd] by auto
  have "Token (c_next c) \<notin> set (map fst (c_pending c))" using numbered_fresh [OF assms] by simp
  from remdups_adj_new [OF this, of "length (expects cmd) - 1"]
  have "remdups_adj (map fst (c_pending c @ map (\<lambda>e. (Token (c_next c), expect_part e)) (expects cmd))) = token_run b (Suc n)"
    unfolding map_append e by (simp add: r token_run_Suc)
  moreover have "(c_next c + 1) mod 2 ^ 64 = (b + Suc n) mod 2 ^ 64" unfolding r(2) by (simp add: mod_simps)
  ultimately have "numbered (queued (Token (c_next c)) (expects cmd) (c\<lparr>c_next := (c_next c + 1) mod 2 ^ 64\<rparr>))"
    unfolding numbered_def queued_def by (intro exI [of _ b] exI [of _ "Suc n"]) simp
  then show ?thesis using submit_cases [of c cmd] assms(1) by auto
qed

lemma client_feed_next: "c_next (fst (client_feed c input)) = c_next c"
proof -
  obtain d fs r where f: "feed (c_decoder c) input = (d, fs, r)" by (cases "feed (c_decoder c) input")
  obtain c1 q where ev: "events (c\<lparr>c_decoder := d\<rparr>) fs = (c1, q)" by (cases "events (c\<lparr>c_decoder := d\<rparr>) fs")
  then show ?thesis using events_failed [OF ev] f by (auto simp: client_feed_def split: sum.splits option.splits)
qed

lemma accounts_numbered:
  assumes "numbered c" "accounts c es c1" "c_next c1 = c_next c"
  shows "numbered c1"
proof -
  obtain b n where r: "remdups_adj (map fst (c_pending c)) = token_run b n" "c_next c = (b + n) mod 2 ^ 64"
    using assms(1) by (auto simp: numbered_def)
  obtain zs where "zs @ remdups_adj (map fst (c_pending c1)) = token_run b n"
    using assms(2) r(1) remdups_adj_suffix [of "tokens es" "map fst (c_pending c1)"] by (auto simp: accounts_def)
  note s = token_run_suffix [OF this]
  have "(b + n) mod 2 ^ 64 = (b + length zs + length (remdups_adj (map fst (c_pending c1)))) mod 2 ^ 64"
    by (simp add: add.assoc flip: s(2))
  with s(1) show ?thesis unfolding numbered_def assms(3) r(2) by blast
qed

lemma client_reach_numbered: "client_reach l c \<Longrightarrow> c_failed c \<or> client_running c \<and> numbered c"
proof (induction rule: client_reach.induct)
  case (armed c a)
  then show ?case using client_arm_running [of c a] by (auto simp: client_arm_def numbered_def)
next
  case (submitted c cmd)
  then show ?case
    using submit_running [of c cmd] submit_numbered [of c cmd] failed_client(2) [of c cmd] by (auto simp: client_running_def)
next
  case (fed c input)
  then show ?case
    using client_feed_cases [of c input] client_feed_next [of c input] accounts_numbered [of c] failed_client(1) [of c input] by auto
next
  case start
  have "numbered (new_client l)"
    unfolding numbered_def by (intro exI [of _ 0]) (simp add: token_run_def new_client_def with_decoder_def)
  then show ?case using new_client_running(1) by blast
next
  case start_control
  have "numbered (in_control_client l)"
    unfolding numbered_def by (intro exI [of _ 0]) (simp add: token_run_def in_control_client_def with_decoder_def)
  then show ?case using new_client_running(2) by blast
qed (simp add: fail_client_def)

section \<open>A client that is ready\<close>

definition ready :: "client \<Rightarrow> (token \<times> part) list \<Rightarrow> bool" where
  "ready c ps \<longleftrightarrow> client_running c \<and> idle c \<and> c_ready c \<and> c_pending c = ps \<and> d_limits (c_decoder c) = default_limits"

lemma submit_ready:
  assumes "ready c ps" "length ps < MAX_PENDING" "render cmd = Inr line" "expects cmd = [ExpectAny]" "\<not> capture_too_big c cmd"
  shows "\<exists>c1 bs. submit c cmd = (c1, Inr (Token (c_next c), bs)) \<and> ready c1 (ps @ [(Token (c_next c), Whole)]) \<and>
    c_next c1 = (c_next c + 1) mod 2 ^ 64"
proof -
  have c: "\<not> c_failed c" "in_control_mode (c_decoder c)" "c_ready c" "c_pending c = ps"
    using assms(1) by (auto simp: ready_def client_running_def idle_def in_control_mode_def)
  obtain c1 bs where s: "submit c cmd = (c1, Inr (Token (c_next c), bs))" "idle c1" "c_ready c1"
      "c_pending c1 = ps @ [(Token (c_next c), Whole)]" "d_limits (c_decoder c1) = default_limits" "c_next c1 = (c_next c + 1) mod 2 ^ 64"
    using assms c by (auto simp: submit_def Let_def queue_expect_def expect_part_def expect_next_def idle_def ready_def)
  moreover have "client_running c1" using submit_running [of c cmd] assms(1) s(1) by (simp add: ready_def)
  ultimately show ?thesis by (auto simp: ready_def)
qed

lemma reply_ready:
  assumes "ready c ((t, Whole) # ps)" "rows_fit default_limits True [row]" "row \<noteq> ''%end 1 2 1''" "row \<noteq> ''%error 1 2 1''"
  shows "\<exists>c1. client_feed c (block_stream True ''1 2 1'' [row] True) = (c1, Inr [EReply t (Inr [row])]) \<and> ready c1 ps"
proof -
  have h: "header_ok default_limits True ''1 2 1''"
    by (simp add: header_ok_def line_fits_def parse_header_def parse_radix_def digit_val_def is_digit_def get_at_def Let_def
        utf8_valid_ascii default_limits_def)
  obtain c1 where c1: "client_feed c (block_stream True ''1 2 1'' [row] True) = (c1, Inr [EReply t (Inr [row])])"
      "c_pending c1 = ps" "idle c1" "c_ready c1" "d_limits (c_decoder c1) = default_limits"
    using reply_whole_idle [of c t ps True "''1 2 1''" "[row]" True] assms h by (auto simp: ready_def)
  have "client_running c1" using client_feed_cases [of c "block_stream True ''1 2 1'' [row] True"] assms(1) c1(1) by (auto simp: ready_def)
  then show ?thesis using c1 by (auto simp: ready_def)
qed

lemma announce_fed:
  assumes "client_running c" "idle c" "c_pending c = []" "d_limits (c_decoder c) = default_limits"
  shows "\<exists>c1. client_feed c (line_bytes True (message_line None (SessionChanged (SessionId 0) ''x''))) =
    (c1, Inr [EMessage (SessionChanged (SessionId 0) ''x'')]) \<and> ready c1 []"
proof -
  let ?l = "message_line None (SessionChanged (SessionId 0) ''x'')"
  let ?d = "c_decoder c"
  have l: "?l = ''%session-changed $0 x''"
    by (simp add: msg_line_def show_session_id_def show_id_def show_nat.simps digit_byte_def) code_simp
  have d: "decoder_wf ?d" "\<not> d_poisoned ?d" "\<not> c_failed c" "d_state ?d = Control" "d_line ?d = []" "d_open ?d = None"
    using assms(1,2) by (auto simp: client_running_def idle_def)
  have f: "line_fits (d_limits ?d) True ?l" unfolding l assms(4) by (simp add: line_fits_def default_limits_def)
  have "take_line ?d ?l = (?d, [FLine ?l], None)" unfolding l using d(6) by (simp add: take_line_def)
  then have "dec_run ?d (line_bytes True ?l) = (?d, [FLine ?l], None)"
    using dec_run_line_bytes [OF d(4,5) f, of "[]"] by simp
  then have "feed ?d (line_bytes True ?l) = (?d, [FLine ?l], None)" by (rule feed_dec_run [OF d(1,2)]) simp
  moreover have "parse_message ?l = Inr (SessionChanged (SessionId 0) ''x'')"
    by (rule parse_message_line) (simp add: word_text_def utf8_valid_ascii)
  ultimately obtain c1 where c1: "client_feed c (line_bytes True ?l) = (c1, Inr [EMessage (SessionChanged (SessionId 0) ''x'')])"
      "idle c1" "c_ready c1" "c_pending c1 = []" "d_limits (c_decoder c1) = default_limits"
    using d(3) assms by (auto simp: client_feed_def client_event_def idle_def simp del: message_line.simps)
  have "client_running c1" using client_feed_cases [OF assms(1), of "line_bytes True ?l"] c1(1) by auto
  then show ?thesis using c1 by (auto simp: ready_def)
qed

section \<open>Properties\<close>

text \<open>
  C1. A capture is answered whole and verbatim. After \<open>submit\<close> of a \<open>CapturePane\<close>, the pane state block
  and the block of exactly the rows it promises give one \<open>Capture\<close> event with the command's token,
  the state and the rows, whatever bytes the rows hold: forged terminators, \<open>%exit\<close> and \<open>%begin\<close>
  lines included.
\<close>

theorem capture_rows_verbatim:
  assumes "submit c (CapturePane pane h) = (c1, Inr (t, line))" "client_running c" "idle c" "c_pending c = []"
    and "header_ok (d_limits (c_decoder c)) cr hdr1" "header_ok (d_limits (c_decoder c)) cr hdr2"
    and "pane_state_wf s" "rows_fit (d_limits (c_decoder c)) cr [join_words (state_fields s)]"
    and "rows_fit (d_limits (c_decoder c)) cr rs" "length rs = min h (history_size s) + height s"
  shows "\<exists>c2. client_feed c1 (block_stream cr hdr1 [join_words (state_fields s)] True @
      block_stream cr hdr2 rs True) = (c2, Inr [ECapture t s rs]) \<and> c_pending c2 = []"
  using submit_idle [OF assms(1-4)] assms(5-10)
  by (intro reply_capture [where h = h and es = "[]"]) (simp_all add: expect_part_def)

definition demo_client :: client where
  "demo_client = (in_control_client \<lparr>max_line = 80, max_block_bytes = 200, max_block_lines = 20000\<rparr>)\<lparr>c_ready := True\<rparr>"

definition demo_state :: pane_state where
  "demo_state =
     \<lparr>state_id = PaneId 7, cursor_x = 0, cursor_y = 1, in_mode = False, alternate_on = True, scroll_upper = 0,
      scroll_lower = 1, width = 9, height = 2, history_size = 0\<rparr>"

lemma demo_client_ready:
  "client_running demo_client" "idle demo_client" "c_pending demo_client = []"
  "d_limits (c_decoder demo_client) = \<lparr>max_line = 80, max_block_bytes = 200, max_block_lines = 20000\<rparr>"
  by (simp_all add: demo_client_def in_control_client_def with_decoder_def in_control_def new_decoder_def
      client_running_def idle_def paired_def open_part_def decoder_wf_def MAX_PENDING_def)

lemma demo_header: "header_ok \<lparr>max_line = 80, max_block_bytes = 200, max_block_lines = 20000\<rparr> True ''1 2 1''"
  by (simp add: header_ok_def line_fits_def parse_header_def parse_radix_def digit_val_def is_digit_def
      get_at_def Let_def utf8_valid_ascii)

theorem capture_rows_verbatim_witness:
  "\<exists>c1 line c2. submit demo_client (CapturePane (PaneId 7) 5) = (c1, Inr (Token 0, line)) \<and>
    client_feed c1 (block_stream True ''1 2 1'' [join_words (state_fields demo_state)] True @
      block_stream True ''1 2 1'' [''%end 1 2 1'', ''%exit''] True) =
      (c2, Inr [ECapture (Token 0) demo_state [''%end 1 2 1'', ''%exit'']]) \<and> c_pending c2 = []"
proof -
  obtain c1 line where s: "submit demo_client (CapturePane (PaneId 7) 5) = (c1, Inr (Token 0, line))"
    using demo_client_ready
    by (simp add: submit_def client_running_def idle_def in_control_mode_def capture_too_big_def MAX_SIZE_def
        MAX_PENDING_def demo_client_def in_control_client_def with_decoder_def Let_def)
  have "pane_state_wf demo_state" by (simp add: pane_state_wf_def demo_state_def)
  moreover have "rows_fit \<lparr>max_line = 80, max_block_bytes = 200, max_block_lines = 20000\<rparr> True
      [join_words (state_fields demo_state)]"
    by (simp add: rows_fit_def line_fits_def rows_bytes_def state_fields_def demo_state_def show_flag_def
        show_pane_id_def show_id_def show_nat.simps digit_byte_neq is_digit_def)
  moreover have "rows_fit \<lparr>max_line = 80, max_block_bytes = 200, max_block_lines = 20000\<rparr> True
      [''%end 1 2 1'', ''%exit'']"
    by (simp add: rows_fit_def line_fits_def rows_bytes_def)
  ultimately show ?thesis
    using s capture_rows_verbatim [OF s demo_client_ready(1-3), of True "''1 2 1''" "''1 2 1''" demo_state
        "[''%end 1 2 1'', ''%exit'']"] demo_header demo_client_ready(4)
    by (auto simp: demo_state_def)
qed

text \<open>
  C2. No reply is lost, invented or out of order. What the client owed before a read is, token by
  token, what the events of the read answered followed by what it still owes; a token counts once
  however many of a capture's halves it names, and \<open>Exited\<close> answers what it drops.
\<close>

theorem replies_accounted:
  assumes "client_running c" "client_feed c input = (c1, Inr es)"
  shows "client_running c1 \<and>
    remdups_adj (tokens es @ map fst (c_pending c1)) = remdups_adj (map fst (c_pending c))"
  using client_feed_cases [OF assms(1), of input] assms(2) by (auto simp: accounts_def)

lemma demo_submit:
  "\<exists>c1 line. submit demo_client Detach = (c1, Inr (Token 0, line)) \<and> client_running c1 \<and> idle c1 \<and>
    c_pending c1 = [(Token 0, Whole)] \<and>
    d_limits (c_decoder c1) = \<lparr>max_line = 80, max_block_bytes = 200, max_block_lines = 20000\<rparr>"
proof -
  obtain c1 line where s: "submit demo_client Detach = (c1, Inr (Token 0, line))"
    by (simp add: submit_def in_control_mode_def capture_too_big_def MAX_PENDING_def demo_client_def
        in_control_client_def with_decoder_def in_control_def Let_def)
  with submit_idle [OF s demo_client_ready(1-3)] demo_client_ready(4) show ?thesis
    by (simp add: expect_part_def)
qed

lemma demo_rows: "rows_fit \<lparr>max_line = 80, max_block_bytes = 200, max_block_lines = 20000\<rparr> True [''ok'']"
  by (simp add: rows_fit_def line_fits_def rows_bytes_def)

theorem replies_accounted_witness:
  "\<exists>c c1 es. client_feed c (block_stream True ''1 2 1'' [''ok''] True) = (c1, Inr es) \<and>
    remdups_adj (tokens es @ map fst (c_pending c1)) = [Token 0]"
proof -
  obtain c where c: "client_running c" "idle c" "c_pending c = [(Token 0, Whole)]"
    "d_limits (c_decoder c) = \<lparr>max_line = 80, max_block_bytes = 200, max_block_lines = 20000\<rparr>"
    using demo_submit by blast
  obtain c1 es where f: "client_feed c (block_stream True ''1 2 1'' [''ok''] True) = (c1, Inr es)"
    using reply_whole [OF c(1-3), of True "''1 2 1''" "[''ok'']" True] demo_header demo_rows c(4) by auto
  from replies_accounted [OF c(1) f] f c(3) show ?thesis by auto
qed

text \<open>
  C16. The oldest command gets the next reply. Where no reply is under way and the head of the queue awaits
  a whole reply, as every command but a capture does, a block with rows that are not its terminator
  answers the token at the head, as \<open>Ok\<close> for \<open>%end\<close> and as \<open>Err\<close> for \<open>%error\<close>, with exactly the rows sent. It is
  the only event, the head alone leaves the queue, and the client is ready for the next reply. A
  capture at the head is answered by two blocks.
\<close>

theorem reply_answers_oldest:
  assumes "client_running c" "idle c" "c_pending c = (t, Whole) # ps"
    and "header_ok (d_limits (c_decoder c)) cr hdr" "rows_fit (d_limits (c_decoder c)) cr rs"
    and "\<forall>r\<in>set rs. r \<noteq> ''%end '' @ hdr \<and> r \<noteq> ''%error '' @ hdr"
  shows "\<exists>c1. client_feed c (block_stream cr hdr rs good) =
      (c1, Inr [EReply t (if good then Inr rs else Inl rs)]) \<and> c_pending c1 = ps \<and> client_running c1 \<and> idle c1"
proof -
  obtain c1 where c1: "client_feed c (block_stream cr hdr rs good) = (c1, Inr [EReply t (if good then Inr rs else Inl rs)])"
    "c_pending c1 = ps" "idle c1"
    using reply_whole_idle [OF assms, of good] by blast
  then show ?thesis using client_feed_cases [OF assms(1), of "block_stream cr hdr rs good"] by auto
qed

theorem reply_answers_oldest_witness:
  "\<exists>c c1. client_feed c (block_stream True ''1 2 1'' [''ok''] False) = (c1, Inr [EReply (Token 0) (Inl [''ok''])]) \<and>
    c_pending c1 = []"
proof -
  obtain c where c: "client_running c" "idle c" "c_pending c = [(Token 0, Whole)]"
    "d_limits (c_decoder c) = \<lparr>max_line = 80, max_block_bytes = 200, max_block_lines = 20000\<rparr>"
    using demo_submit by blast
  from reply_answers_oldest [OF c(1-3), of True "''1 2 1''" "[''ok'']" False] demo_header demo_rows c(4)
  show ?thesis by auto
qed

text \<open>
  C5. Every client the operations can reach, from either start and by any arming, submissions, reads
  and failures, has failed or keeps its invariant: at most 256 replies are owed, the queue and the
  decoder's expectations agree entry by entry, and the decoder is within its bounds.
\<close>

theorem reachable_client_invariant:
  assumes "client_reach l c" "\<not> c_failed c"
  shows "length (c_pending c) \<le> 256 \<and> decoder_wf (c_decoder c) \<and> \<not> d_poisoned (c_decoder c) \<and>
    map snd (c_pending c) = open_part (c_decoder c) @ map expect_part (d_expect (c_decoder c)) \<and>
    (c_ready c \<longrightarrow> d_state (c_decoder c) = Control)"
  using client_reach_running [OF assms(1)] assms(2)
  by (auto simp: client_running_def paired_def MAX_PENDING_def)

text \<open>
  C7. A read fails only for a cause, and the error returned is that cause's. Either one of the lines the
  decoder framed from this very input is a notification that does not parse, every frame before it having
  given its events, and the error is the parser's for that line; or every frame gave its events and the
  decoder itself refused the stream with that error. In particular the queue never runs dry and a
  capture's rows never arrive without their state. The failure is final: every later read and every later
  submission is \<open>Poisoned\<close>.
\<close>

theorem client_failure_is_caused_and_final:
  assumes "client_running c" "client_feed c input = (c1, Inl e)"
  shows "(case feed (c_decoder c) input of (_, frames, refusal) \<Rightarrow>
      (\<exists>as line bs c2 es. frames = as @ FLine line # bs \<and> events c as = (c2, Inr es) \<and>
        get_at line 0 = Some CHR ''%'' \<and> parse_message line = Inl e) \<or>
      (\<exists>c2 es. events c frames = (c2, Inr es)) \<and> refusal = Some e) \<and>
    client_feed c1 later = (c1, Inl Poisoned) \<and> submit c1 cmd = (c1, Inl Poisoned)"
  using client_feed_cases [OF assms(1), of input] assms(2) failed_client [of c1]
  by (auto simp: bad_line_def)

theorem client_failure_is_caused_and_final_witness:
  "\<exists>c1. client_feed demo_client (replicate 82 CHR ''a'') = (c1, Inl LineTooLong) \<and>
    client_feed c1 ''more'' = (c1, Inl Poisoned) \<and> submit c1 Detach = (c1, Inl Poisoned)"
proof -
  let ?d = "c_decoder demo_client"
  have "d_state ?d = Control" "\<not> d_poisoned ?d" "\<not> c_failed demo_client" "d_line ?d = []"
    using demo_client_ready(1,2) by (auto simp: client_running_def idle_def)
  then obtain c1 where f: "client_feed demo_client (replicate 82 CHR ''a'') = (c1, Inl LineTooLong)"
    using feed_loop_part [of ?d "replicate 82 CHR ''a''" "[]"] demo_client_ready(4)
    by (simp add: client_feed_def feed_def feed_inner_def push_line_bytes_def)
  from client_failure_is_caused_and_final [OF demo_client_ready(1) f, of "''more''" Detach] f
  show ?thesis by auto
qed

text \<open>
  C17. \<open>submit\<close> either refuses and leaves the client as it was, or queues the command: the bytes to
  write are one line of printable bytes (a lone \<open>^C\<close> for \<open>Interrupt\<close>) and its line break, one entry
  per expected block is owed under the next token, the token after it is next, and no more than 256
  entries are owed. In every client the operations can reach the token is new: no reply owed has it, also
  when the 64-bit counter has wrapped.
\<close>

theorem submit_contract:
  "case submit c cmd of
     (c1, Inl e) \<Rightarrow> c1 = c
   | (c1, Inr (t, out)) \<Rightarrow>
       t = Token (c_next c) \<and> c_next c1 = (c_next c + 1) mod 2 ^ 64 \<and>
       (client_reach l c \<longrightarrow> t \<notin> fst ` set (c_pending c)) \<and> render cmd = Inr (butlast out) \<and> last out = CHR 0x0A \<and>
       (butlast out = [CHR 0x03] \<or> list_all printable (butlast out)) \<and>
       c_pending c1 = c_pending c @ map (\<lambda>e. (t, expect_part e)) (expects cmd) \<and>
       d_expect (c_decoder c1) = d_expect (c_decoder c) @ expects cmd \<and> length (c_pending c1) \<le> 256"
proof -
  from submit_cases [of c cmd] consider e where "submit c cmd = (c, Inl e)"
    | line where "render cmd = Inr line" "\<not> c_failed c" "length (c_pending c) + length (expects cmd) \<le> MAX_PENDING"
      "submit c cmd = (queued (Token (c_next c)) (expects cmd) (c\<lparr>c_next := (c_next c + 1) mod 2 ^ 64\<rparr>),
         Inr (Token (c_next c), line @ [CHR 0x0A]))" by blast
  then show ?thesis
  proof cases
    case 1
    then show ?thesis by simp
  next
    case 2
    then have "line = [CHR 0x03] \<or> list_all printable line"
      using render_printable [of cmd line] by (cases "cmd = Interrupt") auto
    moreover have "client_reach l c \<longrightarrow> Token (c_next c) \<notin> fst ` set (c_pending c)"
      using client_reach_numbered [of l c] numbered_fresh [of c] 2 by auto
    ultimately show ?thesis using 2 by (simp add: queued_def MAX_PENDING_def)
  qed
qed

lemma demo_reach:
  "\<exists>c c1 out. client_reach default_limits c \<and> submit c Detach = (c1, Inr (Token 0, out)) \<and> c_next c1 = 1 \<and>
    ready c1 [(Token 0, Whole)]"
proof -
  let ?c0 = "in_control_client default_limits" and ?bs = "line_bytes True (message_line None (SessionChanged (SessionId 0) ''x''))"
  have i: "idle ?c0" "c_pending ?c0 = []" "d_limits (c_decoder ?c0) = default_limits" "c_next ?c0 = 0"
    by (simp_all add: idle_def in_control_client_def with_decoder_def in_control_def new_decoder_def)
  obtain c where c: "client_feed ?c0 ?bs = (c, Inr [EMessage (SessionChanged (SessionId 0) ''x'')])" "ready c []"
    using announce_fed [OF new_client_running(2) i(1-3)] by blast
  have r: "client_reach default_limits c"
    using client_reach.fed [OF client_reach.start_control, of default_limits ?bs] unfolding c(1) by simp
  have n: "c_next c = 0" using client_feed_next [of ?c0 ?bs] i(4) unfolding c(1) by simp
  obtain c1 out where "submit c Detach = (c1, Inr (Token 0, out))" "ready c1 [(Token 0, Whole)]" "c_next c1 = 1"
    using submit_ready [OF c(2), of Detach] n by (auto simp: capture_too_big_def MAX_PENDING_def)
  with r show ?thesis by blast
qed

theorem reachable_client_invariant_witness:
  "\<exists>c. client_reach default_limits c \<and> c_ready c \<and> c_pending c = [(Token 0, Whole)] \<and>
    map expect_part (d_expect (c_decoder c)) = [Whole] \<and> d_state (c_decoder c) = Control"
proof -
  obtain c0 c out where c: "client_reach default_limits c0" "submit c0 Detach = (c, Inr (Token 0, out))"
    "ready c [(Token 0, Whole)]" using demo_reach by blast
  have r: "client_reach default_limits c" using client_reach.submitted [OF c(1), of Detach] unfolding c(2) by simp
  have p: "c_pending c = [(Token 0, Whole)]" "c_ready c" "\<not> c_failed c" "d_open (c_decoder c) = None"
    using c(3) by (auto simp: ready_def client_running_def idle_def)
  from reachable_client_invariant [OF r p(3)] r p show ?thesis by (auto simp: open_part_def)
qed

theorem submit_contract_witness:
  "\<exists>c c1 out. client_reach default_limits c \<and> c_pending c = [(Token 0, Whole)] \<and> submit c KillServer = (c1, Inr (Token 1, out)) \<and>
    Token 1 \<notin> fst ` set (c_pending c) \<and> c_next c1 = 2 \<and> c_pending c1 = [(Token 0, Whole), (Token 1, Whole)]"
proof -
  obtain c0 c out where c: "client_reach default_limits c0" "submit c0 Detach = (c, Inr (Token 0, out))" "c_next c = 1"
    "ready c [(Token 0, Whole)]" using demo_reach by blast
  have r: "client_reach default_limits c" using client_reach.submitted [OF c(1), of Detach] unfolding c(2) by simp
  obtain c1 o1 where c1: "submit c KillServer = (c1, Inr (Token 1, o1))"
    using submit_ready [OF c(4), of KillServer] c(3) by (auto simp: capture_too_big_def MAX_PENDING_def)
  have p: "c_pending c = [(Token 0, Whole)]" using c(4) by (simp add: ready_def)
  from submit_contract [where c = c and cmd = KillServer and l = default_limits] r c1 c(3) p show ?thesis by (auto simp: expect_part_def)
qed

end
