(* ===== verification/Visible_Scan.thy ===== *)
theory Visible_Scan
  imports Prelude
begin

text \<open>
  Model of \<^verbatim>\<open>crates/chan-library/src/terminal_sessions/bytes.rs\<close>: the scan that counts the visible bytes
  of a terminal's output. \<open>scan_step\<close> is the body of the loop of \<open>VisibleScan::count\<close>: the state after a
  byte and whether the byte was counted.
\<close>

definition contains_subslice :: "bytes \<Rightarrow> bytes \<Rightarrow> bool" where
  "contains_subslice haystack needle \<longleftrightarrow> needle \<noteq> [] \<and> find_sub needle haystack \<noteq> None"

definition OSC_SKIP_CAP :: nat where "OSC_SKIP_CAP = 4096"
definition CSI_SKIP_CAP :: nat where "CSI_SKIP_CAP = 64"

datatype visible_scan =
    Ground
  | Escape
  | Intermediate
  | Csi nat
  | Osc nat
  | Str nat

definition ground :: "byte \<Rightarrow> visible_scan \<times> nat" where
  "ground b =
     (if byte_val b = 0x1B then (Escape, 0)
      else if byte_val b \<le> 0x1F \<or> byte_val b = 0x7F \<or> b = CHR '' '' then (Ground, 0)
      else (Ground, 1))"

fun scan_step :: "visible_scan \<Rightarrow> byte \<Rightarrow> visible_scan \<times> nat" where
  "scan_step Ground b = ground b"
| "scan_step Escape b =
     (if b = CHR ''['' then (Csi 0, 0)
      else if b = CHR '']'' then (Osc 0, 0)
      else if b = CHR ''P'' \<or> b = CHR ''X'' \<or> b = CHR ''^'' \<or> b = CHR ''_'' then (Str 0, 0)
      else if 0x20 \<le> byte_val b \<and> byte_val b \<le> 0x2F then (Intermediate, 0)
      else if byte_val b = 0x1B then (Escape, 0)
      else (Ground, 0))"
| "scan_step Intermediate b =
     (if byte_val b = 0x1B then (Escape, 0)
      else if 0x20 \<le> byte_val b \<and> byte_val b \<le> 0x2F then (Intermediate, 0)
      else (Ground, 0))"
| "scan_step (Csi skipped) b =
     (if 0x40 \<le> byte_val b \<and> byte_val b \<le> 0x7E then (Ground, 0)
      else if 0x20 \<le> byte_val b \<and> byte_val b \<le> 0x3F \<and> skipped < CSI_SKIP_CAP then (Csi (skipped + 1), 0)
      else ground b)"
| "scan_step (Osc skipped) b =
     (if byte_val b = 0x07 then (Ground, 0)
      else if byte_val b = 0x1B then (Escape, 0)
      else if OSC_SKIP_CAP \<le> skipped then (Ground, 0)
      else (Osc (skipped + 1), 0))"
| "scan_step (Str skipped) b =
     (if byte_val b = 0x1B then (Escape, 0)
      else if OSC_SKIP_CAP \<le> skipped then (Ground, 0)
      else (Str (skipped + 1), 0))"

fun count :: "visible_scan \<Rightarrow> bytes \<Rightarrow> visible_scan \<times> nat" where
  "count s [] = (s, 0)"
| "count s (b # bs) =
     (let (s1, v) = scan_step s b; (s2, n) = count s1 bs in (s2, v + n))"

lemma count_append:
  "count s (xs @ ys) =
     (fst (count (fst (count s xs)) ys), snd (count s xs) + snd (count (fst (count s xs)) ys))"
  by (induction xs arbitrary: s) (simp_all add: case_prod_unfold Let_def)

text \<open>A session's reads, counted one after another with the state carried over.\<close>

fun count_reads :: "visible_scan \<Rightarrow> bytes list \<Rightarrow> visible_scan \<times> nat" where
  "count_reads s [] = (s, 0)"
| "count_reads s (bs # rs) =
     (let (s1, n) = count s bs; (s2, m) = count_reads s1 rs in (s2, n + m))"

lemma count_reads_concat: "count_reads s rs = count s (concat rs)"
  by (induction rs arbitrary: s) (simp_all add: count_append case_prod_unfold Let_def)

lemma ground_le: "snd (ground b) \<le> 1"
  by (simp add: ground_def)

lemma scan_step_le: "snd (scan_step s b) \<le> 1"
  by (cases s) (auto simp: ground_def)

lemma count_le: "snd (count s bs) \<le> length bs"
proof (induction bs arbitrary: s)
  case (Cons b bs)
  from Cons.IH [of "fst (scan_step s b)"] scan_step_le [of s b] show ?case
    by (simp add: case_prod_unfold Let_def)
qed simp

section \<open>What is hidden\<close>

lemma count_csi:
  "\<forall>b\<in>set ps. 0x20 \<le> byte_val b \<and> byte_val b \<le> 0x3F \<Longrightarrow> k + length ps \<le> CSI_SKIP_CAP \<Longrightarrow>
    count (Csi k) ps = (Csi (k + length ps), 0)"
  by (induction ps arbitrary: k) auto

lemma count_osc:
  "\<forall>b\<in>set ps. byte_val b \<noteq> 0x07 \<and> byte_val b \<noteq> 0x1B \<Longrightarrow> k + length ps \<le> OSC_SKIP_CAP \<Longrightarrow>
    count (Osc k) ps = (Osc (k + length ps), 0)"
  by (induction ps arbitrary: k) auto

lemma count_str:
  "\<forall>b\<in>set ps. byte_val b \<noteq> 0x1B \<Longrightarrow> k + length ps \<le> OSC_SKIP_CAP \<Longrightarrow>
    count (Str k) ps = (Str (k + length ps), 0)"
  by (induction ps arbitrary: k) auto

text \<open>
  Terminal output as the scan's documentation divides it: bytes outside any sequence, and complete
  sequences of each family within the caps.
\<close>

datatype item =
    TextByte byte
  | CsiSeq bytes byte
  | OscSeq bytes bool
  | StrSeq byte bytes
  | EscSeq bytes byte

fun item_bytes :: "item \<Rightarrow> bytes" where
  "item_bytes (TextByte b) = [b]"
| "item_bytes (CsiSeq ps f) = [CHR 0x1B, CHR ''[''] @ ps @ [f]"
| "item_bytes (OscSeq qs bel) = [CHR 0x1B, CHR '']''] @ qs @ (if bel then [CHR 0x07] else [CHR 0x1B, CHR 0x5C])"
| "item_bytes (StrSeq i qs) = [CHR 0x1B, i] @ qs @ [CHR 0x1B, CHR 0x5C]"
| "item_bytes (EscSeq is f) = [CHR 0x1B] @ is @ [f]"

fun item_ok :: "item \<Rightarrow> bool" where
  "item_ok (TextByte b) \<longleftrightarrow> byte_val b \<noteq> 0x1B"
| "item_ok (CsiSeq ps f) \<longleftrightarrow> list_all (\<lambda>b. 0x20 \<le> byte_val b \<and> byte_val b \<le> 0x3F) ps \<and> length ps \<le> 64 \<and>
     0x40 \<le> byte_val f \<and> byte_val f \<le> 0x7E"
| "item_ok (OscSeq qs bel) \<longleftrightarrow> list_all (\<lambda>b. byte_val b \<noteq> 0x07 \<and> byte_val b \<noteq> 0x1B) qs \<and> length qs \<le> 4096"
| "item_ok (StrSeq i qs) \<longleftrightarrow> i \<in> set ''PX^_'' \<and> list_all (\<lambda>b. byte_val b \<noteq> 0x1B) qs \<and> length qs \<le> 4096"
| "item_ok (EscSeq is f) \<longleftrightarrow> list_all (\<lambda>b. 0x20 \<le> byte_val b \<and> byte_val b \<le> 0x2F) is \<and>
     0x30 \<le> byte_val f \<and> byte_val f \<le> 0x7E \<and> (is = [] \<longrightarrow> f \<notin> set ''[]PX^_'')"

text \<open>A visible byte is one outside sequences that is neither a control character nor a space.\<close>

fun item_visible :: "item \<Rightarrow> bool" where
  "item_visible (TextByte b) \<longleftrightarrow> 0x20 < byte_val b \<and> byte_val b \<noteq> 0x7F"
| "item_visible _ \<longleftrightarrow> False"

lemma count_intermediates:
  "\<forall>b\<in>set is. 0x20 \<le> byte_val b \<and> byte_val b \<le> 0x2F \<Longrightarrow> count Intermediate is = (Intermediate, 0)"
  by (induction "is") auto

lemma count_escape:
  assumes "item_ok (EscSeq is f)"
  shows "count Escape (is @ [f]) = (Ground, 0)"
proof (cases "is")
  case Nil
  with assms show ?thesis by auto
next
  case (Cons b bs)
  then have b: "0x20 \<le> byte_val b" "byte_val b \<le> 0x2F" "0x30 \<le> byte_val f" "byte_val f \<le> 0x7E"
    and bs: "count Intermediate bs = (Intermediate, 0)"
    using assms by (auto simp: list_all_iff intro!: count_intermediates)
  then have "scan_step Escape b = (Intermediate, 0)" by auto
  with b bs Cons show ?thesis by (simp add: count_append)
qed

lemma space_val: "b = CHR '' '' \<longleftrightarrow> byte_val b = 0x20"
  using of_char_eq_iff [of b "CHR '' ''", where 'a = nat] by simp

lemma count_item: "item_ok i \<Longrightarrow> count Ground (item_bytes i) = (Ground, if item_visible i then 1 else 0)"
proof (cases i)
  case (TextByte b)
  then show "item_ok i \<Longrightarrow> ?thesis" by (auto simp: ground_def space_val)
next
  case (CsiSeq ps f)
  then show "item_ok i \<Longrightarrow> ?thesis"
    using count_csi [of ps 0] by (simp add: count_append ground_def CSI_SKIP_CAP_def list_all_iff)
next
  case (OscSeq qs bel)
  then show "item_ok i \<Longrightarrow> ?thesis"
    using count_osc [of qs 0] by (simp add: count_append ground_def OSC_SKIP_CAP_def list_all_iff)
next
  case (StrSeq c qs)
  moreover have "c \<in> set ''PX^_'' \<Longrightarrow> scan_step Escape c = (Str 0, 0)" by auto
  ultimately show "item_ok i \<Longrightarrow> ?thesis"
    using count_str [of qs 0] by (simp add: count_append ground_def OSC_SKIP_CAP_def list_all_iff del: scan_step.simps(2))
      (simp add: case_prod_unfold)
next
  case (EscSeq "is" f)
  then show "item_ok i \<Longrightarrow> ?thesis" using count_escape [of "is" f] by (simp add: ground_def)
qed

lemma count_items:
  "list_all item_ok items \<Longrightarrow> count Ground (concat (map item_bytes items)) = (Ground, length (filter item_visible items))"
  by (induction items) (simp_all add: count_append count_item)

section \<open>The scan never goes blind\<close>

text \<open>
  Bytes that are visible outside sequences, and those among them that continue an escape with
  intermediate bytes, for which the scan has no cap.
\<close>

definition text_byte :: "byte \<Rightarrow> bool" where
  "text_byte b \<longleftrightarrow> 0x20 < byte_val b \<and> byte_val b \<noteq> 0x7F"

definition intermediate :: "byte \<Rightarrow> bool" where
  "intermediate b \<longleftrightarrow> 0x20 \<le> byte_val b \<and> byte_val b \<le> 0x2F"

text \<open>The most text bytes a state can still hide, leading intermediate bytes apart.\<close>

fun blind :: "visible_scan \<Rightarrow> nat" where
  "blind Ground = 0"
| "blind Escape = OSC_SKIP_CAP + 2"
| "blind Intermediate = 1"
| "blind (Csi k) = CSI_SKIP_CAP + 1 - k"
| "blind (Osc k) = OSC_SKIP_CAP + 1 - k"
| "blind (Str k) = OSC_SKIP_CAP + 1 - k"

fun scan_ok :: "visible_scan \<Rightarrow> bool" where
  "scan_ok (Csi k) \<longleftrightarrow> k \<le> CSI_SKIP_CAP"
| "scan_ok (Osc k) \<longleftrightarrow> k \<le> OSC_SKIP_CAP"
| "scan_ok (Str k) \<longleftrightarrow> k \<le> OSC_SKIP_CAP"
| "scan_ok _ \<longleftrightarrow> True"

definition escaped :: "visible_scan \<Rightarrow> bool" where
  "escaped s \<longleftrightarrow> s = Escape \<or> s = Intermediate"

lemma scan_step_ok: "scan_ok s \<Longrightarrow> scan_ok (fst (scan_step s b))"
  by (cases s) (auto simp: ground_def)

lemma count_ok: "scan_ok s \<Longrightarrow> scan_ok (fst (count s bs))"
  by (induction bs arbitrary: s) (simp_all add: scan_step_ok case_prod_unfold Let_def)

text \<open>A byte of text either continues such an escape or brings the scan closer to counting.\<close>

lemma scan_step_blind:
  "scan_ok s \<Longrightarrow> text_byte b \<Longrightarrow> \<not> (escaped s \<and> intermediate b) \<Longrightarrow>
    blind (fst (scan_step s b)) + 1 \<le> blind s + snd (scan_step s b) \<and> \<not> escaped (fst (scan_step s b))"
  by (cases s) (auto simp: ground_def text_byte_def intermediate_def escaped_def OSC_SKIP_CAP_def CSI_SKIP_CAP_def)

lemma scan_step_intermediate: "escaped s \<Longrightarrow> intermediate b \<Longrightarrow> scan_step s b = (Intermediate, 0)"
  by (auto simp: escaped_def intermediate_def)

lemma blind_le: "blind s \<le> OSC_SKIP_CAP + 2"
  by (cases s) (auto simp: OSC_SKIP_CAP_def CSI_SKIP_CAP_def)

lemma count_blind:
  "scan_ok s \<Longrightarrow> list_all text_byte xs \<Longrightarrow> \<not> escaped s \<Longrightarrow> length xs \<le> snd (count s xs) + blind s"
proof (induction xs arbitrary: s)
  case (Cons b xs)
  from Cons.IH [of "fst (scan_step s b)"] Cons.prems scan_step_ok [of s b] scan_step_blind [of s b]
  show ?case by (simp add: case_prod_unfold Let_def)
qed simp

lemma count_blind_escaped:
  "escaped s \<Longrightarrow> list_all text_byte xs \<Longrightarrow> length (dropWhile intermediate xs) \<le> snd (count s xs) + OSC_SKIP_CAP + 2"
proof (induction xs arbitrary: s)
  case (Cons b xs)
  have ok: "scan_ok s" using Cons.prems(1) by (auto simp: escaped_def)
  show ?case
  proof (cases "intermediate b")
    case True
    with scan_step_intermediate [OF Cons.prems(1) True] Cons.IH [of Intermediate] Cons.prems(2) show ?thesis
      by (simp add: escaped_def case_prod_unfold Let_def)
  next
    case False
    let ?s = "fst (scan_step s b)"
    have st: "blind ?s + 1 \<le> blind s + snd (scan_step s b)" "\<not> escaped ?s"
      using scan_step_blind [OF ok, of b] False Cons.prems(2) by auto
    from count_blind [OF scan_step_ok [OF ok, of b] _ st(2), of xs] Cons.prems(2) st(1) blind_le [of s] False
    show ?thesis by (simp add: case_prod_unfold Let_def)
  qed
qed simp

section \<open>Properties\<close>

text \<open>
  C24. The count is of exactly the visible bytes. Whatever the output is made of, bytes outside sequences
  and complete sequences of every family (CSI of up to 64 parameter bytes, OSC ended by BEL or ST and the
  strings DCS, SOS, PM and APC ended by ST of up to 4096 bytes, escapes with and without intermediate
  bytes), and however it is cut into reads, inside sequences too, the reads count the bytes outside
  sequences that are neither controls nor spaces, and the scan ends at ground.
\<close>

theorem scan_counts_visible:
  assumes "list_all item_ok items" "concat reads = concat (map item_bytes items)"
  shows "count_reads Ground reads = (Ground, length (filter item_visible items))"
  by (simp add: count_reads_concat assms count_items)

theorem scan_counts_visible_witness:
  "count_reads Ground [[CHR 0x1B, CHR ''['', CHR ''8''], '';3Hok '' @ [CHR 0x1B, CHR ''(''], ''B!'' @ [CHR 0x1B] @ '']0;t'', [CHR 0x07]] =
    (Ground, 3)"
proof -
  let ?items = "[CsiSeq ''8;3'' CHR ''H'', TextByte CHR ''o'', TextByte CHR ''k'', TextByte CHR '' '', EscSeq ''('' CHR ''B'',
    TextByte CHR ''!'', OscSeq ''0;t'' True]"
  have "list_all item_ok ?items" by simp
  from scan_counts_visible [OF this, of "[[CHR 0x1B, CHR ''['', CHR ''8''], '';3Hok '' @ [CHR 0x1B, CHR ''(''],
      ''B!'' @ [CHR 0x1B] @ '']0;t'', [CHR 0x07]]"]
  show ?thesis by simp
qed

text \<open>
  C25. The scan does not go blind: in whatever state earlier output left it, of a run of bytes that are
  visible outside sequences at most 4098 are hidden, apart from intermediate bytes (0x20 to 0x2F) at the
  very start of the run, which continue an escape of any length. Where the earlier output does not end
  inside such an escape, these count too. The count never exceeds the bytes given.
\<close>

theorem scan_never_blind:
  assumes "list_all text_byte xs"
  shows "let s = fst (count Ground earlier); visible = snd (count s xs) in
    length (dropWhile intermediate xs) \<le> visible + 4098 \<and>
    (s \<noteq> Escape \<and> s \<noteq> Intermediate \<longrightarrow> length xs \<le> visible + 4098) \<and> visible \<le> length xs"
proof -
  let ?s = "fst (count Ground earlier)"
  have "scan_ok ?s" by (rule count_ok) simp
  from count_blind [OF this assms] count_blind_escaped [OF _ assms, of ?s] blind_le [of ?s] count_le [of ?s xs]
    length_dropWhile_le [of intermediate xs]
  show ?thesis by (cases "escaped ?s") (auto simp: OSC_SKIP_CAP_def escaped_def Let_def)
qed

theorem scan_never_blind_witness:
  "list_all text_byte (''!'' @ replicate 5000 CHR ''a'') \<and> fst (count Ground [CHR 0x1B, CHR '']'']) = Osc 0 \<and>
    5001 \<le> snd (count (fst (count Ground [CHR 0x1B, CHR '']''])) (''!'' @ replicate 5000 CHR ''a'')) + 4098"
proof -
  have t: "list_all text_byte (''!'' @ replicate 5000 CHR ''a'')" by (simp add: text_byte_def list_all_iff)
  have s: "fst (count Ground [CHR 0x1B, CHR '']'']) = Osc 0" by (simp add: ground_def)
  from scan_never_blind [OF t, of "[CHR 0x1B, CHR '']'']"] t s show ?thesis by (simp only: s Let_def) simp
qed

end
