(* ===== verification/Ring_Buffer.thy ===== *)
theory Ring_Buffer
  imports Prelude
begin

text \<open>
  Model of \<open>RingBuffer\<close> of \<^verbatim>\<open>crates/chan-library/src/terminal_sessions/ring.rs\<close>: the bytes of a terminal a
  reconnecting client is replayed, kept in chunks that carry the sequence number of their first byte.
  The mirror, the field that ties a ring to its file, is an extension of the record in the theory
  \<open>Ring_Mirror\<close>, so the operations here work on any extension.
\<close>

record ring_buffer =
  r_cap :: nat
  r_chunks :: "(nat \<times> bytes) list"
  r_start :: nat
  r_end :: nat
  r_len :: nat

definition new_at :: "nat \<Rightarrow> nat \<Rightarrow> ring_buffer" where
  "new_at cap seq = \<lparr>r_cap = max cap 1, r_chunks = [], r_start = seq, r_end = seq, r_len = 0\<rparr>"

definition ring_new :: "nat \<Rightarrow> ring_buffer" where
  "ring_new cap = new_at cap 0"

text \<open>The loop at the end of \<open>keep\<close>: whole chunks leave while the ring is past its capacity.\<close>

function drop_oldest :: "'a ring_buffer_scheme \<Rightarrow> 'a ring_buffer_scheme" where
  "drop_oldest r =
     (if r_len r \<le> r_cap r then r
      else case r_chunks r of
        (_, chunk) # cs \<Rightarrow>
          drop_oldest (r\<lparr>r_chunks := cs, r_len := r_len r - length chunk,
            r_start := sat_add (r_start r) (length chunk)\<rparr>)
      | [] \<Rightarrow> r\<lparr>r_start := r_end r, r_len := 0\<rparr>)"
  by pat_completeness auto
termination
  by (relation "measure (\<lambda>r. length (r_chunks r))") auto

declare drop_oldest.simps [simp del]

definition keep :: "nat \<Rightarrow> bytes \<Rightarrow> 'a ring_buffer_scheme \<Rightarrow> 'a ring_buffer_scheme" where
  "keep start bs r =
     (if r_cap r \<le> length bs then
        let tail = drop (length bs - r_cap r) bs; first = r_end r - length tail in
        r\<lparr>r_start := first, r_len := length tail, r_chunks := [(first, tail)]\<rparr>
      else
        drop_oldest (r\<lparr>r_len := sat_add (r_len r) (length bs), r_chunks := r_chunks r @ [(start, bs)]\<rparr>))"

text \<open>\<open>push\<close> of a ring with no mirror.\<close>

definition push :: "bytes \<Rightarrow> 'a ring_buffer_scheme \<Rightarrow> 'a ring_buffer_scheme" where
  "push bs r =
     (let start = r_end r; r1 = r\<lparr>r_end := sat_add (r_end r) (length bs)\<rparr> in keep start bs r1)"

definition new_with_replay :: "nat \<Rightarrow> nat \<Rightarrow> bytes \<Rightarrow> ring_buffer" where
  "new_with_replay cap end_seq replay0 =
     (if replay0 = [] then new_at cap end_seq
      else
        let replay = (if end_seq < length replay0 then drop (length replay0 - end_seq) replay0 else replay0);
            start_seq = end_seq - length replay
        in push replay (new_at cap start_seq))"

definition snapshot_past :: "'a ring_buffer_scheme \<Rightarrow> nat \<Rightarrow> nat \<Rightarrow> bytes list \<times> nat" where
  "snapshot_past r since bound =
     (let missed = (if bound < since then sat_add (since - bound) (r_start r - bound) else r_start r - since)
      in (map snd (r_chunks r), missed))"

definition chunk_replay :: "nat \<Rightarrow> nat \<times> bytes \<Rightarrow> bytes list" where
  "chunk_replay replay_start c =
     (case c of (chunk_start, chunk) \<Rightarrow>
        if sat_add chunk_start (length chunk) \<le> replay_start then []
        else [drop (replay_start - chunk_start) chunk])"

definition snapshot_since :: "'a ring_buffer_scheme \<Rightarrow> nat option \<Rightarrow> bytes list \<times> nat" where
  "snapshot_since r since =
     (case since of
        Some n \<Rightarrow>
          if r_end r < n then snapshot_past r n (r_end r)
          else (concat (map (chunk_replay (max n (r_start r))) (r_chunks r)), r_start r - n)
      | None \<Rightarrow> (concat (map (chunk_replay (r_start r)) (r_chunks r)), 0))"

section \<open>The ring is a window of the stream\<close>

definition content :: "'a ring_buffer_scheme \<Rightarrow> bytes" where
  "content r = concat (map snd (r_chunks r))"

fun contig :: "nat \<Rightarrow> (nat \<times> bytes) list \<Rightarrow> nat \<Rightarrow> bool" where
  "contig s [] e \<longleftrightarrow> s = e"
| "contig s ((a, c) # cs) e \<longleftrightarrow> a = s \<and> contig (s + length c) cs e"

definition ring_wf :: "'a ring_buffer_scheme \<Rightarrow> bool" where
  "ring_wf r \<longleftrightarrow> 1 \<le> r_cap r \<and> contig (r_start r) (r_chunks r) (r_end r) \<and> r_len r = length (content r) \<and>
     r_len r \<le> r_cap r \<and> r_end r \<le> u64_max"

lemma contig_length: "contig s cs e \<Longrightarrow> s + length (concat (map snd cs)) = e"
  by (induction s cs e rule: contig.induct) auto

lemma contig_append: "contig s (cs @ ds) e \<longleftrightarrow> (\<exists>m. contig s cs m \<and> contig m ds e)"
  by (induction cs arbitrary: s) auto

lemma new_at_wf: "seq \<le> u64_max \<Longrightarrow> ring_wf (new_at cap seq)"
  by (simp add: ring_wf_def new_at_def content_def)

text \<open>What dropping chunks leaves: the numbering kept, and a suffix of the bytes within the capacity.\<close>

definition trimmed :: "'a ring_buffer_scheme \<Rightarrow> 'a ring_buffer_scheme \<Rightarrow> bool" where
  "trimmed r r1 \<longleftrightarrow> contig (r_start r1) (r_chunks r1) (r_end r1) \<and> r_len r1 = length (content r1) \<and>
     r_len r1 \<le> r_cap r1 \<and> r_end r1 = r_end r \<and> r_cap r1 = r_cap r \<and> r_start r \<le> r_start r1 \<and>
     content r1 = drop (r_start r1 - r_start r) (content r)"

lemma trimmed_cons:
  assumes t: "trimmed (r\<lparr>r_chunks := cs, r_len := n, r_start := r_start r + length chunk\<rparr>) r1"
    and cs: "r_chunks r = (a, chunk) # cs"
  shows "trimmed r r1"
proof -
  let ?r = "r\<lparr>r_chunks := cs, r_len := n, r_start := r_start r + length chunk\<rparr>"
  have c: "content r = chunk @ content ?r" by (simp add: content_def cs)
  have "r_start r + length chunk \<le> r_start r1" using t by (simp add: trimmed_def)
  then have "drop (r_start r1 - r_start r) (content r) = drop (r_start r1 - (r_start r + length chunk)) (content ?r)"
    by (simp add: c)
  with t show ?thesis by (auto simp: trimmed_def)
qed

lemma drop_oldest_trimmed:
  assumes "contig (r_start r) (r_chunks r) (r_end r)" "r_len r = length (content r)" "r_end r \<le> u64_max"
  shows "trimmed r (drop_oldest r)"
  using assms
proof (induction r rule: drop_oldest.induct)
  case (1 r)
  show ?case
  proof (cases "r_len r \<le> r_cap r")
    case True
    with "1.prems" show ?thesis by (simp add: drop_oldest.simps [of r] trimmed_def)
  next
    case False
    have "r_chunks r \<noteq> []" using False "1.prems"(2) by (auto simp: content_def)
    then obtain a chunk cs where cs: "r_chunks r = (a, chunk) # cs" by (cases "r_chunks r") auto
    let ?r = "r\<lparr>r_chunks := cs, r_len := r_len r - length chunk, r_start := sat_add (r_start r) (length chunk)\<rparr>"
    have c: "contig (r_start r + length chunk) cs (r_end r)" using "1.prems"(1) cs by simp
    have s: "sat_add (r_start r) (length chunk) = r_start r + length chunk"
      using contig_length [OF c] "1.prems"(3) by (simp add: sat_add_def)
    have e: "drop_oldest r = drop_oldest ?r" using False cs by (simp add: drop_oldest.simps [of r])
    have l: "r_len ?r = length (content ?r)" using "1.prems"(2) cs by (simp add: content_def)
    have "trimmed ?r (drop_oldest ?r)"
      using "1.IH" [OF False cs refl _ l] c s "1.prems"(3) by simp
    then show ?thesis unfolding e using trimmed_cons [OF _ cs] s by simp
  qed
qed

text \<open>
  The abstract ring is a stream numbered from \<open>s0\<close>. A ring holds it when it is well formed, ends where
  the stream ends and its bytes are the stream's from its start.
\<close>

definition holds :: "'a ring_buffer_scheme \<Rightarrow> nat \<Rightarrow> bytes \<Rightarrow> bool" where
  "holds r s0 stream \<longleftrightarrow> ring_wf r \<and> s0 \<le> r_start r \<and> r_end r = s0 + length stream \<and>
     content r = drop (r_start r - s0) stream"

lemma holds_new_at: "seq \<le> u64_max \<Longrightarrow> holds (new_at cap seq) seq []"
  by (simp add: holds_def new_at_wf) (simp add: new_at_def content_def)

lemma drop_oldest_wf:
  assumes "contig (r_start r) (r_chunks r) (r_end r)" "r_len r = length (content r)" "r_end r \<le> u64_max" "1 \<le> r_cap r"
  shows "ring_wf (drop_oldest r)"
  using drop_oldest_trimmed [OF assms(1-3)] assms(3,4) by (auto simp: trimmed_def ring_wf_def)

lemma ring_wf_window: "ring_wf r \<Longrightarrow> r_start r + length (content r) = r_end r"
  using contig_length [of "r_start r" "r_chunks r" "r_end r"] by (simp add: ring_wf_def content_def)

lemma keep_holds_tail:
  assumes r: "holds r s0 stream" and cap: "r_cap r \<le> length bs" and fits: "r_end r + length bs \<le> u64_max"
  shows "holds (push bs r) s0 (stream @ bs)"
proof -
  let ?t = "drop (length bs - r_cap r) bs"
  have e: "push bs r = r\<lparr>r_end := r_end r + length bs, r_start := r_end r + length bs - r_cap r, r_len := r_cap r,
      r_chunks := [(r_end r + length bs - r_cap r, ?t)]\<rparr>"
    using cap fits by (simp add: push_def keep_def sat_add_def Let_def)
  show ?thesis
    unfolding holds_def ring_wf_def e using r cap fits by (simp add: holds_def ring_wf_def content_def)
qed

lemma keep_holds_chunk:
  assumes r: "holds r s0 stream" and cap: "length bs < r_cap r" and fits: "r_end r + length bs \<le> u64_max"
  shows "holds (push bs r) s0 (stream @ bs)"
proof -
  let ?r = "r\<lparr>r_end := r_end r + length bs, r_len := r_len r + length bs, r_chunks := r_chunks r @ [(r_end r, bs)]\<rparr>"
  have wf: "ring_wf r" using r by (simp add: holds_def)
  have l: "length (content r) \<le> r_end r" using ring_wf_window [OF wf] by simp
  have s: "sat_add (r_len r) (length bs) = r_len r + length bs"
    using wf l fits by (simp add: ring_wf_def sat_add_def)
  have e: "push bs r = drop_oldest ?r" using cap fits s by (simp add: push_def keep_def sat_add_def Let_def)
  have c: "content ?r = content r @ bs" by (simp add: content_def)
  have p: "contig (r_start ?r) (r_chunks ?r) (r_end ?r)" "r_len ?r = length (content ?r)" "r_end ?r \<le> u64_max" "1 \<le> r_cap ?r"
    using wf fits by (auto simp: ring_wf_def contig_append content_def)
  have t: "trimmed ?r (drop_oldest ?r)" by (rule drop_oldest_trimmed [OF p(1-3)])
  let ?d = "drop_oldest ?r"
  have "r_start r - s0 \<le> length stream" "s0 \<le> r_start r" "content r = drop (r_start r - s0) stream"
    using r ring_wf_window [OF wf] by (simp_all add: holds_def)
  then have g: "content ?r = drop (r_start r - s0) (stream @ bs)" by (simp add: c)
  have d: "content ?d = drop (r_start ?d - r_start r) (content ?r)" "r_start r \<le> r_start ?d" "r_end ?d = r_end r + length bs"
    using t unfolding trimmed_def by simp_all
  have "r_start ?d - r_start r + (r_start r - s0) = r_start ?d - s0" using d(2) \<open>s0 \<le> r_start r\<close> by simp
  then have h: "content ?d = drop (r_start ?d - s0) (stream @ bs)" unfolding d(1) g drop_drop by simp
  have "s0 \<le> r_start ?d" using d(2) \<open>s0 \<le> r_start r\<close> by simp
  moreover have "r_end ?d = s0 + length (stream @ bs)" using d(3) r by (simp add: holds_def)
  ultimately show ?thesis unfolding e holds_def using drop_oldest_wf [OF p] h by blast
qed

lemma push_holds:
  assumes "holds r s0 stream" "r_end r + length bs \<le> u64_max"
  shows "holds (push bs r) s0 (stream @ bs)"
  using assms keep_holds_tail keep_holds_chunk by (metis not_less)

text \<open>
  The contract of anything that records a numbered stream push by push: a push extends the stream it
  holds, as long as the numbers fit 64 bits. The ring in memory and its file both provide it.
\<close>

locale stream_log =
  fixes logs :: "'r \<Rightarrow> nat \<Rightarrow> bytes \<Rightarrow> bool"
    and add :: "bytes \<Rightarrow> 'r \<Rightarrow> 'r"
  assumes add_logs: "logs r s0 stream \<Longrightarrow> s0 + length stream + length bs \<le> u64_max \<Longrightarrow> logs (add bs r) s0 (stream @ bs)"
begin

lemma adds_log:
  "logs r s0 stream \<Longrightarrow> s0 + length stream + length (concat ps) \<le> u64_max \<Longrightarrow>
    logs (fold add ps r) s0 (stream @ concat ps)"
proof (induction ps arbitrary: r stream)
  case (Cons bs ps)
  have "logs (add bs r) s0 (stream @ bs)" using Cons.prems by (intro add_logs) simp_all
  from Cons.IH [OF this] Cons.prems(2) show ?case by simp
qed simp

lemma regrouping:
  "logs r s0 stream \<Longrightarrow> s0 + length stream + length (concat ps) \<le> u64_max \<Longrightarrow> concat ps = concat qs \<Longrightarrow>
    logs (fold add ps r) s0 (stream @ concat ps) \<and> logs (fold add qs r) s0 (stream @ concat ps)"
  using adds_log [of r s0 stream ps] adds_log [of r s0 stream qs] by simp

end

interpretation ring_log: stream_log holds push
  by unfold_locales (rule push_holds, assumption, simp add: holds_def)

subsection \<open>What a replay returns\<close>

lemma chunk_replay_concat:
  assumes "contig s cs e" "e \<le> u64_max"
  shows "concat (concat (map (chunk_replay n) cs)) = drop (n - s) (concat (map snd cs))"
  using assms
proof (induction s cs e rule: contig.induct)
  case (2 s a c cs e)
  have "s + length c \<le> e" using contig_length [of "s + length c" cs e] "2.prems" by simp
  then have f: "sat_add s (length c) = s + length c" using "2.prems" by (simp add: sat_add_def)
  have "concat (concat (map (chunk_replay n) cs)) = drop (n - (s + length c)) (concat (map snd cs))"
    using 2 by simp
  moreover have "concat (chunk_replay n (a, c)) = drop (n - s) c"
    using f "2.prems" by (simp add: chunk_replay_def)
  ultimately show ?case by simp
qed simp

lemma replay_from:
  assumes "ring_wf r" "r_start r \<le> n"
  shows "concat (concat (map (chunk_replay n) (r_chunks r))) = drop (n - r_start r) (content r)"
  using assms chunk_replay_concat [of "r_start r" "r_chunks r" "r_end r" n] by (simp add: ring_wf_def content_def)

lemma snapshot_since_holds:
  assumes h: "holds r s0 stream" and n: "n \<le> r_end r"
  shows "concat (fst (snapshot_since r (Some n))) = drop (max n (r_start r) - s0) stream"
    and "snd (snapshot_since r (Some n)) = r_start r - n"
  using h n replay_from [of r "max n (r_start r)"]
  by (auto simp: snapshot_since_def holds_def)

lemma snapshot_none_holds:
  assumes h: "holds r s0 stream"
  shows "concat (fst (snapshot_since r None)) = content r" "snd (snapshot_since r None) = 0"
  using h replay_from [of r "r_start r"] by (simp_all add: snapshot_since_def holds_def)

lemma snapshot_ahead:
  assumes h: "holds r s0 stream" and n: "r_end r < n"
  shows "concat (fst (snapshot_since r (Some n))) = content r" "snd (snapshot_since r (Some n)) = min u64_max (n - r_end r)"
proof -
  have "r_start r \<le> r_end r" using h ring_wf_window [of r] by (simp add: holds_def)
  then show "concat (fst (snapshot_since r (Some n))) = content r" "snd (snapshot_since r (Some n)) = min u64_max (n - r_end r)"
    using n by (simp_all add: snapshot_since_def snapshot_past_def content_def sat_add_def)
qed

lemma new_with_replay_eq:
  "replay \<noteq> [] \<Longrightarrow> new_with_replay cap end_seq replay =
    (let t = drop (length replay - end_seq) replay in push t (new_at cap (end_seq - length t)))"
  by (simp add: new_with_replay_def Let_def)

lemma new_with_replay_holds:
  assumes "end_seq \<le> u64_max"
  shows "\<exists>s0 stream. holds (new_with_replay cap end_seq replay) s0 stream \<and> s0 + length stream = end_seq \<and>
    stream = drop (length replay - end_seq) replay"
proof (cases "replay = []")
  case True
  then show ?thesis using holds_new_at [OF assms, of cap] by (auto simp: new_with_replay_def)
next
  case False
  let ?t = "drop (length replay - end_seq) replay"
  have e: "new_with_replay cap end_seq replay = push ?t (new_at cap (end_seq - length ?t))"
    using new_with_replay_eq [OF False, of cap end_seq] by (simp only: Let_def)
  have l: "end_seq - length ?t + length ?t = end_seq" by simp
  have "holds (push ?t (new_at cap (end_seq - length ?t))) (end_seq - length ?t) ([] @ ?t)"
    using assms l by (intro push_holds holds_new_at) (simp_all add: new_at_def)
  with l show ?thesis unfolding e by (intro exI conjI) auto
qed

lemma drop_oldest_cap: "r_cap (drop_oldest r) = r_cap r"
proof (induction r rule: drop_oldest.induct)
  case (1 r)
  show ?case
  proof (cases "r_len r \<le> r_cap r")
    case False
    with 1 show ?thesis by (cases "r_chunks r") (auto simp: drop_oldest.simps [of r])
  qed (simp add: drop_oldest.simps [of r])
qed

lemma drop_oldest_fits: "r_len r \<le> r_cap r \<Longrightarrow> drop_oldest r = r"
  by (simp add: drop_oldest.simps [of r])

lemma fold_push_cap: "r_cap (fold push ps r) = r_cap r"
  by (induction ps arbitrary: r) (simp_all add: push_def keep_def drop_oldest_cap Let_def)

lemma drop_by_length: "xs = drop n ys \<Longrightarrow> length xs = m \<Longrightarrow> m \<le> length ys \<Longrightarrow> xs = drop (length ys - m) ys"
  by (cases "n \<le> length ys") auto

lemma push_new_length: "length bs \<le> u64_max \<Longrightarrow> length (content (push bs (new_at cap seq))) = min (max cap 1) (length bs)"
  by (cases "max cap 1 \<le> length bs")
    (simp_all add: new_at_def push_def keep_def content_def drop_oldest_fits Let_def sat_add_def not_le less_imp_le
      del: max_less_iff_conj max.bounded_iff)

lemma new_with_replay_length:
  assumes "end_seq \<le> u64_max"
  shows "length (content (new_with_replay cap end_seq replay)) = min (max cap 1) (length (drop (length replay - end_seq) replay))"
proof (cases "replay = []")
  case True
  then show ?thesis by (simp add: new_with_replay_def new_at_def content_def)
next
  case False
  then show ?thesis using push_new_length [of "drop (length replay - end_seq) replay"] assms
    by (simp only: new_with_replay_eq [OF False] Let_def) simp
qed

definition snapshot_text :: "bytes list \<times> nat \<Rightarrow> bytes \<times> nat" where
  "snapshot_text s = (concat (fst s), snd s)"

definition demo_ring :: ring_buffer where
  "demo_ring = fold push [''abc'', ''defg'', ''h''] (new_at 6 7)"

lemma demo_ring_eq:
  "demo_ring = \<lparr>r_cap = 6, r_chunks = [(10, ''defg''), (14, ''h'')], r_start = 10, r_end = 15, r_len = 5\<rparr>"
  by (simp add: demo_ring_def push_def keep_def new_at_def sat_add_def drop_oldest.simps)

section \<open>How much is kept\<close>

text \<open>
  Of pieces of the given sizes, newest first, how many bytes fit a room when whole pieces are taken
  until one does not fit.
\<close>

fun fitting :: "nat \<Rightarrow> nat list \<Rightarrow> nat" where
  "fitting room [] = 0"
| "fitting room (n # ns) = (if n \<le> room then n + fitting (room - n) ns else 0)"

definition chunk_sizes :: "'a ring_buffer_scheme \<Rightarrow> nat list" where
  "chunk_sizes r = rev (map (\<lambda>c. length (snd c)) (r_chunks r))"

definition push_sizes :: "nat \<Rightarrow> bytes list \<Rightarrow> nat list" where
  "push_sizes cap ps = rev (map (\<lambda>p. min (length p) cap) ps)"

lemma fitting_0: "fitting 0 ns = 0"
  by (induction ns) auto

lemma fitting_all: "sum_list ns \<le> room \<Longrightarrow> fitting room ns = sum_list ns"
  by (induction ns arbitrary: room) auto

lemma fitting_too_much: "room < sum_list ns + n \<Longrightarrow> fitting room (ns @ [n]) = fitting room ns"
  by (induction ns arbitrary: room) auto

lemma sum_chunk_sizes: "sum_list (chunk_sizes r) = length (content r)"
  by (simp add: chunk_sizes_def content_def length_concat comp_def)

lemma ring_fitting: "ring_wf r \<Longrightarrow> fitting (r_cap r) (chunk_sizes r) = length (content r)"
  using fitting_all [of "chunk_sizes r" "r_cap r"] unfolding sum_chunk_sizes ring_wf_def by metis

lemma drop_oldest_fitting:
  "r_len r = length (content r) \<Longrightarrow> room \<le> r_cap r \<Longrightarrow> fitting room (chunk_sizes (drop_oldest r)) = fitting room (chunk_sizes r)"
proof (induction r rule: drop_oldest.induct)
  case (1 r)
  show ?case
  proof (cases "r_len r \<le> r_cap r")
    case True
    then show ?thesis by (simp add: drop_oldest.simps [of r])
  next
    case False
    have "r_chunks r \<noteq> []" using False "1.prems"(1) by (auto simp: content_def)
    then obtain a chunk cs where cs: "r_chunks r = (a, chunk) # cs" by (cases "r_chunks r") auto
    let ?r = "r\<lparr>r_chunks := cs, r_len := r_len r - length chunk, r_start := sat_add (r_start r) (length chunk)\<rparr>"
    have e: "drop_oldest r = drop_oldest ?r" using False cs by (simp add: drop_oldest.simps [of r])
    have l: "r_len ?r = length (content ?r)" using "1.prems"(1) cs by (simp add: content_def)
    have z: "chunk_sizes r = chunk_sizes ?r @ [length chunk]" by (simp add: chunk_sizes_def cs)
    have "room < sum_list (chunk_sizes ?r) + length chunk"
      using False "1.prems" sum_chunk_sizes [of r] unfolding z by simp
    from fitting_too_much [OF this] "1.IH" [OF False cs refl l] "1.prems"(2) show ?thesis unfolding e z by simp
  qed
qed

lemma push_fitting:
  assumes r: "holds r s0 stream" and fits: "r_end r + length bs \<le> u64_max" and room: "room \<le> r_cap r"
  shows "fitting room (chunk_sizes (push bs r)) = fitting room (min (length bs) (r_cap r) # chunk_sizes r)"
proof (cases "r_cap r \<le> length bs")
  case True
  then have "chunk_sizes (push bs r) = [r_cap r]" using fits by (simp add: push_def keep_def chunk_sizes_def Let_def)
  then show ?thesis using True room fitting_0 [of "chunk_sizes r"] by (cases "room = r_cap r") simp_all
next
  case False
  let ?r = "r\<lparr>r_end := r_end r + length bs, r_len := r_len r + length bs, r_chunks := r_chunks r @ [(r_end r, bs)]\<rparr>"
  have wf: "ring_wf r" using r by (simp add: holds_def)
  have s: "sat_add (r_len r) (length bs) = r_len r + length bs"
    using wf ring_wf_window [OF wf] fits by (simp add: ring_wf_def sat_add_def)
  have e: "push bs r = drop_oldest ?r" using False fits s by (simp add: push_def keep_def sat_add_def Let_def)
  have "r_len ?r = length (content ?r)" using wf by (simp add: ring_wf_def content_def)
  from drop_oldest_fitting [OF this, of room] room have "fitting room (chunk_sizes (push bs r)) = fitting room (chunk_sizes ?r)" unfolding e by simp
  then show ?thesis using False by (simp add: chunk_sizes_def)
qed

lemma fold_push_fitting:
  assumes "s0 + length (concat ps) \<le> u64_max" "room \<le> max cap 1"
  shows "fitting room (chunk_sizes (fold push ps (new_at cap s0))) = fitting room (push_sizes (max cap 1) ps)"
  using assms
proof (induction ps arbitrary: room rule: rev_induct)
  case Nil
  then show ?case by (simp add: chunk_sizes_def push_sizes_def new_at_def)
next
  case (snoc p ps)
  let ?r = "fold push ps (new_at cap s0)"
  have h: "holds ?r s0 (concat ps)"
    using ring_log.adds_log [OF holds_new_at, of s0 ps cap] snoc.prems(1) by simp
  then have e: "r_end ?r + length p \<le> u64_max" using snoc.prems(1) by (simp add: holds_def)
  have c: "r_cap ?r = max cap 1" using fold_push_cap [of ps "new_at cap s0"] by (simp add: new_at_def)
  have z: "push_sizes (max cap 1) (ps @ [p]) = min (length p) (max cap 1) # push_sizes (max cap 1) ps"
    by (simp add: push_sizes_def)
  have "fitting room (chunk_sizes (push p ?r)) = fitting room (min (length p) (max cap 1) # chunk_sizes ?r)"
    using push_fitting [OF h e, of room] snoc.prems(2) c by simp
  also have "\<dots> = fitting room (push_sizes (max cap 1) (ps @ [p]))"
    unfolding z using snoc.IH [of "room - min (length p) (max cap 1)"] snoc.prems by simp
  finally show ?case by simp
qed

section \<open>Properties\<close>

text \<open>
  C28. A ring that took any pushes holds the end of the pushed stream: its chunks are numbered without a
  gap up to the end of the stream, and its bytes are the stream's from its first number on. How many
  they are is exact: the newest pushes that fit the capacity together, each whole, up to the first that
  does not fit, where a push of the capacity or more counts as its last capacity bytes. So nothing is
  dropped before the capacity is exceeded, and a chunk leaves only where it and the newer ones do not fit.
\<close>

theorem ring_is_window:
  assumes "s0 + length (concat ps) \<le> u64_max"
  shows "let r = fold push ps (new_at cap s0) in
    contig (r_start r) (r_chunks r) (r_end r) \<and> r_end r = s0 + length (concat ps) \<and> s0 \<le> r_start r \<and>
    content r = drop (r_start r - s0) (concat ps) \<and> length (content r) \<le> max cap 1 \<and>
    length (content r) = fitting (max cap 1) (rev (map (\<lambda>p. min (length p) (max cap 1)) ps))"
proof -
  have c: "r_cap (fold push ps (new_at cap s0)) = max cap 1"
    using fold_push_cap [of ps "new_at cap s0"] by (simp add: new_at_def)
  have "holds (fold push ps (new_at cap s0)) s0 ([] @ concat ps)"
    by (rule ring_log.adds_log [OF holds_new_at]) (use assms in simp_all)
  moreover from this have "fitting (max cap 1) (chunk_sizes (fold push ps (new_at cap s0))) = length (content (fold push ps (new_at cap s0)))"
    using ring_fitting unfolding holds_def c [symmetric] by blast
  moreover have "fitting (max cap 1) (chunk_sizes (fold push ps (new_at cap s0))) =
      fitting (max cap 1) (rev (map (\<lambda>p. min (length p) (max cap 1)) ps))"
    using fold_push_fitting [OF assms order_refl] by (simp add: push_sizes_def)
  ultimately show ?thesis using c unfolding holds_def ring_wf_def Let_def append_Nil by metis
qed

theorem ring_is_window_witness:
  "7 + length (concat [''abc'', ''defg'', ''h'']) \<le> u64_max \<and> r_end demo_ring = 7 + length (concat [''abc'', ''defg'', ''h'']) \<and>
   content demo_ring = drop (r_start demo_ring - 7) (concat [''abc'', ''defg'', ''h'']) \<and> content demo_ring = ''defgh'' \<and>
   length (content demo_ring) = fitting 6 [1, 4, 3]"
proof -
  have fits: "7 + length (concat [''abc'', ''defg'', ''h'']) \<le> u64_max" by simp
  have "content demo_ring = ''defgh''" by (simp add: demo_ring_eq content_def)
  with ring_is_window [OF fits, of 6, folded demo_ring_def] fits show ?thesis unfolding Let_def by simp
qed

text \<open>
  C29. A client that resumes at a number the ring reached gets exactly the bytes of the stream from that
  number, or from the oldest byte kept and the count of bytes dropped in between. One that asks for no
  number gets the whole ring, and one ahead of the ring gets the whole ring and how far ahead it was,
  never an empty replay in silence.
\<close>

theorem replay_exact:
  assumes fits: "s0 + length (concat ps) \<le> u64_max" and n: "n \<le> u64_max"
  shows "let r = fold push ps (new_at cap s0); stream = concat ps in
    snapshot_text (snapshot_since r None) = (drop (r_start r - s0) stream, 0) \<and>
    (n \<le> r_end r \<longrightarrow> snapshot_text (snapshot_since r (Some n)) = (drop (max n (r_start r) - s0) stream, r_start r - n)) \<and>
    (r_end r < n \<longrightarrow> snapshot_text (snapshot_since r (Some n)) = (drop (r_start r - s0) stream, n - r_end r))"
proof -
  let ?r = "fold push ps (new_at cap s0)"
  have h: "holds ?r s0 (concat ps)"
    using ring_log.adds_log [OF holds_new_at, of s0 ps cap] fits by simp
  then have "content ?r = drop (r_start ?r - s0) (concat ps)" by (simp add: holds_def)
  then show ?thesis
    using snapshot_since_holds [OF h, of n] snapshot_none_holds [OF h] snapshot_ahead [OF h, of n] n
    by (simp add: Let_def snapshot_text_def)
qed

theorem replay_exact_witness:
  "7 + length (concat [''abc'', ''defg'', ''h'']) \<le> u64_max \<and> 9 \<le> u64_max \<and> 9 \<le> r_end demo_ring \<and> r_start demo_ring = 10 \<and>
   snapshot_text (snapshot_since demo_ring (Some 9)) = (''defgh'', 1)"
proof -
  have fits: "7 + length (concat [''abc'', ''defg'', ''h'']) \<le> u64_max" by simp
  have e: "9 \<le> r_end demo_ring" "r_start demo_ring = 10" by (simp_all add: demo_ring_eq)
  have "snapshot_text (snapshot_since demo_ring (Some 9)) =
      (drop (max 9 (r_start demo_ring) - 7) (concat [''abc'', ''defg'', ''h'']), r_start demo_ring - 9)"
    using replay_exact [OF fits, of 9 6, folded demo_ring_def] e(1) unfolding Let_def by simp
  with fits e show ?thesis by simp
qed

text \<open>
  A ring rebuilt from saved bytes ends at the saved number and holds the last of them, as many as
  its capacity and the numbering from zero allow.
\<close>

lemma restored_ring_exact:
  assumes "end_seq \<le> u64_max"
  shows "let r = new_with_replay cap end_seq replay in
    ring_wf r \<and> r_end r = end_seq \<and> content r = drop (length replay - min (max cap 1) end_seq) replay"
proof -
  let ?r = "new_with_replay cap end_seq replay"
  obtain s0 stream where h: "holds ?r s0 stream" and e: "s0 + length stream = end_seq"
    and s: "stream = drop (length replay - end_seq) replay"
    using new_with_replay_holds [OF assms] by blast
  have "length (content ?r) = min (max cap 1) (length stream)"
    unfolding s by (rule new_with_replay_length [OF assms])
  moreover have "content ?r = drop (r_start ?r - s0) stream" using h by (simp add: holds_def)
  ultimately have "content ?r = drop (length stream - min (max cap 1) (length stream)) stream"
    by (intro drop_by_length) simp_all
  also have "\<dots> = drop (length replay - min (max cap 1) end_seq) replay"
    unfolding s drop_drop by (rule arg_cong2 [of _ _ _ _ drop]) auto
  finally show ?thesis using h e by (auto simp: holds_def Let_def)
qed

theorem restored_ring_exact_witness:
  "(9 :: nat) \<le> u64_max \<and> content (new_with_replay 4 9 ''abcdefgh'') = ''efgh'' \<and> r_end (new_with_replay 4 9 ''abcdefgh'') = 9"
  using restored_ring_exact [of 9 4 "''abcdefgh''"] by (simp add: Let_def)

end
