(* ===== verification/Terminal_State.thy ===== *)
theory Terminal_State
  imports Prelude
begin

text \<open>
  Model of \<open>TerminalState\<close> and of the constants of \<open>mod layout\<close> of
  \<^verbatim>\<open>crates/chan-library/src/terminal_sessions/ring.rs\<close>: the region of a ring file's header that carries the
  state of the terminal, and \<open>to_le_bytes\<close> and \<open>from_le_bytes\<close> of Rust's integers.
\<close>

unbundle bit_operations_syntax

section \<open>Little-endian integers\<close>

fun le_bytes :: "nat \<Rightarrow> nat \<Rightarrow> bytes" where
  "le_bytes 0 n = []"
| "le_bytes (Suc k) n = byte_of (n mod 256) # le_bytes k (n div 256)"

fun le_val :: "bytes \<Rightarrow> nat" where
  "le_val [] = 0"
| "le_val (b # bs) = byte_val b + 256 * le_val bs"

lemma length_le_bytes [simp]: "length (le_bytes k n) = k"
  by (induction k arbitrary: n) simp_all

lemma le_val_le_bytes: "n < 256 ^ k \<Longrightarrow> le_val (le_bytes k n) = n"
proof (induction k arbitrary: n)
  case (Suc k)
  have "n div 256 < 256 ^ k" using Suc.prems by (simp add: less_mult_imp_div_less mult.commute)
  with Suc.IH show ?case by simp
qed simp

lemma le_val_widths:
  "n \<le> u16_max \<Longrightarrow> le_val (le_bytes 2 n) = n" "n \<le> u32_max \<Longrightarrow> le_val (le_bytes 4 n) = n"
  "n \<le> u64_max \<Longrightarrow> le_val (le_bytes 8 n) = n"
  by (simp_all add: le_val_le_bytes)

section \<open>The state region\<close>

definition MAGIC :: bytes where "MAGIC = ''CHANRING''"
definition FORMAT_VERSION :: nat where "FORMAT_VERSION = 2"
definition STATELESS_FORMAT_VERSION :: nat where "STATELESS_FORMAT_VERSION = 1"
definition HEADER_LEN :: nat where "HEADER_LEN = 64"
definition VERSION_AT :: nat where "VERSION_AT = 8"
definition HEADER_LEN_AT :: nat where "HEADER_LEN_AT = 12"
definition CAPACITY_AT :: nat where "CAPACITY_AT = 16"
definition WINDOW_AT :: nat where "WINDOW_AT = 24"
definition WINDOW_LEN :: nat where "WINDOW_LEN = 24"
definition STATE_AT :: nat where "STATE_AT = 48"
definition STATE_LEN :: nat where "STATE_LEN = 16"
definition MODE_SLOTS :: nat where "MODE_SLOTS = 7"
definition FLAG_ALT_SCREEN :: nat where "FLAG_ALT_SCREEN = 1"
definition FLAG_STOPPED :: nat where "FLAG_STOPPED = 2"

lemmas layout_defs = FORMAT_VERSION_def STATELESS_FORMAT_VERSION_def HEADER_LEN_def VERSION_AT_def HEADER_LEN_AT_def
  CAPACITY_AT_def WINDOW_AT_def WINDOW_LEN_def STATE_AT_def STATE_LEN_def MODE_SLOTS_def

text \<open>The \<open>BTreeSet<u16>\<close> of modes is the list of its elements in the order it iterates, ascending.\<close>

record terminal_state =
  alt_screen :: bool
  private_modes :: "nat list"

definition encode :: "terminal_state \<Rightarrow> bool \<Rightarrow> bytes" where
  "encode s stopped =
     (let flags = (0 :: nat);
          flags = (if alt_screen s then flags OR FLAG_ALT_SCREEN else flags);
          flags = (if stopped then flags OR FLAG_STOPPED else flags);
          modes = concat (map (le_bytes 2) (take MODE_SLOTS (private_modes s)))
      in le_bytes 2 flags @ modes @ replicate (STATE_LEN - 2 - length modes) (byte_of 0))"

fun slots :: "bytes \<Rightarrow> nat list" where
  "slots (a # b # bs) = le_val [a, b] # slots bs"
| "slots bs = []"

definition decode :: "bytes \<Rightarrow> terminal_state \<times> bool" where
  "decode region =
     (let flags = le_val (take 2 region);
          modes = sort (remdups (filter (\<lambda>m. m \<noteq> 0) (slots (drop 2 region))))
      in (\<lparr>alt_screen = flags AND FLAG_ALT_SCREEN \<noteq> 0, private_modes = modes\<rparr>, flags AND FLAG_STOPPED \<noteq> 0))"

definition with_stop :: "bytes \<Rightarrow> bytes" where
  "with_stop region = encode (fst (decode region)) True"

section \<open>Encoding and decoding agree\<close>

definition state_ok :: "terminal_state \<Rightarrow> bool" where
  "state_ok s \<longleftrightarrow> sorted (private_modes s) \<and> distinct (private_modes s) \<and> length (private_modes s) \<le> MODE_SLOTS \<and>
     (\<forall>m\<in>set (private_modes s). 0 < m \<and> m \<le> u16_max)"

lemma length_modes: "length (concat (map (le_bytes 2) ms)) = 2 * length ms"
  by (induction ms) simp_all

lemma length_encode [simp]: "length (encode s stopped) = STATE_LEN"
  by (simp add: encode_def Let_def length_modes STATE_LEN_def MODE_SLOTS_def min_def)

lemma slots_modes:
  "\<forall>m\<in>set ms. m \<le> u16_max \<Longrightarrow> slots (concat (map (le_bytes 2) ms) @ bs) = ms @ slots bs"
proof (induction ms)
  case (Cons m ms)
  have "m div 256 < 256" using Cons.prems by (simp add: less_mult_imp_div_less)
  with Cons show ?case by (simp add: numeral_2_eq_2)
qed simp

lemma slots_zeros: "set (slots (replicate n (byte_of 0))) \<subseteq> {0}"
proof (induction n rule: less_induct)
  case (less n)
  consider "n = 0" | "n = 1" | k where "n = Suc (Suc k)" by (metis One_nat_def not0_implies_Suc)
  then show ?case using less.IH by cases auto
qed

lemma slots_length: "length (slots bs) = length bs div 2"
  by (induction bs rule: slots.induct) simp_all

lemma slots_le: "m \<in> set (slots bs) \<Longrightarrow> m \<le> u16_max"
proof (induction bs rule: slots.induct)
  case (1 a b bs)
  have lim: "x < 256 \<Longrightarrow> y < 256 \<Longrightarrow> x + 256 * (y + 256 * 0) \<le> u16_max" for x y :: nat by simp
  have "le_val [a, b] \<le> u16_max" unfolding le_val.simps by (rule lim) simp_all
  with 1 show ?case by auto
qed simp_all

lemma decode_encode:
  assumes "state_ok s"
  shows "decode (encode s stopped) = (s, stopped)"
proof -
  let ?ms = "private_modes s"
  let ?z = "replicate (STATE_LEN - 2 - length (concat (map (le_bytes 2) ?ms))) (byte_of 0 :: byte)"
  have t: "take MODE_SLOTS ?ms = ?ms" using assms by (simp add: state_ok_def)
  have z: "filter (\<lambda>m. m \<noteq> 0) (slots ?z) = []" using slots_zeros by (auto simp: filter_empty_conv)
  have "slots (concat (map (le_bytes 2) ?ms) @ ?z) = ?ms @ slots ?z"
    using assms by (intro slots_modes) (simp add: state_ok_def)
  moreover have "filter (\<lambda>m. m \<noteq> 0) ?ms = ?ms" using assms by (auto simp: state_ok_def filter_id_conv)
  ultimately have m: "sort (remdups (filter (\<lambda>m. m \<noteq> 0) (slots (concat (map (le_bytes 2) ?ms) @ ?z)))) = ?ms"
    using assms z by (simp add: state_ok_def distinct_remdups_id sorted_sort_id)
  define flags where "flags = ((if alt_screen s then 1 else 0) OR (if stopped then 2 else 0) :: nat)"
  have e: "encode s stopped = le_bytes 2 flags @ concat (map (le_bytes 2) ?ms) @ ?z"
    unfolding encode_def flags_def t Let_def FLAG_ALT_SCREEN_def FLAG_STOPPED_def by simp
  have f: "le_val (le_bytes 2 flags) = flags" by (rule le_val_widths) (simp add: flags_def)
  have "take 2 (encode s stopped) = le_bytes 2 flags" "drop 2 (encode s stopped) = concat (map (le_bytes 2) ?ms) @ ?z"
    unfolding e by simp_all
  then show ?thesis
    unfolding decode_def Let_def using m f
    by (simp add: FLAG_ALT_SCREEN_def FLAG_STOPPED_def) (simp add: flags_def)
qed

lemma decode_ok:
  assumes "length region = STATE_LEN"
  shows "state_ok (fst (decode region))"
proof -
  let ?ms = "filter (\<lambda>m. m \<noteq> 0) (slots (drop 2 region))"
  have "length ?ms \<le> length (slots (drop 2 region))" by (rule length_filter_le)
  also have "\<dots> = 7" using assms by (simp add: slots_length STATE_LEN_def)
  finally have "length (remdups ?ms) \<le> 7" using length_remdups_leq [of ?ms] by linarith
  then show ?thesis
    by (auto simp: state_ok_def decode_def Let_def MODE_SLOTS_def slots_le)
qed

lemma length_with_stop [simp]: "length (with_stop region) = STATE_LEN"
  by (simp add: with_stop_def)

lemma decode_with_stop:
  "length region = STATE_LEN \<Longrightarrow> decode (with_stop region) = (fst (decode region), True)"
  by (simp add: with_stop_def decode_encode decode_ok)

section \<open>Properties\<close>

text \<open>
  C30. The state region of the header is lossless: a state with at most as many modes as there are slots
  is read back from its encoding with the stop mark it was given, and marking a stop changes no other
  part of the state.
\<close>

theorem terminal_state_round_trip:
  assumes "state_ok s"
  shows "length (encode s stopped) = STATE_LEN \<and> decode (encode s stopped) = (s, stopped) \<and>
    decode (with_stop (encode s stopped)) = (s, True)"
  using assms by (simp add: decode_encode decode_with_stop)

theorem terminal_state_round_trip_witness:
  "state_ok \<lparr>alt_screen = True, private_modes = [1, 1049, 2004]\<rparr> \<and>
   decode (with_stop (encode \<lparr>alt_screen = True, private_modes = [1, 1049, 2004]\<rparr> False)) =
     (\<lparr>alt_screen = True, private_modes = [1, 1049, 2004]\<rparr>, True)"
proof -
  have "state_ok \<lparr>alt_screen = True, private_modes = [1, 1049, 2004]\<rparr>" by (simp add: state_ok_def MODE_SLOTS_def)
  with terminal_state_round_trip [OF this] show ?thesis by simp
qed

end
