(* ===== verification/Ring_File.thy ===== *)
theory Ring_File
  imports Ring_Buffer Terminal_State Rust_Str
begin

text \<open>
  Model of \<open>RingFile\<close> of \<^verbatim>\<open>crates/chan-library/src/terminal_sessions/ring.rs\<close>: the memfd that carries a ring
  across a restart. The file is its bytes; \<open>write_all_at\<close> replaces a range of them or, past the sealed
  length, fails. \<open>writes_left\<close> and \<open>recover_after_failure\<close> say which writes fail, so the state a process
  killed between any two writes leaves is the file after an operation that failed at that write.
\<close>

record ring_file =
  rf_file :: bytes
  rf_capacity :: nat
  rf_start :: nat
  rf_end :: nat
  rf_state :: bytes
  rf_version :: nat
  rf_writes_left :: "nat option"
  rf_recover :: bool

text \<open>An \<open>io::Result<()>\<close> of a method on \<open>&mut self\<close>: the file after it, and whether it is \<open>Ok\<close>.\<close>

type_synonym io_result = "ring_file \<times> bool"

definition io_then :: "io_result \<Rightarrow> (ring_file \<Rightarrow> io_result) \<Rightarrow> io_result" where
  "io_then m f = (case m of (rf, ok) \<Rightarrow> if ok then f rf else (rf, False))"

definition overwrite :: "nat \<Rightarrow> bytes \<Rightarrow> bytes \<Rightarrow> bytes" where
  "overwrite at bs xs = take at xs @ bs @ drop (at + length bs) xs"

definition slice :: "nat \<Rightarrow> nat \<Rightarrow> bytes \<Rightarrow> bytes" where
  "slice at n xs = take n (drop at xs)"

definition write_all_at :: "ring_file \<Rightarrow> bytes \<Rightarrow> nat \<Rightarrow> io_result" where
  "write_all_at rf bs at =
     (if at + length bs \<le> length (rf_file rf) then (rf\<lparr>rf_file := overwrite at bs (rf_file rf)\<rparr>, True)
      else (rf, False))"

definition write_at :: "ring_file \<Rightarrow> bytes \<Rightarrow> nat \<Rightarrow> io_result" where
  "write_at rf bs at =
     (case rf_writes_left rf of
        Some left \<Rightarrow>
          if left = 0 then (if rf_recover rf then rf\<lparr>rf_writes_left := None\<rparr> else rf, False)
          else write_all_at (rf\<lparr>rf_writes_left := Some (left - 1)\<rparr>) bs at
      | None \<Rightarrow> write_all_at rf bs at)"

definition window :: "ring_file \<Rightarrow> nat \<Rightarrow> nat \<Rightarrow> bytes" where
  "window rf start fin = le_bytes 8 start @ le_bytes 8 fin @ le_bytes 8 (fin mod rf_capacity rf)"

definition publish :: "ring_file \<Rightarrow> nat \<Rightarrow> nat \<Rightarrow> io_result" where
  "publish rf start fin =
     io_then (write_at rf (window rf start fin) WINDOW_AT) (\<lambda>rf. (rf\<lparr>rf_start := start, rf_end := fin\<rparr>, True))"

definition raise_version :: "ring_file \<Rightarrow> io_result" where
  "raise_version rf =
     (if rf_version rf \<noteq> FORMAT_VERSION then
        io_then (write_at rf (le_bytes 4 FORMAT_VERSION) VERSION_AT) (\<lambda>rf. (rf\<lparr>rf_version := FORMAT_VERSION\<rparr>, True))
      else (rf, True))"

definition publish_with_state :: "ring_file \<Rightarrow> nat \<Rightarrow> nat \<Rightarrow> bytes \<Rightarrow> io_result" where
  "publish_with_state rf start fin state =
     io_then (write_at rf (window rf start fin @ state) WINDOW_AT)
       (\<lambda>rf. raise_version (rf\<lparr>rf_start := start, rf_end := fin, rf_state := state\<rparr>))"

definition write_state :: "ring_file \<Rightarrow> bytes \<Rightarrow> io_result" where
  "write_state rf region =
     io_then (write_at rf region STATE_AT) (\<lambda>rf. raise_version (rf\<lparr>rf_state := region\<rparr>))"

definition publish_state :: "ring_file \<Rightarrow> terminal_state \<Rightarrow> bool \<Rightarrow> io_result" where
  "publish_state rf state stopped = write_state rf (encode state stopped)"

definition file_terminal_state :: "ring_file \<Rightarrow> terminal_state option" where
  "file_terminal_state rf = (if rf_version rf = FORMAT_VERSION then Some (fst (decode (rf_state rf))) else None)"

definition file_stopped :: "ring_file \<Rightarrow> bool" where
  "file_stopped rf \<longleftrightarrow> rf_version rf = FORMAT_VERSION \<and> snd (decode (rf_state rf))"

definition reset :: "ring_file \<Rightarrow> nat \<Rightarrow> io_result" where
  "reset rf seq =
     (let header = MAGIC @ le_bytes 4 FORMAT_VERSION @ le_bytes 4 HEADER_LEN @ le_bytes 8 (rf_capacity rf) @
            window rf seq seq @ rf_state rf
      in io_then (write_at rf header 0)
           (\<lambda>rf. (rf\<lparr>rf_start := seq, rf_end := seq, rf_version := FORMAT_VERSION\<rparr>, True)))"

definition write_data :: "ring_file \<Rightarrow> nat \<Rightarrow> bytes \<Rightarrow> io_result" where
  "write_data rf at bs =
     (let offset = at mod rf_capacity rf; first = min (length bs) (rf_capacity rf - offset) in
      io_then (write_at rf (take first bs) (HEADER_LEN + offset))
        (\<lambda>rf. if first < length bs then write_at rf (drop first bs) HEADER_LEN else (rf, True)))"

definition retire :: "ring_file \<Rightarrow> nat \<Rightarrow> io_result" where
  "retire rf start = (if rf_start rf < start then publish rf (min start (rf_end rf)) (rf_end rf) else (rf, True))"

text \<open>The part of \<open>append_with_state\<close> after the gap check.\<close>

definition append_window :: "ring_file \<Rightarrow> nat \<Rightarrow> bytes \<Rightarrow> bytes option \<Rightarrow> io_result" where
  "append_window rf at bs state =
     (let fin = sat_add at (length bs);
          kept = drop (length bs - rf_capacity rf) bs;
          start = max (rf_start rf) (fin - rf_capacity rf)
      in io_then (retire rf start) (\<lambda>rf.
           io_then (write_data rf (fin - length kept) kept) (\<lambda>rf.
             case state of
               Some st \<Rightarrow> publish_with_state rf start fin st
             | None \<Rightarrow> publish rf start fin)))"

definition append_with_state :: "ring_file \<Rightarrow> nat \<Rightarrow> bytes \<Rightarrow> bytes option \<Rightarrow> io_result" where
  "append_with_state rf at bs state =
     (if bs = [] then (rf, True)
      else io_then (if at \<noteq> rf_end rf then reset rf at else (rf, True)) (\<lambda>rf. append_window rf at bs state))"

definition append_bytes :: "ring_file \<Rightarrow> nat \<Rightarrow> bytes \<Rightarrow> io_result" where
  "append_bytes rf at bs = append_with_state rf at bs None"

text \<open>
  \<open>create\<close> after the system calls that make a zero-filled file of the right length, which cannot fail
  here, and \<open>adopt\<close> of a file with the given bytes.
\<close>

definition create :: "nat \<Rightarrow> ring_file option" where
  "create capacity =
     (let cap = max capacity 1;
          rf = \<lparr>rf_file = replicate (HEADER_LEN + cap) (byte_of 0), rf_capacity = cap, rf_start = 0, rf_end = 0,
            rf_state = replicate STATE_LEN (byte_of 0), rf_version = FORMAT_VERSION, rf_writes_left = None,
            rf_recover = False\<rparr>
      in case reset rf 0 of (rf1, ok) \<Rightarrow> if ok then Some rf1 else None)"

definition adopt :: "bytes \<Rightarrow> (bytes, ring_file) res" where
  "adopt file =
     (if length file \<le> HEADER_LEN then
        Err (''a '' @ show_nat (length file) @ ''-byte file has no ring behind its header'')
      else Ok \<lparr>rf_file = file, rf_capacity = length file - HEADER_LEN, rf_start = 0, rf_end = 0,
        rf_state = replicate STATE_LEN (byte_of 0), rf_version = 0, rf_writes_left = None, rf_recover = False\<rparr>)"

definition read_exact_at :: "bytes \<Rightarrow> nat \<Rightarrow> nat \<Rightarrow> (bytes, bytes) res" where
  "read_exact_at file n at =
     (if n = 0 \<or> at + n \<le> length file then Ok (slice at n file) else Err ''failed to fill whole buffer'')"

definition map_err :: "('e \<Rightarrow> 'f) \<Rightarrow> ('e, 'a) res \<Rightarrow> ('f, 'a) res" where
  "map_err f m = (case m of Inl e \<Rightarrow> Inl (f e) | Inr x \<Rightarrow> Inr x)"

definition read_file :: "ring_file \<Rightarrow> (bytes, ring_file \<times> nat \<times> bytes) res" where
  "read_file rf =
     rbind (map_err (\<lambda>e. ''reading the header: '' @ e) (read_exact_at (rf_file rf) HEADER_LEN 0)) (\<lambda>header.
     let u32_at = (\<lambda>at. le_val (slice at 4 header)); u64_at = (\<lambda>at. le_val (slice at 8 header)) in
     rbind (err_if (take 8 header \<noteq> MAGIC) ''the header has no ring magic'') (\<lambda>_.
     let version = u32_at VERSION_AT in
     rbind (err_if (version \<noteq> FORMAT_VERSION \<and> version \<noteq> STATELESS_FORMAT_VERSION)
       (''format version '' @ show_nat version @ '' is not supported'')) (\<lambda>_.
     let header_len = u32_at HEADER_LEN_AT in
     rbind (err_if (header_len \<noteq> HEADER_LEN) (''header length '' @ show_nat header_len @ '' is not supported'')) (\<lambda>_.
     let capacity = u64_at CAPACITY_AT in
     rbind (err_if (capacity \<noteq> rf_capacity rf)
       (''the header's capacity '' @ show_nat capacity @ '' disagrees with the file's '' @ show_nat (rf_capacity rf))) (\<lambda>_.
     let start = u64_at WINDOW_AT; fin = u64_at (WINDOW_AT + 8); write_offset = u64_at (WINDOW_AT + 16) in
     rbind (err_if (fin < start \<or> capacity < fin - start)
       (''the window '' @ show_nat start @ ''..'' @ show_nat fin @ '' does not fit a '' @ show_nat capacity @ ''-byte ring'')) (\<lambda>_.
     rbind (err_if (write_offset \<noteq> fin mod capacity)
       (''the write offset '' @ show_nat write_offset @ '' disagrees with the end '' @ show_nat fin)) (\<lambda>_.
     let len = fin - start; at = start mod capacity; first = min len (capacity - at) in
     rbind (map_err (\<lambda>e. ''reading the ring bytes: '' @ e)
       (rbind (read_exact_at (rf_file rf) first (HEADER_LEN + at)) (\<lambda>head.
        rbind (read_exact_at (rf_file rf) (len - first) HEADER_LEN) (\<lambda>tail. Ok (head @ tail))))) (\<lambda>bs.
     Ok (rf\<lparr>rf_start := start, rf_end := fin, rf_version := version,
           rf_state := (if version = STATELESS_FORMAT_VERSION then replicate STATE_LEN (byte_of 0)
             else slice STATE_AT STATE_LEN header)\<rparr>, fin, bs)))))))))"

section \<open>Slices of an overwritten file\<close>

lemma length_slice [simp]: "length (slice at n xs) = min n (length xs - at)"
  by (simp add: slice_def)

lemma length_overwrite [simp]: "at + length bs \<le> length xs \<Longrightarrow> length (overwrite at bs xs) = length xs"
  by (simp add: overwrite_def)

lemma nth_overwrite:
  "at + length bs \<le> length xs \<Longrightarrow> i < length xs \<Longrightarrow>
    overwrite at bs xs ! i = (if at \<le> i \<and> i < at + length bs then bs ! (i - at) else xs ! i)"
  by (auto simp: overwrite_def nth_append)

lemma slice_overwrite_outside:
  "at + length bs \<le> length xs \<Longrightarrow> off + n \<le> at \<or> at + length bs \<le> off \<Longrightarrow>
    slice off n (overwrite at bs xs) = slice off n xs"
  by (rule nth_equalityI) (auto simp: slice_def nth_overwrite)

lemma slice_overwrite_inside:
  "at + length bs \<le> length xs \<Longrightarrow> at \<le> off \<Longrightarrow> off + n \<le> at + length bs \<Longrightarrow>
    slice off n (overwrite at bs xs) = slice (off - at) n bs"
  by (rule nth_equalityI) (auto simp: slice_def nth_overwrite)

lemma slice_slice: "off + n \<le> m \<Longrightarrow> slice off n (slice at m xs) = slice (at + off) n xs"
  by (rule nth_equalityI) (auto simp: slice_def add.assoc)

section \<open>The header describes the file\<close>

definition data_at :: "ring_file \<Rightarrow> nat \<Rightarrow> byte" where
  "data_at rf i = rf_file rf ! (HEADER_LEN + i mod rf_capacity rf)"

definition header_ok :: "ring_file \<Rightarrow> bool" where
  "header_ok rf \<longleftrightarrow>
     slice 0 8 (rf_file rf) = MAGIC \<and> slice 8 4 (rf_file rf) = le_bytes 4 (rf_version rf) \<and>
     slice 12 4 (rf_file rf) = le_bytes 4 64 \<and> slice 16 8 (rf_file rf) = le_bytes 8 (rf_capacity rf) \<and>
     slice 24 24 (rf_file rf) = window rf (rf_start rf) (rf_end rf) \<and>
     (rf_version rf = 2 \<longrightarrow> slice 48 16 (rf_file rf) = rf_state rf) \<and> (rf_version rf = 1 \<or> rf_version rf = 2)"

definition sized :: "ring_file \<Rightarrow> bool" where
  "sized rf \<longleftrightarrow> length (rf_file rf) = 64 + rf_capacity rf \<and> 1 \<le> rf_capacity rf \<and> rf_capacity rf \<le> u64_max \<and>
     length (rf_state rf) = 16"

definition window_ok :: "ring_file \<Rightarrow> nat \<Rightarrow> nat \<Rightarrow> bool" where
  "window_ok rf start fin \<longleftrightarrow> start \<le> fin \<and> fin - start \<le> rf_capacity rf \<and> fin \<le> u64_max"

definition intact :: "ring_file \<Rightarrow> (nat \<Rightarrow> byte) \<Rightarrow> nat \<Rightarrow> nat \<Rightarrow> bool" where
  "intact rf str start fin \<longleftrightarrow> (\<forall>i. start \<le> i \<and> i < fin \<longrightarrow> data_at rf i = str i)"

text \<open>A sound file: its header is well formed and every byte it counts is the stream's.\<close>

definition sound :: "ring_file \<Rightarrow> (nat \<Rightarrow> byte) \<Rightarrow> bool" where
  "sound rf str \<longleftrightarrow> sized rf \<and> header_ok rf \<and> window_ok rf (rf_start rf) (rf_end rf) \<and>
     intact rf str (rf_start rf) (rf_end rf)"

lemma length_window [simp]: "length (window rf s e) = 24"
  by (simp add: window_def)

lemma length_MAGIC [simp]: "length MAGIC = 8"
  by (simp add: MAGIC_def)

lemma window_capacity: "rf_capacity rf' = rf_capacity rf \<Longrightarrow> window rf' = window rf"
  by (simp add: window_def fun_eq_iff)

lemma wl_frame [simp]:
  "sized (rf\<lparr>rf_writes_left := w\<rparr>) = sized rf" "header_ok (rf\<lparr>rf_writes_left := w\<rparr>) = header_ok rf"
  "window_ok (rf\<lparr>rf_writes_left := w\<rparr>) = window_ok rf" "intact (rf\<lparr>rf_writes_left := w\<rparr>) = intact rf"
  "sound (rf\<lparr>rf_writes_left := w\<rparr>) = sound rf" "window (rf\<lparr>rf_writes_left := w\<rparr>) = window rf"
  "data_at (rf\<lparr>rf_writes_left := w\<rparr>) = data_at rf"
  by (simp_all add: sized_def header_ok_def window_ok_def intact_def sound_def window_def data_at_def fun_eq_iff)

text \<open>A write fails and changes nothing, or replaces its range.\<close>

lemma write_at_cases:
  obtains (fails) w where "write_at rf bs at = (rf\<lparr>rf_writes_left := w\<rparr>, False)"
  | (wrote) w where "at + length bs \<le> length (rf_file rf)"
      "write_at rf bs at = (rf\<lparr>rf_writes_left := w, rf_file := overwrite at bs (rf_file rf)\<rparr>, True)"
      "rf_writes_left rf = None \<Longrightarrow> w = None"
proof (cases "rf_writes_left rf")
  case None
  have same: "rf = rf\<lparr>rf_writes_left := None\<rparr>" using None by simp
  show thesis
  proof (cases "at + length bs \<le> length (rf_file rf)")
    case True
    with None show thesis by (intro wrote [of None]) (simp_all add: write_at_def write_all_at_def)
  next
    case False
    with None show thesis by (intro fails [of None]) (simp add: write_at_def write_all_at_def)
  qed
next
  case (Some left)
  show thesis
  proof (cases "left = 0")
    case True
    with Some show thesis
      by (intro fails [of "if rf_recover rf then None else Some left"]) (simp add: write_at_def)
  next
    case False
    show thesis
    proof (cases "at + length bs \<le> length (rf_file rf)")
      case True
      with Some False show thesis by (intro wrote [of "Some (left - 1)"]) (simp_all add: write_at_def write_all_at_def)
    next
      case f: False
      with Some False show thesis by (intro fails [of "Some (left - 1)"]) (simp add: write_at_def write_all_at_def)
    qed
  qed
qed

lemma write_at_ok:
  "rf_writes_left rf = None \<Longrightarrow> at + length bs \<le> length (rf_file rf) \<Longrightarrow>
    write_at rf bs at = (rf\<lparr>rf_file := overwrite at bs (rf_file rf)\<rparr>, True)"
  by (simp add: write_at_def write_all_at_def)

lemma data_overwrite_header:
  assumes "sized rf" "at + length bs \<le> 64"
  shows "data_at (rf\<lparr>rf_file := overwrite at bs (rf_file rf)\<rparr>) i = data_at rf i"
proof -
  have "i mod rf_capacity rf < rf_capacity rf" using assms(1) by (simp add: sized_def)
  with assms show ?thesis by (simp add: data_at_def sized_def nth_overwrite HEADER_LEN_def)
qed

lemma sized_overwrite:
  "sized rf \<Longrightarrow> at + length bs \<le> length (rf_file rf) \<Longrightarrow> sized (rf\<lparr>rf_file := overwrite at bs (rf_file rf)\<rparr>)"
  by (simp add: sized_def)

subsection \<open>Publishing\<close>

lemma publish_cases:
  assumes "sized rf" "header_ok rf" "window_ok rf s e" "intact rf str s e"
  obtains (fails) w where "publish rf s e = (rf\<lparr>rf_writes_left := w\<rparr>, False)"
  | (wrote) rf' where "publish rf s e = (rf', True)" "sound rf' str" "rf_start rf' = s" "rf_end rf' = e"
      "rf_capacity rf' = rf_capacity rf" "rf_state rf' = rf_state rf" "rf_version rf' = rf_version rf"
      "\<forall>i. data_at rf' i = data_at rf i"
proof (cases rule: write_at_cases [of rf "window rf s e" WINDOW_AT])
  case (fails w)
  then show thesis by (intro that(1) [of w]) (simp add: publish_def io_then_def)
next
  case (wrote w)
  let ?f = "overwrite WINDOW_AT (window rf s e) (rf_file rf)"
  let ?r = "rf\<lparr>rf_writes_left := w, rf_file := ?f, rf_start := s, rf_end := e\<rparr>"
  have d: "data_at ?r i = data_at rf i" for i
    using data_overwrite_header [OF assms(1), of 24 "window rf s e" i] by (simp add: data_at_def WINDOW_AT_def)
  have h: "header_ok ?r"
    using assms(1,2) wrote(1)
    by (simp add: header_ok_def sized_def WINDOW_AT_def slice_overwrite_outside slice_overwrite_inside window_def)
      (simp add: slice_def)
  have "sound ?r str"
    using assms h d wrote(1) by (simp add: sound_def sized_def window_ok_def intact_def)
  then show thesis using wrote(2) d
    by (intro that(2) [of ?r]) (simp_all add: publish_def io_then_def)
qed

text \<open>The fields an operation that only rewrites the header's version or state leaves alone.\<close>

definition same_bytes :: "ring_file \<Rightarrow> ring_file \<Rightarrow> bool" where
  "same_bytes rf rf' \<longleftrightarrow> rf_capacity rf' = rf_capacity rf \<and> rf_start rf' = rf_start rf \<and> rf_end rf' = rf_end rf \<and>
     (\<forall>i. data_at rf' i = data_at rf i)"

lemma same_bytes_trans: "same_bytes a b \<Longrightarrow> same_bytes b c \<Longrightarrow> same_bytes a c"
  by (simp add: same_bytes_def)

lemma same_bytes_wl [simp]: "same_bytes rf (rf\<lparr>rf_writes_left := w\<rparr>)"
  by (simp add: same_bytes_def)

lemma sound_same_bytes:
  "sound rf str \<Longrightarrow> same_bytes rf rf' \<Longrightarrow> sized rf' \<Longrightarrow> header_ok rf' \<Longrightarrow> sound rf' str"
  by (simp add: sound_def same_bytes_def window_ok_def intact_def)

lemma raise_version_sound:
  assumes s: "sound rf str" and st: "slice 48 16 (rf_file rf) = rf_state rf"
  shows "case raise_version rf of (rf', ok) \<Rightarrow> sound rf' str \<and> same_bytes rf rf' \<and> rf_state rf' = rf_state rf \<and>
    (ok \<longrightarrow> rf_version rf' = 2) \<and> (rf_version rf = 2 \<longrightarrow> ok \<and> rf' = rf)"
proof (cases "rf_version rf = 2")
  case True
  with s show ?thesis by (simp add: raise_version_def FORMAT_VERSION_def same_bytes_def)
next
  case False
  show ?thesis
  proof (cases rule: write_at_cases [of rf "le_bytes 4 FORMAT_VERSION" VERSION_AT])
    case (fails w)
    with False s show ?thesis by (simp add: raise_version_def FORMAT_VERSION_def io_then_def)
  next
    case (wrote w)
    let ?f = "overwrite VERSION_AT (le_bytes 4 FORMAT_VERSION) (rf_file rf)"
    let ?r = "rf\<lparr>rf_writes_left := w, rf_file := ?f, rf_version := 2\<rparr>"
    have z: "sized rf" "header_ok rf" using s by (simp_all add: sound_def)
    have b: "same_bytes rf ?r"
      using data_overwrite_header [OF z(1), of 8 "le_bytes 4 FORMAT_VERSION"]
      by (simp add: same_bytes_def data_at_def VERSION_AT_def)
    have h: "header_ok ?r"
      using z wrote(1) st
      by (simp add: header_ok_def sized_def VERSION_AT_def FORMAT_VERSION_def slice_overwrite_outside slice_overwrite_inside
          window_def) (simp add: slice_def)
    have "sized ?r" using z(1) wrote(1) by (simp add: sized_def)
    with sound_same_bytes [OF s b _ h] b wrote False show ?thesis
      by (simp add: raise_version_def FORMAT_VERSION_def io_then_def)
  qed
qed

lemma publish_with_state_sound:
  assumes s: "sized rf" "header_ok rf" "window_ok rf s e" "intact rf str s e" and st: "length st = 16"
  shows "case publish_with_state rf s e st of (rf', ok) \<Rightarrow>
    (sound rf' str \<and> rf_capacity rf' = rf_capacity rf \<and> rf_start rf' = s \<and> rf_end rf' = e \<and> rf_state rf' = st \<and>
      (ok \<longrightarrow> rf_version rf' = 2) \<and> (rf_version rf = 2 \<longrightarrow> ok \<and> rf_version rf' = 2)) \<or>
    (\<not> ok \<and> (\<exists>w. rf' = rf\<lparr>rf_writes_left := w\<rparr>))"
proof (cases rule: write_at_cases [of rf "window rf s e @ st" WINDOW_AT])
  case (fails w)
  then show ?thesis by (auto simp: publish_with_state_def io_then_def)
next
  case (wrote w)
  let ?f = "overwrite WINDOW_AT (window rf s e @ st) (rf_file rf)"
  let ?r = "rf\<lparr>rf_writes_left := w, rf_file := ?f, rf_start := s, rf_end := e, rf_state := st\<rparr>"
  have d: "data_at ?r i = data_at rf i" for i
    using data_overwrite_header [OF s(1), of 24 "window rf s e @ st" i] st by (simp add: data_at_def WINDOW_AT_def)
  have sl: "slice 48 16 ?f = st" "slice 24 24 ?f = window rf s e"
    using wrote(1) st by (simp_all add: WINDOW_AT_def slice_overwrite_inside) (simp_all add: slice_def)
  have h: "header_ok ?r"
    using s(1,2) wrote(1) st sl
    by (simp add: header_ok_def sized_def WINDOW_AT_def slice_overwrite_outside) (simp add: window_def)
  have z: "sized ?r" using s(1) wrote(1) st by (simp add: sized_def)
  have "sound ?r str" using s h d z by (simp add: sound_def window_ok_def intact_def)
  from raise_version_sound [OF this] sl(1) wrote(2) show ?thesis
    by (auto simp: publish_with_state_def io_then_def same_bytes_def split: prod.splits)
qed

lemma write_state_sound:
  assumes s: "sound rf str" and st: "length st = 16"
  shows "case write_state rf st of (rf', ok) \<Rightarrow> sound rf' str \<and> same_bytes rf rf' \<and>
    (ok \<longrightarrow> rf_state rf' = st \<and> rf_version rf' = 2)"
proof (cases rule: write_at_cases [of rf st STATE_AT])
  case (fails w)
  with s show ?thesis by (simp add: write_state_def io_then_def)
next
  case (wrote w)
  let ?f = "overwrite STATE_AT st (rf_file rf)"
  let ?r = "rf\<lparr>rf_writes_left := w, rf_file := ?f, rf_state := st\<rparr>"
  have z: "sized rf" "header_ok rf" using s by (simp_all add: sound_def)
  have b: "same_bytes rf ?r"
    using data_overwrite_header [OF z(1), of 48 st] st by (simp add: same_bytes_def data_at_def STATE_AT_def)
  have sl: "slice 48 16 ?f = st"
    using wrote(1) st by (simp add: STATE_AT_def slice_overwrite_inside) (simp add: slice_def)
  have h: "header_ok ?r"
    using z wrote(1) st sl by (simp add: header_ok_def sized_def STATE_AT_def slice_overwrite_outside) (simp add: window_def)
  have "sized ?r" using z(1) wrote(1) st by (simp add: sized_def)
  then have "sound ?r str" by (rule sound_same_bytes [OF s b _ h])
  from raise_version_sound [OF this] sl wrote(2) same_bytes_trans [OF b] show ?thesis
    by (auto simp: write_state_def io_then_def split: prod.splits)
qed

lemma intact_empty [simp]: "intact rf str s s"
  by (auto simp: intact_def)

lemma reset_sound:
  assumes z: "sized rf" and seq: "seq \<le> u64_max"
  shows "case reset rf seq of (rf', ok) \<Rightarrow>
    (ok \<and> sound rf' str \<and> rf_capacity rf' = rf_capacity rf \<and> rf_start rf' = seq \<and> rf_end rf' = seq \<and>
      rf_state rf' = rf_state rf \<and> rf_version rf' = 2) \<or> (\<not> ok \<and> (\<exists>w. rf' = rf\<lparr>rf_writes_left := w\<rparr>))"
proof -
  let ?h = "MAGIC @ le_bytes 4 2 @ le_bytes 4 64 @ le_bytes 8 (rf_capacity rf) @ window rf seq seq @ rf_state rf"
  have l: "length ?h = 64" using z by (simp add: sized_def)
  show ?thesis
  proof (cases rule: write_at_cases [of rf ?h 0])
    case (fails w)
    then show ?thesis by (auto simp: reset_def io_then_def Let_def FORMAT_VERSION_def HEADER_LEN_def)
  next
    case (wrote w)
    let ?f = "overwrite 0 ?h (rf_file rf)"
    let ?r = "rf\<lparr>rf_writes_left := w, rf_file := ?f, rf_start := seq, rf_end := seq, rf_version := 2\<rparr>"
    have sl: "slice off n ?f = slice off n ?h" if "off + n \<le> 64" for off n
      using slice_overwrite_inside [OF wrote(1), of off n] that l by simp
    have "length (rf_state rf) = 16" using z by (simp add: sized_def)
    then have "header_ok ?r"
      unfolding header_ok_def ring_file.simps
      by (simp add: sl) (simp add: slice_def window_def)
    moreover have "sized ?r" using z wrote(1) by (simp add: sized_def)
    ultimately have "sound ?r str" using seq by (simp add: sound_def window_ok_def)
    with wrote(2) show ?thesis
      by (simp add: reset_def io_then_def Let_def FORMAT_VERSION_def HEADER_LEN_def)
  qed
qed

lemma intact_mono: "intact rf str s e \<Longrightarrow> s \<le> s' \<Longrightarrow> e' \<le> e \<Longrightarrow> intact rf str s' e'"
  by (simp add: intact_def)

lemma retire_sound:
  assumes s: "sound rf str"
  shows "case retire rf start of (rf', ok) \<Rightarrow> sound rf' str \<and> rf_capacity rf' = rf_capacity rf \<and> rf_end rf' = rf_end rf \<and>
    rf_state rf' = rf_state rf \<and> rf_version rf' = rf_version rf \<and> (\<forall>i. data_at rf' i = data_at rf i) \<and>
    (ok \<longrightarrow> rf_start rf' = max (rf_start rf) (min start (rf_end rf)))"
proof (cases "rf_start rf < start")
  case True
  let ?m = "min start (rf_end rf)"
  have c: "sized rf" "header_ok rf" "window_ok rf ?m (rf_end rf)" "intact rf str ?m (rf_end rf)"
    using s True by (auto simp: sound_def window_ok_def intact_def)
  show ?thesis
    by (cases rule: publish_cases [OF c]) (use True s in \<open>auto simp: retire_def sound_def window_ok_def\<close>)
next
  case False
  with s show ?thesis by (simp add: retire_def)
qed

subsection \<open>Writing data\<close>

lemma slot_wrap:
  fixes cap :: nat
  assumes "k < cap"
  shows "(at + k) mod cap = (if at mod cap + k < cap then at mod cap + k else at mod cap + k - cap)"
proof -
  have c: "0 < cap" using assms by simp
  have e: "(at + k) mod cap = (at mod cap + k) mod cap" by (simp add: mod_add_left_eq)
  show ?thesis
  proof (cases "at mod cap + k < cap")
    case False
    have "at mod cap < cap" using c by simp
    with False assms have "at mod cap + k - cap < cap" by linarith
    with False show ?thesis unfolding e by (simp add: le_mod_geq not_less)
  qed (simp add: e)
qed

lemma slots_differ_one:
  fixes cap :: nat
  assumes "a < b" "b < a + cap"
  shows "a mod cap \<noteq> b mod cap"
proof
  assume "a mod cap = b mod cap"
  then have "cap dvd b - a" using assms(1) by (metis less_imp_le mod_eq_dvd_iff_nat)
  then show False using assms by (auto dest: dvd_imp_le)
qed

lemma slots_differ:
  fixes cap :: nat
  assumes "k < m" "m + n \<le> cap"
  shows "\<forall>j<n. (at + k) mod cap \<noteq> (at + m + j) mod cap"
proof (intro allI impI)
  fix j
  assume "j < n"
  with assms have "at + k < at + m + j" "at + m + j < at + k + cap" by linarith+
  then show "(at + k) mod cap \<noteq> (at + m + j) mod cap" by (rule slots_differ_one)
qed

text \<open>What a data write changes: the header never, and the slots of the bytes it writes only.\<close>

definition data_only :: "nat \<Rightarrow> nat \<Rightarrow> ring_file \<Rightarrow> ring_file \<Rightarrow> bool" where
  "data_only at n rf rf' \<longleftrightarrow> (\<exists>w f. rf' = rf\<lparr>rf_writes_left := w, rf_file := f\<rparr> \<and> length f = length (rf_file rf) \<and>
     take 64 f = take 64 (rf_file rf) \<and>
     (\<forall>i. (\<forall>k<n. i mod rf_capacity rf \<noteq> (at + k) mod rf_capacity rf) \<longrightarrow> data_at rf' i = data_at rf i))"

lemma slice_take: "off + n \<le> m \<Longrightarrow> slice off n (take m xs) = slice off n xs"
  by (simp add: slice_def drop_take min_def)

lemma header_take:
  assumes "take 64 f = take 64 (rf_file rf)"
  shows "header_ok (rf\<lparr>rf_writes_left := w, rf_file := f\<rparr>) = header_ok rf"
proof -
  have "slice off n f = slice off n (rf_file rf)" if "off + n \<le> 64" for off n
    using slice_take [OF that, of f] slice_take [OF that, of "rf_file rf"] assms by simp
  then show ?thesis by (simp add: header_ok_def window_def)
qed

lemma take_overwrite: "n \<le> at \<Longrightarrow> at \<le> length xs \<Longrightarrow> take n (overwrite at bs xs) = take n xs"
  by (simp add: overwrite_def min_def)

lemma nth_data_overwrite:
  assumes "sized rf" "64 \<le> at" "at + length bs \<le> length (rf_file rf)"
  shows "data_at (rf\<lparr>rf_writes_left := w, rf_file := overwrite at bs (rf_file rf)\<rparr>) i =
    (let p = 64 + i mod rf_capacity rf in if at \<le> p \<and> p < at + length bs then bs ! (p - at) else data_at rf i)"
proof -
  have "64 + i mod rf_capacity rf < length (rf_file rf)" using assms(1) by (simp add: sized_def)
  with assms(3) show ?thesis by (simp add: data_at_def HEADER_LEN_def nth_overwrite Let_def)
qed

text \<open>One piece of the data: bytes whose slots follow one another without a wrap.\<close>

lemma write_piece:
  assumes z: "sized rf" and p: "at mod rf_capacity rf = off" "off + length bs \<le> rf_capacity rf"
  shows "case write_at rf bs (64 + off) of (rf', ok) \<Rightarrow> data_only at (length bs) rf rf' \<and>
    (ok \<longrightarrow> (\<forall>k<length bs. data_at rf' (at + k) = bs ! k)) \<and> (rf_writes_left rf = None \<longrightarrow> ok \<and> rf_writes_left rf' = None)"
proof -
  have fits: "64 + off + length bs \<le> length (rf_file rf)" using z p(2) by (simp add: sized_def)
  have slot: "(at + k) mod rf_capacity rf = off + k" if "k < length bs" for k
  proof -
    have "k < rf_capacity rf" "at mod rf_capacity rf + k < rf_capacity rf" using p that by linarith+
    then show ?thesis using slot_wrap [of k "rf_capacity rf" at] p(1) by simp
  qed
  show ?thesis
  proof (cases rule: write_at_cases [of rf bs "64 + off"])
    case (fails w)
    have "data_only at (length bs) rf (rf\<lparr>rf_writes_left := w\<rparr>)"
      unfolding data_only_def by (intro exI [of _ w] exI [of _ "rf_file rf"]) simp
    moreover have "rf_writes_left rf \<noteq> None" using write_at_ok [OF _ fits] fails by auto
    ultimately show ?thesis using fails by simp
  next
    case (wrote w)
    let ?r = "rf\<lparr>rf_writes_left := w, rf_file := overwrite (64 + off) bs (rf_file rf)\<rparr>"
    have keep: "data_at ?r i = data_at rf i" if i: "\<forall>k<length bs. i mod rf_capacity rf \<noteq> (at + k) mod rf_capacity rf" for i
    proof -
      have "\<not> (off \<le> i mod rf_capacity rf \<and> i mod rf_capacity rf < off + length bs)"
      proof
        assume a: "off \<le> i mod rf_capacity rf \<and> i mod rf_capacity rf < off + length bs"
        define k where "k = i mod rf_capacity rf - off"
        have "k < length bs" "i mod rf_capacity rf = off + k" using a unfolding k_def by linarith+
        with i slot show False by auto
      qed
      then show ?thesis using nth_data_overwrite [OF z _ fits, of w i] by (auto simp: Let_def)
    qed
    have "data_only at (length bs) rf ?r"
      unfolding data_only_def using fits keep
      by (intro exI [of _ w] exI [of _ "overwrite (64 + off) bs (rf_file rf)"]) (simp add: take_overwrite)
    moreover have "\<forall>k<length bs. data_at ?r (at + k) = bs ! k"
      using nth_data_overwrite [OF z _ fits, of w] slot by (simp add: Let_def)
    ultimately show ?thesis using wrote(2,3) by auto
  qed
qed

lemma data_only_trans:
  assumes a: "data_only at m a b" and b: "data_only (at + m) n b c"
  shows "data_only at (m + n) a c"
proof -
  obtain w f where b': "b = a\<lparr>rf_writes_left := w, rf_file := f\<rparr>" "length f = length (rf_file a)" "take 64 f = take 64 (rf_file a)"
    "\<And>i. \<forall>k<m. i mod rf_capacity a \<noteq> (at + k) mod rf_capacity a \<Longrightarrow> data_at b i = data_at a i"
    using a unfolding data_only_def by blast
  have cap: "rf_capacity b = rf_capacity a" using b'(1) by simp
  obtain v g where c': "c = b\<lparr>rf_writes_left := v, rf_file := g\<rparr>" "length g = length (rf_file b)" "take 64 g = take 64 (rf_file b)"
    "\<And>i. \<forall>k<n. i mod rf_capacity a \<noteq> (at + m + k) mod rf_capacity a \<Longrightarrow> data_at c i = data_at b i"
    using b unfolding data_only_def cap by blast
  have "data_at c i = data_at a i" if i: "\<forall>k<m + n. i mod rf_capacity a \<noteq> (at + k) mod rf_capacity a" for i
  proof -
    have "\<forall>k<n. i mod rf_capacity a \<noteq> (at + m + k) mod rf_capacity a"
      using i by (metis add.assoc nat_add_left_cancel_less)
    moreover have "\<forall>k<m. i mod rf_capacity a \<noteq> (at + k) mod rf_capacity a" using i by simp
    ultimately show ?thesis using b'(4) c'(4) by simp
  qed
  then show ?thesis unfolding data_only_def
    using b' c' by (intro exI [of _ v] exI [of _ g]) simp
qed

lemma data_only_mono:
  assumes "data_only at m a b" "m \<le> n"
  shows "data_only at n a b"
proof -
  obtain w f where b: "b = a\<lparr>rf_writes_left := w, rf_file := f\<rparr>" "length f = length (rf_file a)" "take 64 f = take 64 (rf_file a)"
    "\<And>i. \<forall>k<m. i mod rf_capacity a \<noteq> (at + k) mod rf_capacity a \<Longrightarrow> data_at b i = data_at a i"
    using assms(1) unfolding data_only_def by blast
  then show ?thesis unfolding data_only_def
    using assms(2) by (intro exI [of _ w] exI [of _ f]) auto
qed

lemma data_only_frame:
  assumes "data_only at n rf rf'"
  shows "sized rf' = sized rf" "header_ok rf' = header_ok rf" "rf_capacity rf' = rf_capacity rf" "rf_start rf' = rf_start rf"
    "rf_end rf' = rf_end rf" "rf_state rf' = rf_state rf" "rf_version rf' = rf_version rf" "window_ok rf' = window_ok rf"
proof -
  obtain w f where r: "rf' = rf\<lparr>rf_writes_left := w, rf_file := f\<rparr>" "length f = length (rf_file rf)"
    "take 64 f = take 64 (rf_file rf)"
    using assms unfolding data_only_def by blast
  show "sized rf' = sized rf" "header_ok rf' = header_ok rf" "rf_capacity rf' = rf_capacity rf" "rf_start rf' = rf_start rf"
    "rf_end rf' = rf_end rf" "rf_state rf' = rf_state rf" "rf_version rf' = rf_version rf" "window_ok rf' = window_ok rf"
    unfolding r(1) using header_take [OF r(3)] r(2) by (simp_all add: sized_def window_ok_def fun_eq_iff)
qed

lemma data_only_refl [simp]: "data_only at n rf rf"
  unfolding data_only_def by (intro exI [of _ "rf_writes_left rf"] exI [of _ "rf_file rf"]) simp

lemma write_data_frame:
  assumes z: "sized rf" and len: "length bs \<le> rf_capacity rf"
  shows "case write_data rf at bs of (rf', ok) \<Rightarrow> data_only at (length bs) rf rf' \<and>
    (ok \<longrightarrow> (\<forall>k<length bs. data_at rf' (at + k) = bs ! k)) \<and> (rf_writes_left rf = None \<longrightarrow> ok \<and> rf_writes_left rf' = None)"
proof -
  let ?cap = "rf_capacity rf"
  let ?off = "at mod ?cap"
  let ?first = "min (length bs) (?cap - ?off)"
  have off: "?off < ?cap" using z by (simp add: sized_def)
  obtain r1 ok1 where w1: "write_at rf (take ?first bs) (64 + ?off) = (r1, ok1)" by force
  have p1: "data_only at ?first rf r1" "ok1 \<Longrightarrow> \<forall>k<?first. data_at r1 (at + k) = bs ! k"
    "rf_writes_left rf = None \<Longrightarrow> ok1 \<and> rf_writes_left r1 = None"
    using write_piece [where bs = "take ?first bs" and at = at, OF z refl] w1 off by (auto simp: min_def split: if_splits)
  have d1: "data_only at (length bs) rf r1" by (rule data_only_mono [OF p1(1)]) simp
  show ?thesis
  proof (cases "ok1 \<and> ?first < length bs")
    case False
    then show ?thesis using d1 p1 w1 by (auto simp: write_data_def io_then_def HEADER_LEN_def Let_def)
  next
    case True
    then have f: "?first = ?cap - ?off" by linarith
    have wrap: "(at + ?first) mod rf_capacity r1 = 0"
      using off unfolding f by (metis add_diff_inverse_nat data_only_frame(3) less_or_eq_imp_le linorder_not_le mod_add_left_eq
          mod_self p1(1))
    have z1: "sized r1" using z data_only_frame(1) [OF p1(1)] by simp
    have l: "0 + length (drop ?first bs) \<le> rf_capacity r1" using len data_only_frame(3) [OF p1(1)] by simp
    obtain r2 ok2 where w2: "write_at r1 (drop ?first bs) 64 = (r2, ok2)" by force
    have p2: "data_only (at + ?first) (length bs - ?first) r1 r2"
      "ok2 \<Longrightarrow> \<forall>k<length bs - ?first. data_at r2 (at + ?first + k) = bs ! (?first + k)"
      "rf_writes_left r1 = None \<Longrightarrow> ok2 \<and> rf_writes_left r2 = None"
      using write_piece [OF z1 wrap l] w2 by (simp_all del: min_less_iff_disj)
    have "?first + (length bs - ?first) = length bs" by simp
    then have d2: "data_only at (length bs) rf r2" using data_only_trans [OF p1(1) p2(1)] by simp
    have v: "data_at r2 (at + k) = bs ! k" if ok: "ok2" and k: "k < length bs" for k
    proof (cases "k < ?first")
      case True
      have "\<forall>j<length bs - ?first. (at + k) mod ?cap \<noteq> (at + ?first + j) mod ?cap"
        by (rule slots_differ) (use True len in auto)
      then have "data_at r2 (at + k) = data_at r1 (at + k)"
        using p2(1) data_only_frame(3) [OF p1(1)] unfolding data_only_def by auto
      with True p1(2) \<open>ok1 \<and> _\<close> show ?thesis by simp
    next
      case False
      then have "k - ?first < length bs - ?first" using k by linarith
      from p2(2) [OF ok, rule_format, OF this] show ?thesis using False by simp
    qed
    show ?thesis
      using True w1 w2 d2 v p1(3) p2(3) by (auto simp: write_data_def io_then_def HEADER_LEN_def Let_def)
  qed
qed

subsection \<open>Appending\<close>

lemma untouched:
  assumes d: "data_only (at + length bs - length kept) (length kept) r1 r2"
    and k: "kept = drop (length bs - rf_capacity r1) bs" and i: "at + length bs - rf_capacity r1 \<le> i" "i < at"
  shows "data_at r2 i = data_at r1 i"
proof -
  have l: "length kept \<le> length bs" using k by simp
  have "i mod rf_capacity r1 \<noteq> (at + length bs - length kept + j) mod rf_capacity r1" if "j < length kept" for j
  proof (rule slots_differ_one)
    show "i < at + length bs - length kept + j" using i(2) l by linarith
    show "at + length bs - length kept + j < i + rf_capacity r1" using i(1) l that by linarith
  qed
  then show ?thesis using d unfolding data_only_def by blast
qed

lemma kept_intact:
  assumes d: "data_only (at + length bs - length kept) (length kept) r1 r2"
    and v: "\<forall>j<length kept. data_at r2 (at + length bs - length kept + j) = kept ! j"
    and k: "kept = drop (length bs - rf_capacity r1) bs"
    and str: "\<forall>j<length bs. str (at + j) = bs ! j"
    and old: "intact r1 str s at" and s: "s \<le> start" "at + length bs - rf_capacity r1 \<le> start"
  shows "intact r2 str start (at + length bs)"
  unfolding intact_def
proof (intro allI impI)
  fix i
  assume i: "start \<le> i \<and> i < at + length bs"
  have l: "length kept \<le> length bs" using k by simp
  show "data_at r2 i = str i"
  proof (cases "i < at")
    case True
    then show ?thesis using untouched [OF d k] old i s by (simp add: intact_def)
  next
    case False
    define j where "j = i - at"
    have j: "j < length bs" "i = at + j" using i False unfolding j_def by linarith+
    have lk: "length kept = min (length bs) (rf_capacity r1)" using k by simp
    have m: "length bs - length kept \<le> j" using i s(2) lk j by linarith
    define m where "m = j - (length bs - length kept)"
    have "m < length kept" "at + length bs - length kept + m = i" "length bs - length kept + m = j"
      using m j l unfolding m_def by linarith+
    moreover have "kept ! m = bs ! (length bs - length kept + m)" using k lk by (simp add: min_def split: if_splits)
    ultimately show ?thesis using v str j by metis
  qed
qed

lemma append_window_sound:
  assumes s: "sound rf str" and at: "at = rf_end rf" and fits: "at + length bs \<le> u64_max" and ne: "bs \<noteq> []"
    and str: "\<forall>j<length bs. str (at + j) = bs ! j" and st: "\<forall>x. state = Some x \<longrightarrow> length x = 16"
  shows "case append_window rf at bs state of (rf', ok) \<Rightarrow> sound rf' str \<and> rf_capacity rf' = rf_capacity rf \<and>
    (ok \<longrightarrow> rf_end rf' = at + length bs \<and> rf_start rf' = max (rf_start rf) (at + length bs - rf_capacity rf) \<and>
      rf_state rf' = (case state of Some x \<Rightarrow> x | None \<Rightarrow> rf_state rf)) \<and>
    (rf_version rf = 2 \<longrightarrow> rf_version rf' = 2 \<and> (\<not> ok \<longrightarrow> rf_end rf' = at \<and> rf_state rf' = rf_state rf))"
proof -
  let ?cap = "rf_capacity rf"
  let ?fin = "at + length bs"
  define kept where "kept = drop (length bs - ?cap) bs"
  define start where "start = max (rf_start rf) (?fin - ?cap)"
  have sat: "sat_add at (length bs) = ?fin" using fits by (simp add: sat_add_def)
  obtain r1 ok1 where r1: "retire rf start = (r1, ok1)" by force
  have p1: "sound r1 str" "rf_capacity r1 = ?cap" "rf_end r1 = at" "rf_state r1 = rf_state rf" "rf_version r1 = rf_version rf"
    "ok1 \<Longrightarrow> rf_start r1 = max (rf_start rf) (min start at)"
    using retire_sound [OF s, of start] r1 at by auto
  have z1: "sized r1" "header_ok r1" using p1(1) by (simp_all add: sound_def)
  obtain r2 ok2 where r2: "write_data r1 (?fin - length kept) kept = (r2, ok2)" by force
  have len: "length kept \<le> rf_capacity r1" unfolding kept_def p1(2) by simp
  have p2: "data_only (?fin - length kept) (length kept) r1 r2"
    "ok2 \<Longrightarrow> \<forall>j<length kept. data_at r2 (?fin - length kept + j) = kept ! j"
    using write_data_frame [OF z1(1) len, of "?fin - length kept"] r2 by auto
  note f2 = data_only_frame [OF p2(1)]
  have k: "kept = drop (length bs - rf_capacity r1) bs" by (simp add: kept_def p1(2))
  have w1: "window_ok r1 (rf_start r1) at" "intact r1 str (rf_start r1) at" using p1(1,3) by (simp_all add: sound_def)
  have start_le: "rf_start rf \<le> at" using s at by (simp add: sound_def window_ok_def)
  have old: "data_at r2 i = data_at r1 i" if ok1 "rf_start r1 \<le> i" "i < at" for i
  proof (rule untouched [OF p2(1) k])
    show "?fin - rf_capacity r1 \<le> i" using that p1(2,6) unfolding start_def by (simp add: min_def max_def split: if_splits)
  qed (use that in simp)
  have mid: "sound r2 str" if ok1
    using p1(1) old [OF that] f2 p1(3) by (simp add: sound_def intact_def)
  have wok: "window_ok r2 start ?fin"
    using fits start_le s at p1(2) unfolding f2(8) start_def window_ok_def by (auto simp: sound_def sized_def)
  have new: "intact r2 str start ?fin" if "ok1" "ok2"
  proof (rule kept_intact [OF p2(1) p2(2) [OF that(2)] k str w1(2)])
    show "rf_start r1 \<le> start" using p1(6) [OF that(1)] unfolding start_def by simp
    show "?fin - rf_capacity r1 \<le> start" unfolding start_def p1(2) by simp
  qed
  have z2: "sized r2" "header_ok r2" using z1 f2 by simp_all
  have split: "append_window rf at bs state = (if \<not> ok1 then (r1, False) else if \<not> ok2 then (r2, False) else
      case state of Some x \<Rightarrow> publish_with_state r2 start ?fin x | None \<Rightarrow> publish r2 start ?fin)"
    using r1 r2 unfolding append_window_def io_then_def Let_def sat by (simp add: kept_def start_def split: option.splits)
  consider "\<not> ok1" | "ok1" "\<not> ok2" | "ok1" "ok2" by blast
  then show ?thesis
  proof cases
    case 1
    then show ?thesis using p1 split by simp
  next
    case 2
    then show ?thesis using p1 split mid f2 by simp
  next
    case 3
    show ?thesis
    proof (cases state)
      case None
      with split 3 have e: "append_window rf at bs state = publish r2 start ?fin" by simp
      show ?thesis
      proof (cases rule: publish_cases [OF z2 wok new [OF 3]])
        case (1 w)
        then show ?thesis unfolding e using None f2 p1 mid 3 by simp
      next
        case (2 r3)
        then show ?thesis unfolding e using None f2 p1 by (simp add: start_def)
      qed
    next
      case (Some x)
      with split 3 have e: "append_window rf at bs state = publish_with_state r2 start ?fin x" by simp
      obtain r3 ok3 where r3: "publish_with_state r2 start ?fin x = (r3, ok3)" by force
      from publish_with_state_sound [OF z2 wok new [OF 3] st [rule_format, OF Some]] r3
      consider w where "\<not> ok3" "r3 = r2\<lparr>rf_writes_left := w\<rparr>"
        | "sound r3 str" "rf_capacity r3 = rf_capacity r2" "rf_start r3 = start" "rf_end r3 = ?fin" "rf_state r3 = x"
          "rf_version r2 = 2 \<longrightarrow> ok3 \<and> rf_version r3 = 2"
        by fastforce
      then show ?thesis
        unfolding e r3 by cases (simp_all add: Some f2 p1 mid 3 start_def)
    qed
  qed
qed

lemma append_sound:
  assumes s: "sound rf str" and fits: "at + length bs \<le> u64_max"
    and str: "\<forall>j<length bs. str (at + j) = bs ! j" and st: "\<forall>x. state = Some x \<longrightarrow> length x = 16"
  shows "case append_with_state rf at bs state of (rf', ok) \<Rightarrow> sound rf' str \<and> rf_capacity rf' = rf_capacity rf \<and>
    (ok \<and> bs \<noteq> [] \<longrightarrow> rf_end rf' = at + length bs \<and>
      rf_start rf' = max (if at = rf_end rf then rf_start rf else at) (at + length bs - rf_capacity rf) \<and>
      rf_state rf' = (case state of Some x \<Rightarrow> x | None \<Rightarrow> rf_state rf)) \<and>
    (rf_version rf = 2 \<longrightarrow> rf_version rf' = 2 \<and>
      (\<not> ok \<longrightarrow> rf_state rf' = rf_state rf \<and> (rf_end rf' = rf_end rf \<or> rf_end rf' = at)))"
proof (cases "bs = []")
  case True
  with s show ?thesis by (simp add: append_with_state_def)
next
  case ne: False
  show ?thesis
  proof (cases "at = rf_end rf")
    case True
    obtain r ok where r: "append_window rf at bs state = (r, ok)" by force
    then have e: "append_with_state rf at bs state = (r, ok)" using True ne by (simp add: append_with_state_def io_then_def)
    show ?thesis using append_window_sound [OF s True fits ne str st] True unfolding e r by simp
  next
    case False
    obtain r1 ok1 where r1: "reset rf at = (r1, ok1)" by force
    have z: "sized rf" "at \<le> u64_max" using s fits by (simp_all add: sound_def)
    have "(ok1 \<and> sound r1 str \<and> rf_capacity r1 = rf_capacity rf \<and> rf_start r1 = at \<and> rf_end r1 = at \<and>
        rf_state r1 = rf_state rf \<and> rf_version r1 = 2) \<or> (\<not> ok1 \<and> (\<exists>w. r1 = rf\<lparr>rf_writes_left := w\<rparr>))"
      using reset_sound [OF z, of str] unfolding r1 prod.case .
    then show ?thesis
    proof (elim disjE conjE exE)
      fix w
      assume "\<not> ok1" "r1 = rf\<lparr>rf_writes_left := w\<rparr>"
      then have "append_with_state rf at bs state = (rf\<lparr>rf_writes_left := w\<rparr>, False)"
        using False ne r1 by (simp add: append_with_state_def io_then_def)
      with s show ?thesis by simp
    next
      assume r: "ok1" "sound r1 str" "rf_capacity r1 = rf_capacity rf" "rf_start r1 = at" "rf_end r1 = at"
        "rf_state r1 = rf_state rf" "rf_version r1 = 2"
      obtain r2 ok where r2: "append_window r1 at bs state = (r2, ok)" by force
      have e: "append_with_state rf at bs state = (r2, ok)"
        using False ne r1 r(1) r2 by (simp add: append_with_state_def io_then_def)
      show ?thesis
        using append_window_sound [OF r(2) r(5) [symmetric] fits ne str st] False r(3,4,6,7) unfolding e r2 by (cases state) simp_all
    qed
  qed
qed

subsection \<open>Without a failing write\<close>

definition writable :: "ring_file \<Rightarrow> bool" where
  "writable rf \<longleftrightarrow> rf_writes_left rf = None \<and> 64 \<le> length (rf_file rf)"

definition succeeds :: "io_result \<Rightarrow> bool" where
  "succeeds m \<longleftrightarrow> snd m \<and> writable (fst m)"

lemma write_at_succeeds:
  "writable rf \<Longrightarrow> at + length bs \<le> length (rf_file rf) \<Longrightarrow> succeeds (write_at rf bs at)"
  by (simp add: succeeds_def writable_def write_at_ok)

lemma io_then_succeeds: "succeeds m \<Longrightarrow> (snd m \<Longrightarrow> writable (fst m) \<Longrightarrow> succeeds (f (fst m))) \<Longrightarrow> succeeds (io_then m f)"
  by (cases m) (simp add: succeeds_def io_then_def)

lemma publish_succeeds: "writable rf \<Longrightarrow> succeeds (publish rf s e)"
  unfolding publish_def
  by (intro io_then_succeeds write_at_succeeds) (simp_all add: WINDOW_AT_def writable_def succeeds_def)

lemma raise_version_succeeds: "writable rf \<Longrightarrow> succeeds (raise_version rf)"
  unfolding raise_version_def
  by (cases "rf_version rf = FORMAT_VERSION")
    (simp_all add: io_then_def write_at_ok VERSION_AT_def writable_def succeeds_def)

lemma publish_with_state_succeeds: "writable rf \<Longrightarrow> length st = 16 \<Longrightarrow> succeeds (publish_with_state rf s e st)"
  unfolding publish_with_state_def
  by (intro io_then_succeeds write_at_succeeds raise_version_succeeds) (simp_all add: WINDOW_AT_def writable_def)

lemma write_state_succeeds: "writable rf \<Longrightarrow> length st = 16 \<Longrightarrow> succeeds (write_state rf st)"
  unfolding write_state_def
  by (intro io_then_succeeds write_at_succeeds raise_version_succeeds) (simp_all add: STATE_AT_def writable_def)

lemma reset_succeeds: "writable rf \<Longrightarrow> length (rf_state rf) = 16 \<Longrightarrow> succeeds (reset rf seq)"
  unfolding reset_def Let_def
  by (intro io_then_succeeds write_at_succeeds) (simp_all add: writable_def succeeds_def)

lemma retire_succeeds: "writable rf \<Longrightarrow> succeeds (retire rf s)"
  by (simp add: retire_def publish_succeeds) (simp add: succeeds_def)

lemma write_data_succeeds:
  assumes "writable rf" "sized rf" "length bs \<le> rf_capacity rf"
  shows "succeeds (write_data rf at bs)"
proof -
  obtain r ok where w: "write_data rf at bs = (r, ok)" by force
  have "data_only at (length bs) rf r" "ok" "rf_writes_left r = None"
    using write_data_frame [OF assms(2,3), of at] assms(1) w by (auto simp: writable_def)
  moreover have "sized r" using data_only_frame(1) [OF calculation(1)] assms(2) by simp
  ultimately show ?thesis unfolding succeeds_def w writable_def by (simp add: sized_def)
qed

lemma append_succeeds:
  assumes "writable rf" "sound rf str" "at \<le> u64_max" "\<forall>x. state = Some x \<longrightarrow> length x = 16"
  shows "succeeds (append_with_state rf at bs state)"
proof -
  have window: "succeeds (append_window r at bs state)" if r: "writable r" "sound r str" for r
    unfolding append_window_def Let_def
  proof (intro io_then_succeeds retire_succeeds write_data_succeeds)
    let ?r1 = "fst (retire r (max (rf_start r) (sat_add at (length bs) - rf_capacity r)))"
    have r1: "sound ?r1 str" "rf_capacity ?r1 = rf_capacity r"
      using retire_sound [OF r(2), of "max (rf_start r) (sat_add at (length bs) - rf_capacity r)"]
      by (auto split: prod.splits)
    then show "sized ?r1" by (simp add: sound_def)
    show "length (drop (length bs - rf_capacity r) bs) \<le> rf_capacity ?r1" using r1 by simp
  qed (use r assms(4) in \<open>auto split: option.split intro: publish_succeeds publish_with_state_succeeds\<close>)
  obtain r1 ok1 where r1: "reset rf at = (r1, ok1)" by force
  have "sized rf" using assms(2) by (simp add: sound_def)
  then have "succeeds (reset rf at)" "sound r1 str \<or> \<not> ok1"
    using reset_succeeds [OF assms(1), of at] reset_sound [OF _ assms(3), of rf str] r1 by (auto simp: sized_def)
  then have "succeeds (append_window r1 at bs state)" "ok1" using window [of r1] r1 by (auto simp: succeeds_def)
  then show ?thesis
    using window [OF assms(1,2)] r1 assms(1) unfolding append_with_state_def
    by (auto simp: io_then_def) (auto simp: succeeds_def)
qed

section \<open>Reading a file back\<close>

lemma window_fields:
  assumes "slice 24 24 f = window rf s e"
  shows "slice 24 8 f = le_bytes 8 s" "slice 32 8 f = le_bytes 8 e" "slice 40 8 f = le_bytes 8 (e mod rf_capacity rf)"
proof -
  have "slice (24 + off) 8 f = slice off 8 (window rf s e)" if "off + 8 \<le> 24" for off
    using slice_slice [OF that, of 24 f] assms by simp
  from this [of 0] this [of 8] this [of 16]
  show "slice 24 8 f = le_bytes 8 s" "slice 32 8 f = le_bytes 8 e" "slice 40 8 f = le_bytes 8 (e mod rf_capacity rf)"
    by (simp_all add: window_def) (simp_all add: slice_def)
qed

lemma wrapped_slot:
  fixes a :: nat
  assumes "a < c" "f = c - a" "k < n - f" "n \<le> c"
  shows "f + k < c \<and> \<not> a + (f + k) < c \<and> a + (f + k) - c = k"
  using assms by linarith

lemma nth_slice: "k < n \<Longrightarrow> at + n \<le> length xs \<Longrightarrow> slice at n xs ! k = xs ! (at + k)"
  by (simp add: slice_def)

text \<open>A run of slots without a wrap holds the run of the stream that is numbered there.\<close>

lemma slice_run:
  assumes z: "sized rf" and i: "intact rf str s e" and n: "s \<le> a" "a + n \<le> e"
    and slot: "\<And>k. k < n \<Longrightarrow> (a + k) mod rf_capacity rf = off + k" and fit: "off + n \<le> rf_capacity rf"
  shows "slice (64 + off) n (rf_file rf) = map str [a..<a + n]"
proof (rule nth_equalityI)
  have l: "64 + off + n \<le> length (rf_file rf)" using z fit by (simp add: sized_def)
  then show "length (slice (64 + off) n (rf_file rf)) = length (map str [a..<a + n])" by simp
  fix k
  assume "k < length (slice (64 + off) n (rf_file rf))"
  then have k: "k < n" by simp
  have "data_at rf (a + k) = str (a + k)" using i n k unfolding intact_def by simp
  moreover have "data_at rf (a + k) = rf_file rf ! (64 + off + k)" using slot [OF k] by (simp add: data_at_def HEADER_LEN_def add.assoc)
  ultimately show "slice (64 + off) n (rf_file rf) ! k = map str [a..<a + n] ! k"
    using nth_slice [OF k l] k by simp
qed

lemma ring_bytes:
  assumes z: "sized rf" and w: "window_ok rf s e" and i: "intact rf str s e"
  shows "let len = e - s; at = s mod rf_capacity rf; first = min len (rf_capacity rf - at) in
    slice (64 + at) first (rf_file rf) @ slice 64 (len - first) (rf_file rf) = map str [s..<e]"
proof -
  define at where "at = s mod rf_capacity rf"
  define first where "first = min (e - s) (rf_capacity rf - at)"
  define rest where "rest = e - s - first"
  have l: "at < rf_capacity rf" "e - s \<le> rf_capacity rf" "s \<le> e" using z w by (simp_all add: at_def sized_def window_ok_def)
  have f: "first \<le> e - s" "at + first \<le> rf_capacity rf" "rest = 0 \<or> first = rf_capacity rf - at" "s + first + rest = e" "rest \<le> rf_capacity rf"
    using l unfolding rest_def first_def by auto
  have head: "slice (64 + at) first (rf_file rf) = map str [s..<s + first]"
  proof (rule slice_run [OF z i])
    show "(s + k) mod rf_capacity rf = at + k" if k: "k < first" for k
    proof -
      have "k < rf_capacity rf" "at + k < rf_capacity rf" using k f(2) by linarith+
      then show ?thesis using slot_wrap [of k "rf_capacity rf" s] by (simp add: at_def)
    qed
  qed (use f l in simp_all)
  have tail: "slice (64 + 0) rest (rf_file rf) = map str [s + first..<s + first + rest]"
  proof (rule slice_run [OF z i])
    show "(s + first + k) mod rf_capacity rf = 0 + k" if k: "k < rest" for k
    proof -
      have m: "first + k < rf_capacity rf \<and> \<not> at + (first + k) < rf_capacity rf \<and> at + (first + k) - rf_capacity rf = k"
        by (rule wrapped_slot [OF l(1) _ _ l(2)]) (use f(3) k in \<open>auto simp: rest_def\<close>)
      then show ?thesis using slot_wrap [of "first + k" "rf_capacity rf" s] by (simp add: at_def add.assoc)
    qed
  qed (use f in simp_all)
  have "[s..<e] = [s..<s + first] @ [s + first..<s + first + rest]"
    using upt_add_eq_append [of s "s + first" rest] f(4) by simp
  then show ?thesis using head tail unfolding Let_def at_def [symmetric] first_def [symmetric] rest_def [symmetric] by simp
qed

lemma read_sound:
  assumes s: "sound rf str" and f: "rf_file rf0 = rf_file rf" "rf_capacity rf0 = rf_capacity rf"
  shows "read_file rf0 = Ok (rf0\<lparr>rf_start := rf_start rf, rf_end := rf_end rf, rf_version := rf_version rf,
      rf_state := (if rf_version rf = 1 then replicate 16 (byte_of 0) else rf_state rf)\<rparr>,
    rf_end rf, map str [rf_start rf..<rf_end rf])"
proof -
  let ?h = "slice 0 64 (rf_file rf)"
  have z: "sized rf" "header_ok rf" "window_ok rf (rf_start rf) (rf_end rf)" "intact rf str (rf_start rf) (rf_end rf)"
    using s by (simp_all add: sound_def)
  have h: "slice off n ?h = slice off n (rf_file rf)" if "off + n \<le> 64" for off n
    using slice_slice [OF that, of 0] by simp
  have t: "take 8 ?h = slice 0 8 (rf_file rf)" using h [of 0 8] by (simp add: slice_def)
  note w = window_fields [of "rf_file rf" rf "rf_start rf" "rf_end rf"]
  have r: "rf_end rf mod rf_capacity rf \<le> u64_max" "rf_start rf \<le> u64_max" "rf_end rf \<le> u64_max" "rf_capacity rf \<le> u64_max"
    using z order_trans [OF mod_less_eq_dividend [of "rf_end rf" "rf_capacity rf"]] by (simp_all add: window_ok_def sized_def)
  have v: "rf_version rf = 1 \<or> rf_version rf = 2" using z(2) by (simp add: header_ok_def)
  have l: "64 \<le> length (rf_file rf)" "length (rf_file rf) = 64 + rf_capacity rf" "0 < rf_capacity rf" using z(1) by (simp_all add: sized_def)
  have at: "rf_start rf mod rf_capacity rf < rf_capacity rf" using l by simp
  have read: "read_exact_at (rf_file rf) 64 0 = Ok ?h" using l by (simp add: read_exact_at_def)
  have u: "le_val (slice 8 4 ?h) = rf_version rf" "le_val (slice 12 4 ?h) = 64" "le_val (slice 16 8 ?h) = rf_capacity rf"
    "le_val (slice 24 8 ?h) = rf_start rf" "le_val (slice 32 8 ?h) = rf_end rf"
    "le_val (slice 40 8 ?h) = rf_end rf mod rf_capacity rf"
    using z(2) w r v by (auto simp: h header_ok_def le_val_widths)
  have m: "take 8 ?h = MAGIC" using z(2) t by (simp add: header_ok_def)
  have st: "rf_version rf = 2 \<Longrightarrow> slice 48 16 ?h = rf_state rf" using z(2) h [of 48 16] by (simp add: header_ok_def)
  have head: "read_exact_at (rf_file rf) (min (rf_end rf - rf_start rf) (rf_capacity rf - rf_start rf mod rf_capacity rf))
      (64 + rf_start rf mod rf_capacity rf) =
      Ok (slice (64 + rf_start rf mod rf_capacity rf)
        (min (rf_end rf - rf_start rf) (rf_capacity rf - rf_start rf mod rf_capacity rf)) (rf_file rf))"
    using l at by (auto simp: read_exact_at_def)
  have tail: "read_exact_at (rf_file rf) n 64 = Ok (slice 64 n (rf_file rf))" if "n \<le> rf_capacity rf" for n
    using l that by (simp add: read_exact_at_def)
  have fit: "rf_end rf - rf_start rf - x \<le> rf_capacity rf" for x using z(3) unfolding window_ok_def by linarith
  have wk: "\<not> (rf_end rf < rf_start rf \<or> rf_capacity rf < rf_end rf - rf_start rf)" using z(3) by (auto simp: window_ok_def)
  have b: "slice (64 + rf_start rf mod rf_capacity rf)
        (min (rf_end rf - rf_start rf) (rf_capacity rf - rf_start rf mod rf_capacity rf)) (rf_file rf) @
      slice 64 (rf_end rf - rf_start rf - min (rf_end rf - rf_start rf) (rf_capacity rf - rf_start rf mod rf_capacity rf)) (rf_file rf)
      = map str [rf_start rf..<rf_end rf]"
    using ring_bytes [OF z(1,3,4)] by (simp add: Let_def)
  show ?thesis
    unfolding read_file_def f layout_defs read map_err_def sum.case rbind.simps Let_def
    using v st by (elim disjE) (simp_all add: u m wk head tail fit b del: diff_diff_left)
qed

text \<open>What the next process does with the file: adopt it and read it.\<close>

definition read_back :: "bytes \<Rightarrow> (bytes, ring_file \<times> nat \<times> bytes) res" where
  "read_back file = rbind (adopt file) read_file"

lemma read_back_sound:
  assumes "sound rf str"
  shows "\<exists>rf2. read_back (rf_file rf) = Ok (rf2, rf_end rf, map str [rf_start rf..<rf_end rf]) \<and>
    rf_version rf2 = rf_version rf \<and> (rf_version rf = 2 \<longrightarrow> rf_state rf2 = rf_state rf)"
proof -
  let ?r0 = "\<lparr>rf_file = rf_file rf, rf_capacity = length (rf_file rf) - HEADER_LEN, rf_start = 0, rf_end = 0,
    rf_state = replicate STATE_LEN (byte_of 0), rf_version = 0, rf_writes_left = None, rf_recover = False\<rparr>"
  have z: "length (rf_file rf) = 64 + rf_capacity rf" "0 < rf_capacity rf" using assms by (simp_all add: sound_def sized_def)
  then have "adopt (rf_file rf) = Ok ?r0" by (simp add: adopt_def HEADER_LEN_def)
  moreover have "rf_file ?r0 = rf_file rf" "rf_capacity ?r0 = rf_capacity rf" using z by (simp_all add: HEADER_LEN_def)
  ultimately show ?thesis unfolding read_back_def using read_sound [OF assms, of ?r0] by simp
qed

section \<open>A file records its stream\<close>

lemma sound_cong:
  assumes "sound rf str" "\<And>i. rf_start rf \<le> i \<Longrightarrow> i < rf_end rf \<Longrightarrow> str i = str' i"
  shows "sound rf str'"
  using assms by (simp add: sound_def intact_def)

definition file_logs :: "ring_file \<Rightarrow> nat \<Rightarrow> bytes \<Rightarrow> bool" where
  "file_logs rf s0 stream \<longleftrightarrow> writable rf \<and> sound rf (\<lambda>i. stream ! (i - s0)) \<and> rf_end rf = s0 + length stream \<and>
     rf_start rf = max s0 (rf_end rf - rf_capacity rf)"

definition file_add :: "bytes \<Rightarrow> ring_file \<Rightarrow> ring_file" where
  "file_add bs rf = fst (append_bytes rf (rf_end rf) bs)"

lemma file_add_logs:
  assumes l: "file_logs rf s0 stream" and fits: "s0 + length stream + length bs \<le> u64_max"
  shows "file_logs (file_add bs rf) s0 (stream @ bs) \<and> rf_capacity (file_add bs rf) = rf_capacity rf"
proof (cases "bs = []")
  case True
  with l show ?thesis by (simp add: file_add_def append_bytes_def append_with_state_def)
next
  case False
  let ?str = "\<lambda>i. (stream @ bs) ! (i - s0)"
  have e: "rf_end rf = s0 + length stream" using l by (simp add: file_logs_def)
  have s: "sound rf ?str"
  proof (rule sound_cong)
    show "sound rf (\<lambda>i. stream ! (i - s0))" using l by (simp add: file_logs_def)
    show "stream ! (i - s0) = ?str i" if "rf_start rf \<le> i" "i < rf_end rf" for i
      using that l by (auto simp: file_logs_def nth_append)
  qed
  have new: "\<forall>j<length bs. ?str (rf_end rf + j) = bs ! j" by (simp add: e)
  have fit: "rf_end rf + length bs \<le> u64_max" "rf_end rf \<le> u64_max" using fits e by simp_all
  obtain r ok where r: "append_with_state rf (rf_end rf) bs None = (r, ok)" by force
  have "succeeds (r, ok)" using append_succeeds [OF _ s fit(2), of None bs] r l by (simp add: file_logs_def)
  then have "ok" "writable r" by (simp_all add: succeeds_def)
  moreover have "sound r ?str" "rf_capacity r = rf_capacity rf"
    "ok \<Longrightarrow> rf_end r = rf_end rf + length bs \<and> rf_start r = max (rf_start rf) (rf_end rf + length bs - rf_capacity rf)"
    using append_sound [OF s fit(1) new, of None] r False by simp_all
  moreover have "file_add bs rf = r" by (simp add: file_add_def append_bytes_def r)
  ultimately show ?thesis using l e by (auto simp: file_logs_def)
qed

interpretation file_log: stream_log file_logs file_add
  by unfold_locales (use file_add_logs in blast)

lemma file_logs_capacity:
  "file_logs rf s0 stream \<Longrightarrow> s0 + length stream + length (concat ps) \<le> u64_max \<Longrightarrow>
    rf_capacity (fold file_add ps rf) = rf_capacity rf"
proof (induction ps arbitrary: rf stream)
  case (Cons bs ps)
  have "file_logs (file_add bs rf) s0 (stream @ bs)" "rf_capacity (file_add bs rf) = rf_capacity rf"
    using file_add_logs [OF Cons.prems(1), of bs] Cons.prems(2) by simp_all
  with Cons.IH [OF this(1)] Cons.prems(2) show ?case by simp
qed simp

lemma create_logs:
  assumes "cap + 64 \<le> u64_max"
  shows "\<exists>rf. create cap = Some rf \<and> file_logs rf 0 [] \<and> rf_capacity rf = max cap 1 \<and> rf_version rf = 2"
proof -
  let ?r = "\<lparr>rf_file = replicate (HEADER_LEN + max cap 1) (byte_of 0), rf_capacity = max cap 1, rf_start = 0, rf_end = 0,
    rf_state = replicate STATE_LEN (byte_of 0), rf_version = FORMAT_VERSION, rf_writes_left = None, rf_recover = False\<rparr>"
  have z: "sized ?r" "writable ?r" using assms by (simp_all add: sized_def writable_def HEADER_LEN_def STATE_LEN_def)
  obtain r ok where r: "reset ?r 0 = (r, ok)" by force
  have "ok" "writable r" using reset_succeeds [OF z(2), of 0] r by (simp_all add: succeeds_def STATE_LEN_def)
  moreover have "ok \<Longrightarrow> sound r (\<lambda>i. [] ! (i - 0)) \<and> rf_capacity r = max cap 1 \<and> rf_start r = 0 \<and> rf_end r = 0 \<and> rf_version r = 2"
    using reset_sound [OF z(1), of 0] r by auto
  ultimately show ?thesis using r by (auto simp: create_def Let_def file_logs_def)
qed

lemma file_logs_read:
  assumes "file_logs rf s0 stream"
  shows "\<exists>rf2. read_back (rf_file rf) = Ok (rf2, s0 + length stream, drop (length stream - rf_capacity rf) stream)"
proof -
  let ?s = "rf_start rf"
  have l: "sound rf (\<lambda>i. stream ! (i - s0))" "rf_end rf = s0 + length stream" "?s = s0 + (length stream - rf_capacity rf)"
    using assms by (auto simp: file_logs_def)
  have "map (\<lambda>i. stream ! (i - s0)) [?s..<rf_end rf] = drop (length stream - rf_capacity rf) stream"
    by (rule nth_equalityI) (auto simp: l(2,3))
  with read_back_sound [OF l(1)] l(2) show ?thesis by auto
qed

section \<open>Properties\<close>

text \<open>
  C26. Crash safety of the ring file. Wherever an append of new bytes stops, at any of its writes or at
  none, the file the next process adopts is accepted and gives an unbroken run of the stream's bytes with
  the number they end at. The run ends where the file ended before or after the append, and the terminal
  state read with it is the one of that same moment.
\<close>

theorem append_crash_safe:
  assumes "sound rf str" "rf_version rf = 2" "rf_end rf + length bs \<le> u64_max"
    and "\<forall>j<length bs. str (rf_end rf + j) = bs ! j" "length st = STATE_LEN"
  shows "case append_with_state rf (rf_end rf) bs (Some st) of (rf', ok) \<Rightarrow>
    \<exists>rf2 s e. read_back (rf_file rf') = Ok (rf2, e, map str [s..<e]) \<and> s \<le> e \<and> rf_version rf2 = 2 \<and>
      (if ok \<and> bs \<noteq> [] then e = rf_end rf + length bs \<and> rf_state rf2 = st \<and> s = max (rf_start rf) (e - rf_capacity rf)
       else e = rf_end rf \<and> rf_state rf2 = rf_state rf)"
proof (cases "bs = []")
  case True
  then show ?thesis
    using read_back_sound [OF assms(1)] assms(1,2) by (auto simp: append_with_state_def sound_def window_ok_def)
next
  case False
  obtain r ok where r: "append_with_state rf (rf_end rf) bs (Some st) = (r, ok)" by force
  have a: "sound r str" "rf_version r = 2"
    "if ok then rf_end r = rf_end rf + length bs \<and> rf_state r = st \<and> rf_start r = max (rf_start rf) (rf_end r - rf_capacity rf)
     else rf_end r = rf_end rf \<and> rf_state r = rf_state rf"
    using append_sound [OF assms(1,3,4), of "Some st"] r False assms(2,5) by (simp_all add: STATE_LEN_def)
  obtain rf2 where "read_back (rf_file r) = Ok (rf2, rf_end r, map str [rf_start r..<rf_end r])" "rf_version rf2 = 2"
    "rf_state rf2 = rf_state r"
    using read_back_sound [OF a(1)] a(2) by auto
  moreover have "rf_start r \<le> rf_end r" using a(1) by (simp add: sound_def window_ok_def)
  ultimately show ?thesis unfolding r prod.case using a(3) False
    by (intro exI [of _ rf2] exI [of _ "rf_start r"] exI [of _ "rf_end r"]) (cases ok; simp)
qed

definition demo_file :: ring_file where
  "demo_file = (the (create 5))\<lparr>rf_writes_left := Some 1\<rparr>"

theorem append_crash_safe_witness:
  "sound demo_file (\<lambda>i. ''abc'' ! i) \<and> rf_version demo_file = 2 \<and> rf_end demo_file + length ''abc'' \<le> u64_max \<and>
   length (encode \<lparr>alt_screen = True, private_modes = []\<rparr> False) = STATE_LEN \<and>
   (case append_with_state demo_file (rf_end demo_file) ''abc'' (Some (encode \<lparr>alt_screen = True, private_modes = []\<rparr> False)) of (rf', ok) \<Rightarrow>
    \<exists>rf2 s e. read_back (rf_file rf') = Ok (rf2, e, map (\<lambda>i. ''abc'' ! i) [s..<e]) \<and> s \<le> e \<and> rf_version rf2 = 2 \<and>
      (if ok \<and> ''abc'' \<noteq> [] then e = rf_end demo_file + length ''abc'' \<and> rf_state rf2 = encode \<lparr>alt_screen = True, private_modes = []\<rparr> False \<and>
         s = max (rf_start demo_file) (e - rf_capacity demo_file)
       else e = rf_end demo_file \<and> rf_state rf2 = rf_state demo_file))"
proof -
  have "(5 :: nat) + 64 \<le> u64_max" by simp
  from create_logs [OF this] obtain rf where c: "create 5 = Some rf" "file_logs rf 0 []" "rf_version rf = 2" by blast
  have e: "rf_start rf = 0" "rf_end rf = 0" using c(2) by (simp_all add: file_logs_def)
  have "sound rf (\<lambda>i. ''abc'' ! i)"
    by (rule sound_cong [of _ "\<lambda>i. [] ! (i - 0)"]) (use c(2) e in \<open>auto simp: file_logs_def\<close>)
  then have s: "sound demo_file (\<lambda>i. ''abc'' ! i)" using c(1) by (simp add: demo_file_def)
  have v: "rf_version demo_file = 2" "rf_end demo_file = 0" using c e by (simp_all add: demo_file_def)
  have h: "rf_end demo_file + length ''abc'' \<le> u64_max" "\<forall>j<length ''abc''. ''abc'' ! (rf_end demo_file + j) = ''abc'' ! j"
    "length (encode \<lparr>alt_screen = True, private_modes = []\<rparr> False) = STATE_LEN" by (simp_all add: v(2))
  show ?thesis using append_crash_safe [OF s v(1) h] s v(1) h(1,3) by (intro conjI)
qed

text \<open>
  C27. Round trip of the ring file: a file of any capacity that took any pushes without a failing write is
  read back to the end of the pushed stream, as many of its last bytes as the capacity, with the number
  of the last.
\<close>

theorem ring_file_round_trip:
  assumes "cap + 64 \<le> u64_max" "length (concat ps) \<le> u64_max"
  shows "\<exists>rf rf2. create cap = Some rf \<and>
    read_back (rf_file (fold file_add ps rf)) =
      Ok (rf2, length (concat ps), drop (length (concat ps) - max cap 1) (concat ps))"
proof -
  obtain rf where c: "create cap = Some rf" "file_logs rf 0 []" "rf_capacity rf = max cap 1"
    using create_logs [OF assms(1)] by blast
  have "file_logs (fold file_add ps rf) 0 ([] @ concat ps)"
    by (rule file_log.adds_log [OF c(2)]) (use assms(2) in simp)
  from file_logs_read [OF this] obtain rf2 where
    "read_back (rf_file (fold file_add ps rf)) =
      Ok (rf2, length (concat ps), drop (length (concat ps) - rf_capacity (fold file_add ps rf)) (concat ps))" by auto
  moreover have "rf_capacity (fold file_add ps rf) = max cap 1"
    using file_logs_capacity [OF c(2), of ps] assms(2) c(3) by simp
  ultimately show ?thesis using c(1) by auto
qed

theorem ring_file_round_trip_witness:
  "(5 :: nat) + 64 \<le> u64_max \<and> length (concat [''abc'', ''defg'']) \<le> u64_max \<and>
   (\<exists>rf rf2. create 5 = Some rf \<and> read_back (rf_file (fold file_add [''abc'', ''defg''] rf)) = Ok (rf2, 7, ''cdefg''))"
proof -
  have h: "(5 :: nat) + 64 \<le> u64_max" "length (concat [''abc'', ''defg'']) \<le> u64_max" by simp_all
  have e: "length (concat [''abc'', ''defg'']) = 7" "drop (7 - max 5 1) (concat [''abc'', ''defg'']) = ''cdefg''" by simp_all
  show ?thesis using ring_file_round_trip [OF h] h unfolding e by blast
qed

end
