(* ===== verification/Ring_Mirror.thy ===== *)
theory Ring_Mirror
  imports Ring_File
begin

text \<open>
  The ring of \<^verbatim>\<open>crates/chan-library/src/terminal_sessions/ring.rs\<close> together with the file it is mirrored into while
  its session is parked. The record extends the ring's with the mirror; \<open>r_parked\<close> is the contents of the
  file the fd store keeps, which outlive the ring's own handle on it.
\<close>

record mirrored_ring = ring_buffer +
  r_mirror :: "ring_file option"
  r_parked :: bytes

section \<open>Operations\<close>

definition stop_mirror :: "mirrored_ring \<Rightarrow> mirrored_ring" where
  "stop_mirror r = r\<lparr>r_mirror := None\<rparr>"

definition is_mirrored :: "mirrored_ring \<Rightarrow> bool" where
  "is_mirrored r \<longleftrightarrow> r_mirror r \<noteq> None"

definition stop_mirror_after :: "mirrored_ring \<Rightarrow> mirrored_ring" where
  "stop_mirror_after r =
     (case r_mirror r of
        None \<Rightarrow> r
      | Some m \<Rightarrow>
          let (m1, ok) = write_state m (with_stop (rf_state m)) in r\<lparr>r_mirror := None, r_parked := rf_file m1\<rparr>)"

definition write_mirror :: "mirrored_ring \<Rightarrow> nat \<Rightarrow> bytes \<Rightarrow> terminal_state option \<Rightarrow> mirrored_ring" where
  "write_mirror r start bs state =
     (case r_mirror r of
        None \<Rightarrow> r
      | Some m \<Rightarrow>
          let st = map_option (\<lambda>s. encode s (file_stopped m)) state;
              (m1, ok) = append_with_state m start bs st;
              r1 = r\<lparr>r_mirror := Some m1, r_parked := rf_file m1\<rparr>
          in if ok then r1 else stop_mirror_after r1)"

definition mirror_push :: "bytes \<Rightarrow> mirrored_ring \<Rightarrow> mirrored_ring" where
  "mirror_push bs r =
     (let start = r_end r; r1 = r\<lparr>r_end := sat_add (r_end r) (length bs)\<rparr>
      in keep start bs (write_mirror r1 start bs None))"


fun append_chunks :: "ring_file \<Rightarrow> (nat \<times> bytes) list \<Rightarrow> io_result" where
  "append_chunks file [] = (file, True)"
| "append_chunks file ((start, chunk) # cs) = io_then (append_bytes file start chunk) (\<lambda>file. append_chunks file cs)"

definition mirror_into :: "mirrored_ring \<Rightarrow> ring_file \<Rightarrow> terminal_state \<Rightarrow> bool \<Rightarrow> mirrored_ring \<times> bool" where
  "mirror_into r file state stopped =
     (case io_then (reset (file\<lparr>rf_state := encode state stopped\<rparr>) (r_start r)) (\<lambda>file. append_chunks file (r_chunks r)) of
        (file1, ok) \<Rightarrow> if ok then (r\<lparr>r_mirror := Some file1, r_parked := rf_file file1\<rparr>, True) else (r, False))"

definition continue_mirror :: "mirrored_ring \<Rightarrow> ring_file \<Rightarrow> terminal_state \<Rightarrow> bool \<Rightarrow> mirrored_ring" where
  "continue_mirror r file state stopped =
     (let (file1, ok) = publish_state file state stopped in r\<lparr>r_mirror := Some file1, r_parked := rf_file file1\<rparr>)"

definition clear_stop_mark :: "mirrored_ring \<Rightarrow> mirrored_ring" where
  "clear_stop_mark r =
     (case r_mirror r of
        None \<Rightarrow> r
      | Some m \<Rightarrow>
          if file_stopped m then
            let (m1, ok) = publish_state m (fst (decode (rf_state m))) False
            in r\<lparr>r_mirror := Some m1, r_parked := rf_file m1\<rparr>
          else r)"

section \<open>The mirror never disturbs the ring\<close>

definition ring_part :: "mirrored_ring \<Rightarrow> ring_buffer" where
  "ring_part r = ring_buffer.truncate r"

lemma ring_part_frame [simp]:
  "ring_part (r\<lparr>r_mirror := m\<rparr>) = ring_part r" "ring_part (r\<lparr>r_parked := f\<rparr>) = ring_part r"
  by (simp_all add: ring_part_def ring_buffer.truncate_def)

lemma truncate_frame [simp]:
  "r_cap (ring_buffer.truncate r) = r_cap r" "r_chunks (ring_buffer.truncate r) = r_chunks r"
  "r_start (ring_buffer.truncate r) = r_start r" "r_end (ring_buffer.truncate r) = r_end r"
  "r_len (ring_buffer.truncate r) = r_len r"
  "ring_buffer.truncate (r\<lparr>r_chunks := c\<rparr>) = (ring_buffer.truncate r)\<lparr>r_chunks := c\<rparr>"
  "ring_buffer.truncate (r\<lparr>r_start := n\<rparr>) = (ring_buffer.truncate r)\<lparr>r_start := n\<rparr>"
  "ring_buffer.truncate (r\<lparr>r_end := n\<rparr>) = (ring_buffer.truncate r)\<lparr>r_end := n\<rparr>"
  "ring_buffer.truncate (r\<lparr>r_len := n\<rparr>) = (ring_buffer.truncate r)\<lparr>r_len := n\<rparr>"
  by (simp_all add: ring_buffer.truncate_def)



lemma stop_mirror_after_ring [simp]: "ring_part (stop_mirror_after r) = ring_part r"
  by (simp add: stop_mirror_after_def split: option.split prod.split)


lemma drop_oldest_more: "ring_buffer.more (drop_oldest r) = ring_buffer.more r"
proof (induction r rule: drop_oldest.induct)
  case (1 r)
  show ?case
  proof (cases "r_len r \<le> r_cap r")
    case False
    with 1 show ?thesis by (cases "r_chunks r") (auto simp: drop_oldest.simps [of r])
  qed (simp add: drop_oldest_fits)
qed

lemma keep_more: "ring_buffer.more (keep start bs r) = ring_buffer.more r"
  by (simp add: keep_def Let_def drop_oldest_more)

lemma mirror_fields:
  "ring_buffer.more a = ring_buffer.more b \<Longrightarrow> r_mirror a = r_mirror b \<and> r_parked a = r_parked b"
  by (cases a; cases b) simp

lemma keep_mirror [simp]: "r_mirror (keep start bs r) = r_mirror r" "r_parked (keep start bs r) = r_parked r"
  using mirror_fields [OF keep_more [of start bs r]] by simp_all

section \<open>The mirror follows the ring\<close>

definition in_sync :: "mirrored_ring \<Rightarrow> (nat \<Rightarrow> byte) \<Rightarrow> bool" where
  "in_sync r str \<longleftrightarrow> (\<exists>m. r_mirror r = Some m \<and> sound m str \<and> rf_version m = 2 \<and> rf_end m = r_end r \<and> r_parked r = rf_file m)"




lemma drop_oldest_end: "r_end (drop_oldest r) = r_end r"
proof (induction r rule: drop_oldest.induct)
  case (1 r)
  show ?case
  proof (cases "r_len r \<le> r_cap r")
    case False
    with 1 show ?thesis by (cases "r_chunks r") (auto simp: drop_oldest.simps [of r])
  qed (simp add: drop_oldest_fits)
qed

lemma keep_sync [simp]: "in_sync (keep start bs r) str = in_sync r str" "is_mirrored (keep start bs r) = is_mirrored r"
  by (simp_all add: in_sync_def is_mirrored_def) (simp add: keep_def Let_def drop_oldest_end)

lemma write_mirror_end [simp]: "r_end (write_mirror r start bs state) = r_end r"
  by (simp add: write_mirror_def stop_mirror_after_def Let_def split: option.split prod.split)


section \<open>Starting a mirror\<close>

lemma append_chunks_logs:
  assumes "file_logs rf s0 stream" "contig (rf_end rf) cs e" "e \<le> u64_max"
  shows "\<exists>file1. append_chunks rf cs = (file1, True) \<and> file_logs file1 s0 (stream @ concat (map snd cs)) \<and>
    rf_capacity file1 = rf_capacity rf \<and> rf_state file1 = rf_state rf \<and> (rf_version rf = 2 \<longrightarrow> rf_version file1 = 2)"
  using assms
proof (induction cs arbitrary: rf stream)
  case (Cons c cs)
  obtain start chunk where c: "c = (start, chunk)" by force
  have l: "file_logs rf s0 stream" "start = rf_end rf" "contig (rf_end rf + length chunk) cs e"
    using Cons.prems c by simp_all
  have fits: "s0 + length stream + length chunk \<le> u64_max"
    using contig_length [OF l(3)] Cons.prems(3) l(1) by (simp add: file_logs_def)
  obtain f ok where a: "append_bytes rf start chunk = (f, ok)" by force
  have f: "f = file_add chunk rf" using a l(2) by (simp add: file_add_def)
  have sd: "sound rf (\<lambda>i. (stream @ chunk) ! (i - s0))"
    by (rule sound_cong [of _ "\<lambda>i. stream ! (i - s0)"]) (use l(1) in \<open>auto simp: file_logs_def nth_append\<close>)
  have e: "rf_end rf = s0 + length stream" using l(1) by (simp add: file_logs_def)
  have "succeeds (append_with_state rf start chunk None)"
    using append_succeeds [OF _ sd, of start None chunk] l(1,2) fits e by (simp add: file_logs_def)
  then have ok: "ok" using a by (simp add: append_bytes_def succeeds_def)
  have keeps: "rf_state f = rf_state rf" "rf_version rf = 2 \<longrightarrow> rf_version f = 2"
    using append_sound [OF sd, of start chunk None] a fits e l(2) ok
    by (cases "chunk = []"; simp add: append_bytes_def append_with_state_def)+
  have fl: "file_logs f s0 (stream @ chunk)" "rf_capacity f = rf_capacity rf"
    using file_add_logs [OF l(1) fits] f by simp_all
  have "contig (rf_end f) cs e" using fl(1) l(3) e by (simp add: file_logs_def add.assoc)
  from Cons.IH [OF fl(1) this Cons.prems(3)] obtain file1 where "append_chunks f cs = (file1, True)"
    "file_logs file1 s0 ((stream @ chunk) @ concat (map snd cs))" "rf_capacity file1 = rf_capacity f"
    "rf_state file1 = rf_state f" "rf_version f = 2 \<longrightarrow> rf_version file1 = 2" by blast
  then show ?case using a ok c fl(2) keeps by (simp add: io_then_def)
qed simp

lemma reset_logs:
  assumes "sized rf" "writable rf" "seq \<le> u64_max"
  shows "\<exists>rf1. reset rf seq = (rf1, True) \<and> file_logs rf1 seq [] \<and> rf_capacity rf1 = rf_capacity rf \<and>
    rf_state rf1 = rf_state rf \<and> rf_version rf1 = 2"
proof -
  obtain r ok where r: "reset rf seq = (r, ok)" by force
  have "succeeds (reset rf seq)" using assms(1,2) by (intro reset_succeeds) (simp_all add: sized_def)
  then have "ok" "writable r" using r by (simp_all add: succeeds_def)
  moreover have "ok \<Longrightarrow> sound r (\<lambda>i. [] ! (i - seq)) \<and> rf_capacity r = rf_capacity rf \<and> rf_start r = seq \<and> rf_end r = seq \<and>
      rf_state r = rf_state rf \<and> rf_version r = 2"
    using reset_sound [OF assms(1,3), of "\<lambda>i. [] ! (i - seq)"] r by auto
  ultimately show ?thesis using r by (auto simp: file_logs_def)
qed

section \<open>Properties\<close>


text \<open>
  C32. Mirroring a ring into a file of at least its size succeeds when no write fails, and what the next
  process reads from the file is the ring: its bytes, its end, and the terminal state with the stop mark
  it was started with.
\<close>

theorem mirror_into_exact:
  assumes "ring_wf (ring_part r)" "sized file" "writable file" "r_len r \<le> rf_capacity file" "state_ok state"
  shows "let (r2, ok) = mirror_into r file state stopped in
    ok \<and> ring_part r2 = ring_part r \<and>
    (\<exists>rf2. read_back (r_parked r2) = Ok (rf2, r_end r, content r) \<and> file_terminal_state rf2 = Some state \<and>
      file_stopped rf2 = stopped)"
proof -
  have wf: "contig (r_start r) (r_chunks r) (r_end r)" "r_end r \<le> u64_max" "r_len r = length (content r)"
    using assms(1) by (simp_all add: ring_wf_def ring_part_def content_def)
  let ?f = "file\<lparr>rf_state := encode state stopped\<rparr>"
  have "sized ?f" "writable ?f" using assms(2,3) by (simp_all add: sized_def writable_def STATE_LEN_def)
  moreover have s: "r_start r \<le> u64_max" using contig_length [OF wf(1)] wf(2) by simp
  ultimately obtain f0 where f0: "reset ?f (r_start r) = (f0, True)" "file_logs f0 (r_start r) []" "rf_capacity f0 = rf_capacity file"
      "rf_state f0 = encode state stopped" "rf_version f0 = 2"
    using reset_logs [of ?f "r_start r"] by auto
  have "contig (rf_end f0) (r_chunks r) (r_end r)" using wf(1) f0(2) by (simp add: file_logs_def)
  from append_chunks_logs [OF f0(2) this wf(2)] obtain f1 where f1: "append_chunks f0 (r_chunks r) = (f1, True)"
      "file_logs f1 (r_start r) (content r)" "rf_capacity f1 = rf_capacity file" "rf_state f1 = encode state stopped" "rf_version f1 = 2"
    using f0(3,4,5) by (auto simp: content_def)
  have snd1: "sound f1 (\<lambda>i. content r ! (i - r_start r))" "rf_end f1 = r_start r + length (content r)" "rf_start f1 = r_start r"
    using f1(2,3) assms(4) wf(3) by (auto simp: file_logs_def)
  have e: "r_start r + length (content r) = r_end r" using contig_length [OF wf(1)] by (simp add: content_def)
  have "map (\<lambda>i. content r ! (i - r_start r)) [rf_start f1..<rf_end f1] = content r"
    by (rule nth_equalityI) (simp_all add: snd1(2,3))
  with read_back_sound [OF snd1(1)] f1(4,5) snd1(2) e obtain rf2 where
    "read_back (rf_file f1) = Ok (rf2, r_end r, content r)" "rf_version rf2 = 2" "rf_state rf2 = encode state stopped" by auto
  moreover have "mirror_into r file state stopped = (r\<lparr>r_mirror := Some f1, r_parked := rf_file f1\<rparr>, True)"
    using f0(1) f1(1) by (simp add: mirror_into_def io_then_def)
  ultimately show ?thesis using decode_encode [OF assms(5)]
    by (simp add: file_terminal_state_def file_stopped_def FORMAT_VERSION_def)
qed

text \<open>A ring mirrored into a fresh file, for the witnesses.\<close>

definition demo_mirror :: "mirrored_ring" where
  "demo_mirror = ring_buffer.extend demo_ring \<lparr>r_mirror = None, r_parked = []\<rparr>"

definition demo_state :: terminal_state where
  "demo_state = \<lparr>alt_screen = True, private_modes = [2004]\<rparr>"

lemma demo_ring_part: "ring_part demo_mirror = demo_ring" "content demo_mirror = ''defgh''" "r_len demo_mirror = 5"
    "r_end demo_mirror = 15" "r_start demo_mirror = 10"
  by (simp_all add: demo_mirror_def demo_ring_eq ring_part_def content_def ring_buffer.defs)

lemma demo_ring_wf: "ring_wf demo_ring"
  by (simp add: demo_ring_eq ring_wf_def content_def)

theorem mirror_into_exact_witness:
  "ring_wf (ring_part demo_mirror) \<and> sized (the (create 6)) \<and> writable (the (create 6)) \<and> r_len demo_mirror \<le> rf_capacity (the (create 6)) \<and>
   state_ok demo_state \<and>
   (\<exists>rf2. read_back (r_parked (fst (mirror_into demo_mirror (the (create 6)) demo_state True))) = Ok (rf2, 15, ''defgh''))"
proof -
  have "(6 :: nat) + 64 \<le> u64_max" by simp
  from create_logs [OF this] obtain rf where c: "create 6 = Some rf" "file_logs rf 0 []" "rf_capacity rf = 6" by auto
  have h: "ring_wf (ring_part demo_mirror)" "sized (the (create 6))" "writable (the (create 6))"
    "r_len demo_mirror \<le> rf_capacity (the (create 6))" "state_ok demo_state"
    using c by (simp_all add: demo_ring_part demo_ring_wf file_logs_def sound_def demo_state_def state_ok_def MODE_SLOTS_def)
  show ?thesis
    using mirror_into_exact [OF h, of True] h unfolding demo_ring_part(2,4) by (auto split: prod.splits)
qed


end
