(* ===== verification/Status_Framing.thy ===== *)
theory Status_Framing
  imports Prelude
begin

text \<open>
  Model of the framer of \<^verbatim>\<open>crates/chan-library/src/terminal_sessions/program_status.rs\<close>: it finds the OSC 7501
  reports, the OSC 133 prompt marks and the resets in terminal output. \<open>advance\<close> takes one byte;
  \<open>skip\<close> is the fast path over bytes that capture nothing. A position \<open>at\<close> into the read is the rest of
  the read from there.
\<close>

datatype terminator = Bell | EscapeEnd
datatype osc_command = ProgramStatus | Prompt

datatype framing = Ground | Escape | EscapeIntermediate | Csi | OscIdentifier bytes | OscBody osc_command bytes
  | OscDiscard | StringSeq bool

datatype dispatch = Osc osc_command bytes terminator | Reset

datatype span = SpanGround | SpanIntermediate | SpanCsi | SpanDiscard | SpanString bool
datatype halt = HaltEscape | HaltOsc

definition INLINE_SPAN :: nat where "INLINE_SPAN = 16"
definition MAX_SEQUENCE_BYTES :: nat where "MAX_SEQUENCE_BYTES = 4096"
definition MAX_BODY_BYTES :: nat where "MAX_BODY_BYTES = MAX_SEQUENCE_BYTES - 9"

abbreviation is_esc :: "byte \<Rightarrow> bool" where "is_esc b \<equiv> byte_val b = 0x1b"

section \<open>One byte at a time\<close>

definition after_esc :: "byte \<Rightarrow> framing \<times> dispatch option" where
  "after_esc b =
     (if b = CHR ''['' then (Csi, None)
      else if b = CHR '']'' then (OscIdentifier [], None)
      else if b \<in> {CHR ''P'', CHR ''X'', CHR ''^'', CHR ''_''} then (StringSeq False, None)
      else if b = CHR ''c'' then (Ground, Some Reset)
      else if 0x20 \<le> byte_val b \<and> byte_val b \<le> 0x2f then (EscapeIntermediate, None)
      else if byte_val b \<le> 0x1f then (Escape, None)
      else (Ground, None))"

definition identifier_byte :: "bytes \<Rightarrow> byte \<Rightarrow> framing" where
  "identifier_byte ident b =
     (if byte_val b = 0x07 then Ground
      else if b = CHR '';'' then
        (if ident = ''7501'' then OscBody ProgramStatus []
         else if ident = ''133'' then OscBody Prompt []
         else OscDiscard)
      else
        let ident = ident @ [b] in
        if \<not> prefix ident ''7501'' \<and> \<not> prefix ident ''133'' then OscDiscard else OscIdentifier ident)"

definition advance :: "framing \<Rightarrow> byte \<Rightarrow> framing \<times> dispatch option" where
  "advance f b =
     (if byte_val b = 0x18 \<or> byte_val b = 0x1a then (Ground, None)
      else if byte_val b = 0x1b then
        (Escape, case f of OscBody command body \<Rightarrow> Some (Osc command body EscapeEnd) | _ \<Rightarrow> None)
      else case f of
        Ground \<Rightarrow> (Ground, None)
      | Escape \<Rightarrow> after_esc b
      | EscapeIntermediate \<Rightarrow> (if 0x2f < byte_val b then Ground else EscapeIntermediate, None)
      | Csi \<Rightarrow> (if 0x3f < byte_val b then Ground else Csi, None)
      | OscIdentifier ident \<Rightarrow> (identifier_byte ident b, None)
      | OscBody command body \<Rightarrow>
          if byte_val b = 0x07 then (Ground, Some (Osc command body Bell))
          else if length body = MAX_BODY_BYTES then (OscDiscard, None)
          else (OscBody command (body @ [b]), None)
      | OscDiscard \<Rightarrow> (if byte_val b = 0x07 then Ground else OscDiscard, None)
      | StringSeq bel_ends \<Rightarrow> (if bel_ends \<and> byte_val b = 0x07 then Ground else StringSeq bel_ends, None))"

section \<open>The fast path\<close>

definition after_osc :: "bytes \<Rightarrow> (halt, span) res option \<times> bytes" where
  "after_osc bs =
     (case bs of
        [] \<Rightarrow> (Some (Err HaltOsc), [])
      | b # r \<Rightarrow>
          if b = CHR ''7'' \<or> b = CHR ''1'' then (Some (Err HaltOsc), b # r)
          else if byte_val b = 0x1b then (None, r)
          else if byte_val b = 0x07 \<or> byte_val b = 0x18 \<or> byte_val b = 0x1a then (Some (Ok SpanGround), r)
          else (Some (Ok SpanDiscard), r))"

lemma after_osc_length: "(opened, r) = after_osc bs \<Longrightarrow> length r \<le> length bs"
  by (auto simp: after_osc_def split: list.splits if_splits)

function after_escape :: "bytes \<Rightarrow> (halt, span) res \<times> bytes" where
  "after_escape [] = (Err HaltEscape, [])"
| "after_escape (b # bs) =
     (if b = CHR ''['' then (Ok SpanCsi, bs)
      else if b = CHR '']'' then
        (case after_osc bs of (opened, r) \<Rightarrow> case opened of Some res \<Rightarrow> (res, r) | None \<Rightarrow> after_escape r)
      else if b = CHR ''c'' then (Err HaltEscape, b # bs)
      else if b \<in> {CHR ''P'', CHR ''X'', CHR ''^'', CHR ''_''} then (Ok (SpanString False), bs)
      else if 0x20 \<le> byte_val b \<and> byte_val b \<le> 0x2f then (Ok SpanIntermediate, bs)
      else if byte_val b = 0x18 \<or> byte_val b = 0x1a then (Ok SpanGround, bs)
      else if byte_val b \<le> 0x1f then after_escape bs
      else (Ok SpanGround, bs))"
  by pat_completeness auto
termination
  by (relation "measure length") (auto dest: after_osc_length)

definition settle :: "span \<Rightarrow> bytes \<Rightarrow> framing" where
  "settle span bs =
     (let ended =
        (case span of
           SpanGround \<Rightarrow> True
         | SpanIntermediate \<Rightarrow> list_ex (\<lambda>b. 0x2f < byte_val b \<or> byte_val b = 0x18 \<or> byte_val b = 0x1a) bs
         | SpanCsi \<Rightarrow> list_ex (\<lambda>b. 0x3f < byte_val b \<or> byte_val b = 0x18 \<or> byte_val b = 0x1a) bs
         | SpanDiscard \<Rightarrow> list_ex (\<lambda>b. byte_val b = 0x07 \<or> byte_val b = 0x18 \<or> byte_val b = 0x1a) bs
         | SpanString bel_ends \<Rightarrow>
             if bel_ends then list_ex (\<lambda>b. byte_val b = 0x07 \<or> byte_val b = 0x18 \<or> byte_val b = 0x1a) bs
             else list_ex (\<lambda>b. byte_val b = 0x18 \<or> byte_val b = 0x1a) bs)
      in if ended then Ground
         else case span of
           SpanGround \<Rightarrow> Ground
         | SpanIntermediate \<Rightarrow> EscapeIntermediate
         | SpanCsi \<Rightarrow> Csi
         | SpanDiscard \<Rightarrow> OscDiscard
         | SpanString bel_ends \<Rightarrow> StringSeq bel_ends)"

function find_escape_from :: "nat \<Rightarrow> bytes \<Rightarrow> nat option" where
  "find_escape_from at bs =
     (if at < INLINE_SPAN then
        if at + 8 \<le> length bs then
          (case position is_esc (take 8 (drop at bs)) of
             Some offset \<Rightarrow> Some (at + offset)
           | None \<Rightarrow> find_escape_from (at + 8) bs)
        else map_option (\<lambda>offset. at + offset) (position is_esc (drop at bs))
      else map_option (\<lambda>offset. at + offset) (position is_esc (drop at bs)))"
  by pat_completeness auto
termination
  by (relation "measure (\<lambda>(at, bs). INLINE_SPAN - at)") auto

declare find_escape_from.simps [simp del]

definition find_escape :: "bytes \<Rightarrow> nat option" where
  "find_escape bs = find_escape_from 0 bs"

text \<open>The fast search of the first escape is the plain one.\<close>

lemma position_append_None: "position p xs = None \<Longrightarrow> position p (xs @ ys) = map_option (\<lambda>i. length xs + i) (position p ys)"
  by (induction xs) (cases "position p ys"; auto split: if_splits)+

lemma position_append_Some: "position p xs = Some i \<Longrightarrow> position p (xs @ ys) = Some i"
  by (induction xs arbitrary: i) (auto split: if_splits)

lemma find_escape_from_drop: "find_escape_from at bs = map_option (\<lambda>i. at + i) (position is_esc (drop at bs))"
proof (induction at bs rule: find_escape_from.induct)
  case (1 at bs)
  show ?case
  proof (cases "at < INLINE_SPAN \<and> at + 8 \<le> length bs")
    case True
    have d: "drop at bs = take 8 (drop at bs) @ drop (at + 8) bs"
      by (metis add.commute append_take_drop_id drop_drop)
    show ?thesis
    proof (cases "position is_esc (take 8 (drop at bs))")
      case None
      have "find_escape_from at bs = find_escape_from (at + 8) bs"
        using True None by (simp add: find_escape_from.simps [of at])
      also have "\<dots> = map_option (\<lambda>i. at + 8 + i) (position is_esc (drop (at + 8) bs))"
        using "1.IH" True None by blast
      also have "\<dots> = map_option (\<lambda>i. at + i) (position is_esc (drop at bs))"
        using position_append_None [OF None, of "drop (at + 8) bs"] True unfolding d [symmetric]
        by (cases "position is_esc (drop (at + 8) bs)") auto
      finally show ?thesis .
    next
      case (Some i)
      then show ?thesis using True position_append_Some [OF Some, of "drop (at + 8) bs"]
        by (simp add: find_escape_from.simps [of at] d [symmetric])
    qed
  next
    case False
    then show ?thesis by (simp add: find_escape_from.simps [of at])
  qed
qed

lemma find_escape_position: "find_escape bs = position is_esc bs"
  by (simp add: find_escape_def find_escape_from_drop option.map_ident)

lemma find_escape_None: "find_escape bs = None \<longleftrightarrow> (\<forall>b\<in>set bs. byte_val b \<noteq> 0x1b)"
  by (simp add: find_escape_position position_None_iff)

lemma after_escape_length: "length (snd (after_escape bs)) \<le> length bs"
proof (induction bs rule: after_escape.induct)
  case (2 b bs)
  obtain opened r where o: "after_osc bs = (opened, r)" by force
  have l: "length r \<le> length bs" by (rule after_osc_length [OF o [symmetric]])
  show ?case
  proof (cases "b = CHR '']''")
    case True
    then show ?thesis using "2.IH"(1) [OF _ True o [symmetric]] o l by (cases opened) simp_all
  next
    case False
    then show ?thesis using "2.IH"(2) by (cases "byte_val b \<le> 0x1f") (simp_all add: le_SucI)
  qed
qed simp

text \<open>The loop of \<open>skip\<close>, from the span entered and what is left of the read.\<close>

function skip_loop :: "(halt, span) res \<Rightarrow> bytes \<Rightarrow> framing \<times> bytes" where
  "skip_loop entered r =
     (case entered of
        Inl HaltEscape \<Rightarrow> (Escape, r)
      | Inl HaltOsc \<Rightarrow> (OscIdentifier [], r)
      | Inr span \<Rightarrow>
          (case find_escape r of
             Some offset \<Rightarrow> (let (entered1, r1) = after_escape (drop (offset + 1) r) in skip_loop entered1 r1)
           | None \<Rightarrow> (settle span r, [])))"
  by pat_completeness auto
termination
proof (relation "measure (\<lambda>(entered, r). length r)")
  fix entered :: "(halt, span) res" and r r1 :: bytes and span offset p e1
  assume f: "find_escape r = Some offset" and p: "p = after_escape (drop (offset + 1) r)" "(e1, r1) = p"
  have "r \<noteq> []" using f by (auto simp: find_escape_position)
  then have "length (drop (offset + 1) r) < length r" by simp
  moreover have "snd (after_escape (drop (offset + 1) r)) = r1" using p by (metis snd_conv)
  ultimately show "((e1, r1), (entered, r)) \<in> measure (\<lambda>(entered, r). length r)"
    using after_escape_length [of "drop (offset + 1) r"] by simp
qed simp

declare skip_loop.simps [simp del]

definition skip :: "framing \<Rightarrow> bytes \<Rightarrow> framing \<times> nat" where
  "skip f bs =
     (let from_start = (\<lambda>span. Some (Ok span, bs)) in
      case (case f of
              Ground \<Rightarrow> from_start SpanGround
            | EscapeIntermediate \<Rightarrow> from_start SpanIntermediate
            | Csi \<Rightarrow> from_start SpanCsi
            | OscDiscard \<Rightarrow> from_start SpanDiscard
            | StringSeq bel_ends \<Rightarrow> from_start (SpanString bel_ends)
            | Escape \<Rightarrow> Some (after_escape bs)
            | OscIdentifier ident \<Rightarrow>
                if ident = [] then
                  Some (case after_osc bs of (opened, r) \<Rightarrow> case opened of Some res \<Rightarrow> (res, r) | None \<Rightarrow> after_escape r)
                else None
            | OscBody command body \<Rightarrow> None) of
        None \<Rightarrow> (f, 0)
      | Some (entered, r) \<Rightarrow> (let (f1, r1) = skip_loop entered r in (f1, length bs - length r1)))"

section \<open>The fast path agrees with the automaton\<close>

fun advances :: "framing \<Rightarrow> bytes \<Rightarrow> framing \<times> dispatch list" where
  "advances f [] = (f, [])"
| "advances f (b # bs) =
     (let (f1, d) = advance f b; (f2, ds) = advances f1 bs in (f2, (case d of None \<Rightarrow> [] | Some x \<Rightarrow> [x]) @ ds))"

fun span_state :: "span \<Rightarrow> framing" where
  "span_state SpanGround = Ground"
| "span_state SpanIntermediate = EscapeIntermediate"
| "span_state SpanCsi = Csi"
| "span_state SpanDiscard = OscDiscard"
| "span_state (SpanString bel_ends) = StringSeq bel_ends"

fun entered_state :: "(halt, span) res \<Rightarrow> framing" where
  "entered_state (Inl HaltEscape) = Escape"
| "entered_state (Inl HaltOsc) = OscIdentifier []"
| "entered_state (Inr span) = span_state span"

lemma advances_append:
  "advances f (xs @ ys) = (fst (advances (fst (advances f xs)) ys), snd (advances f xs) @ snd (advances (fst (advances f xs)) ys))"
  by (induction xs arbitrary: f) (simp_all add: case_prod_unfold Let_def)

text \<open>Bytes that are taken without a dispatch.\<close>

definition silent :: "framing \<Rightarrow> bytes \<Rightarrow> framing \<Rightarrow> bool" where
  "silent f p f1 \<longleftrightarrow> advances f p = (f1, [])"

lemma silent_Nil [simp]: "silent f [] g \<longleftrightarrow> f = g"
  by (simp add: silent_def)

lemma silent_Cons: "advance f b = (g, None) \<Longrightarrow> silent g p h \<Longrightarrow> silent f (b # p) h"
  by (simp add: silent_def)

lemma silent_append: "silent f p g \<Longrightarrow> silent g q h \<Longrightarrow> silent f (p @ q) h"
  by (simp add: silent_def advances_append)

lemma ground_silent: "\<forall>b\<in>set bs. byte_val b \<noteq> 0x1b \<Longrightarrow> silent Ground bs Ground"
  by (induction bs) (auto simp: advance_def intro: silent_Cons)

lemma settle_Cons:
  assumes "byte_val b \<noteq> 0x1b"
  shows "\<exists>s. advance (span_state span) b = (span_state s, None) \<and> settle span (b # bs) = settle s bs"
proof (cases "fst (advance (span_state span) b) = Ground")
  case True
  then show ?thesis using assms
    by (intro exI [of _ SpanGround]) (cases span; auto simp: advance_def settle_def split: if_splits)
next
  case False
  then show ?thesis using assms
    by (intro exI [of _ span]) (cases span; auto simp: advance_def settle_def split: if_splits)
qed

lemma settle_silent: "\<forall>b\<in>set bs. byte_val b \<noteq> 0x1b \<Longrightarrow> silent (span_state span) bs (settle span bs)"
proof (induction bs arbitrary: span)
  case Nil
  then show ?case by (cases span) (simp_all add: settle_def)
next
  case (Cons b bs)
  then obtain s where "advance (span_state span) b = (span_state s, None)" "settle span (b # bs) = settle s bs"
    using settle_Cons [of b span bs] by auto
  with Cons show ?case by (auto intro: silent_Cons)
qed

lemma settle_escape: "byte_val b = 0x1b \<Longrightarrow> advance (settle span bs) b = (Escape, None)"
  by (cases span) (simp_all add: advance_def settle_def)

text \<open>What follows an escape is taken without a dispatch, up to the span it opens or the byte it leaves.\<close>

definition splits :: "framing \<Rightarrow> bytes \<Rightarrow> framing \<Rightarrow> bytes \<Rightarrow> bool" where
  "splits f bs g r \<longleftrightarrow> (\<exists>p. bs = p @ r \<and> silent f p g)"

lemma splits_refl [simp]: "splits f r f r"
  by (simp add: splits_def)

lemma splits_Cons: "advance f b = (g, None) \<Longrightarrow> splits g bs h r \<Longrightarrow> splits f (b # bs) h r"
  unfolding splits_def by (metis append_Cons silent_Cons)

lemma splits_trans: "splits f bs g r \<Longrightarrow> splits g r h t \<Longrightarrow> splits f bs h t"
  unfolding splits_def by (metis append.assoc silent_append)

lemma after_osc_splits:
  "after_osc bs = (opened, r) \<Longrightarrow>
    splits (OscIdentifier []) bs (case opened of Some res \<Rightarrow> entered_state res | None \<Rightarrow> Escape) r"
proof (cases bs)
  case (Cons b t)
  assume a: "after_osc bs = (opened, r)"
  show ?thesis
  proof (cases "b = CHR ''7'' \<or> b = CHR ''1''")
    case True
    then show ?thesis using a Cons by (auto simp: after_osc_def)
  next
    case False
    then show ?thesis using a Cons
      by (auto simp: after_osc_def advance_def identifier_byte_def Let_def intro!: splits_Cons split: if_splits)
  qed
qed (auto simp: after_osc_def)

lemma after_escape_other:
  "b \<noteq> CHR '']'' \<Longrightarrow> b \<noteq> CHR ''c'' \<Longrightarrow>
    after_escape (b # bs) = after_escape bs \<and> advance Escape b = (Escape, None) \<and>
      b \<noteq> CHR ''['' \<and> b \<notin> {CHR ''P'', CHR ''X'', CHR ''^'', CHR ''_''} \<and> \<not> (0x20 \<le> byte_val b \<and> byte_val b \<le> 0x2f) \<and>
      \<not> (byte_val b = 0x18 \<or> byte_val b = 0x1a) \<and> byte_val b \<le> 0x1f \<or>
    (\<exists>s. after_escape (b # bs) = (Ok s, bs) \<and> advance Escape b = (span_state s, None))"
  by (auto simp: advance_def after_esc_def)

lemma after_escape_splits: "after_escape bs = (res, r) \<Longrightarrow> splits Escape bs (entered_state res) r"
proof (induction bs arbitrary: res r rule: after_escape.induct)
  case (2 b bs)
  obtain opened t where o: "after_osc bs = (opened, t)" by force
  consider "b = CHR '']''" | "b = CHR ''c''"
    | "b \<noteq> CHR '']''" "b \<noteq> CHR ''c''" "after_escape (b # bs) = after_escape bs" "advance Escape b = (Escape, None)"
      "b \<noteq> CHR ''[''" "b \<notin> {CHR ''P'', CHR ''X'', CHR ''^'', CHR ''_''}" "\<not> (0x20 \<le> byte_val b \<and> byte_val b \<le> 0x2f)"
      "\<not> (byte_val b = 0x18 \<or> byte_val b = 0x1a)" "byte_val b \<le> 0x1f"
    | s where "after_escape (b # bs) = (Ok s, bs)" "advance Escape b = (span_state s, None)"
    using after_escape_other [of b bs] by metis
  then show ?case
  proof cases
    case 1
    have e: "advance Escape b = (OscIdentifier [], None)" using 1 by (simp add: advance_def after_esc_def)
    have "splits (OscIdentifier []) bs (entered_state res) r"
    proof (cases opened)
      case None
      with o 1 "2.prems" have "after_escape t = (res, r)" by simp
      with "2.IH"(1) [OF _ 1 o [symmetric] None] 1 have "splits Escape t (entered_state res) r" by simp
      with after_osc_splits [OF o] None show ?thesis by (auto intro: splits_trans)
    next
      case (Some x)
      with o 1 "2.prems" after_osc_splits [OF o] show ?thesis by simp
    qed
    with e show ?thesis by (rule splits_Cons)
  next
    case 2
    then show ?thesis using "2.prems" by auto
  next
    case 3
    have "splits Escape bs (entered_state res) r"
      by (rule "2.IH"(2) [OF 3(5,1,2,6,7,8,9)]) (use 3(3) "2.prems" in simp)
    with 3(4) show ?thesis by (rule splits_Cons)
  next
    case 4
    with "2.prems" have "res = Ok s" "r = bs" by simp_all
    with splits_Cons [OF 4(2) splits_refl] show ?thesis by simp
  qed
qed simp

lemma skip_loop_halt [simp]:
  "skip_loop (Inl HaltEscape) r = (Escape, r)" "skip_loop (Inl HaltOsc) r = (OscIdentifier [], r)"
  by (simp_all add: skip_loop.simps)

lemma skip_loop_span:
  "skip_loop (Inr span) r =
     (case find_escape r of
        Some offset \<Rightarrow> (let (entered1, r1) = after_escape (drop (offset + 1) r) in skip_loop entered1 r1)
      | None \<Rightarrow> (settle span r, []))"
  by (subst skip_loop.simps) simp

lemma skip_loop_splits: "skip_loop entered r = (g, t) \<Longrightarrow> splits (entered_state entered) r g t"
proof (induction entered r rule: skip_loop.induct)
  case (1 entered r)
  show ?case
  proof (cases entered)
    case (Inl h)
    then show ?thesis using "1.prems" by (cases h) auto
  next
    case (Inr span)
    show ?thesis
    proof (cases "find_escape r")
      case None
      then have "silent (span_state span) r (settle span r)" by (intro settle_silent) (simp add: find_escape_None)
      then show ?thesis using "1.prems" Inr None by (auto simp: skip_loop_span splits_def)
    next
      case (Some offset)
      obtain e1 r1 where e: "after_escape (drop (offset + 1) r) = (e1, r1)" by force
      have "position is_esc r = Some offset" using Some by (simp add: find_escape_position)
      then obtain p b where r: "r = p @ b # drop (offset + 1) r" "byte_val b = 0x1b" "\<forall>x\<in>set p. byte_val x \<noteq> 0x1b"
        by (rule position_splitE) auto
      define q where "q = drop (offset + 1) r"
      have "splits (span_state (span)) (p @ b # q) (settle span p) (b # q)"
        unfolding splits_def using settle_silent [OF r(3)] by blast
      moreover have "splits (settle span p) (b # q) Escape q"
        by (rule splits_Cons [OF _ splits_refl]) (rule settle_escape [OF r(2)])
      ultimately have "splits (span_state span) (p @ b # q) Escape q" by (rule splits_trans)
      then have "splits (span_state span) r Escape q" using r(1) unfolding q_def [symmetric] by simp
      moreover have "splits Escape q (entered_state e1) r1" using after_escape_splits [OF e] by (simp add: q_def)
      moreover have "splits (entered_state e1) r1 g t"
        using "1.IH" [OF Inr Some e [symmetric] refl] "1.prems" Inr Some e by (simp add: skip_loop_span)
      ultimately show ?thesis using Inr by (auto intro: splits_trans)
    qed
  qed
qed

lemma splits_take:
  assumes "splits f bs g t"
  shows "advances f (take (length bs - length t) bs) = (g, [])" "drop (length bs - length t) bs = t"
  using assms by (auto simp: splits_def silent_def)

lemma skip_entered:
  assumes "splits f bs (entered_state e) r" "skip_loop e r = (g, t)"
  shows "splits f bs g t"
  using assms skip_loop_splits splits_trans by blast

lemma skip_exact_take: "skip f bs = (g, n) \<Longrightarrow> n \<le> length bs \<and> advances f (take n bs) = (g, [])"
proof -
  assume k: "skip f bs = (g, n)"
  have from_start: "n \<le> length bs \<and> advances f (take n bs) = (g, [])"
    if s: "splits f bs (entered_state e) r" and "skip f bs = (let (f1, r1) = skip_loop e r in (f1, length bs - length r1))" for e r
    using splits_take(1) [OF skip_entered [OF s]] k that(2) by (cases "skip_loop e r") auto
  show ?thesis
  proof (cases f)
    case Escape
    obtain e r where e: "after_escape bs = (e, r)" by force
    show ?thesis by (rule from_start [of e r]) (use Escape e after_escape_splits [OF e] in \<open>simp_all add: skip_def\<close>)
  next
    case (OscIdentifier ident)
    show ?thesis
    proof (cases "ident = []")
      case True
      obtain opened r where o: "after_osc bs = (opened, r)" by force
      obtain e t where e: "(case opened of Some res \<Rightarrow> (res, r) | None \<Rightarrow> after_escape r) = (e, t)" by force
      have "splits f bs (entered_state e) t"
        using after_osc_splits [OF o] e True OscIdentifier after_escape_splits [of r e t]
        by (cases opened) (auto intro: splits_trans)
      then show ?thesis by (rule from_start) (use True OscIdentifier o e in \<open>simp add: skip_def\<close>)
    next
      case False
      then show ?thesis using k OscIdentifier by (auto simp: skip_def)
    qed
  next
    case (OscBody command body)
    then show ?thesis using k by (auto simp: skip_def)
  next
    case Ground
    then show ?thesis by (intro from_start [of "Ok SpanGround" bs]) (simp_all add: skip_def)
  next
    case EscapeIntermediate
    then show ?thesis by (intro from_start [of "Ok SpanIntermediate" bs]) (simp_all add: skip_def)
  next
    case Csi
    then show ?thesis by (intro from_start [of "Ok SpanCsi" bs]) (simp_all add: skip_def)
  next
    case OscDiscard
    then show ?thesis by (intro from_start [of "Ok SpanDiscard" bs]) (simp_all add: skip_def)
  next
    case (StringSeq bel_ends)
    then show ?thesis by (intro from_start [of "Ok (SpanString bel_ends)" bs]) (simp_all add: skip_def)
  qed
qed

section \<open>Framing a report\<close>

definition framing_ok :: "framing \<Rightarrow> bool" where
  "framing_ok f \<longleftrightarrow>
     (case f of OscBody command body \<Rightarrow> length body \<le> MAX_BODY_BYTES | OscIdentifier i \<Rightarrow> prefix i ''7501'' \<or> prefix i ''133'' | _ \<Rightarrow> True)"

lemma after_esc_ok: "framing_ok (fst (after_esc b))"
  by (simp add: after_esc_def framing_ok_def)

lemma identifier_byte_ok: "framing_ok (identifier_byte i b)"
  by (simp add: identifier_byte_def framing_ok_def Let_def)

lemma advance_ok: "framing_ok f \<Longrightarrow> framing_ok (fst (advance f b))"
proof (cases f)
  case (OscBody command body)
  assume "framing_ok f"
  with OscBody show ?thesis by (auto simp: advance_def framing_ok_def)
qed (simp_all add: advance_def after_esc_ok identifier_byte_ok, simp_all add: framing_ok_def)

lemma advances_ok: "framing_ok f \<Longrightarrow> framing_ok (fst (advances f bs))"
proof (induction bs arbitrary: f)
  case (Cons b bs)
  with advance_ok [of f b] show ?case by (simp add: case_prod_unfold Let_def)
qed simp

definition body_byte :: "byte \<Rightarrow> bool" where
  "body_byte b \<longleftrightarrow> byte_val b \<noteq> 0x07 \<and> byte_val b \<noteq> 0x18 \<and> byte_val b \<noteq> 0x1a \<and> byte_val b \<noteq> 0x1b"

lemma body_collected:
  "\<forall>b\<in>set bs. body_byte b \<Longrightarrow> length body + length bs \<le> MAX_BODY_BYTES \<Longrightarrow>
    silent (OscBody command body) bs (OscBody command (body @ bs))"
proof (induction bs arbitrary: body)
  case (Cons b bs)
  have "advance (OscBody command body) b = (OscBody command (body @ [b]), None)"
    using Cons.prems by (simp add: advance_def body_byte_def)
  moreover have "silent (OscBody command (body @ [b])) bs (OscBody command ((body @ [b]) @ bs))"
    using Cons.prems by (intro Cons.IH) simp_all
  ultimately show ?case by (auto intro: silent_Cons)
qed simp

definition INTRO :: bytes where
  "INTRO = byte_of 0x1b # '']7501;''"

lemma intro_silent: "silent Ground INTRO (OscBody ProgramStatus [])"
  by (simp add: INTRO_def silent_def advance_def after_esc_def identifier_byte_def)

lemma body_silent:
  assumes "\<forall>b\<in>set body. body_byte b" "length body \<le> MAX_BODY_BYTES"
  shows "silent Ground (INTRO @ body) (OscBody ProgramStatus body)"
  using silent_append [OF intro_silent body_collected [of body "[]"]] assms by simp

section \<open>Properties\<close>

text \<open>
  C37. The fast path of the framer is exact: from every state and on every read, the bytes \<open>skip\<close> passes
  over are bytes on which taking one byte at a time dispatches nothing, and it leaves the state they leave.
\<close>

theorem skip_exact:
  "case skip f bs of (g, n) \<Rightarrow> n \<le> length bs \<and> advances f (take n bs) = (g, [])"
  using skip_exact_take by (auto split: prod.split)

text \<open>
  A report of at most the longest body, sent after complete output and ended by BEL or by ST, is
  dispatched once with exactly its bytes and the terminator it had, and the framer is back at ground.
\<close>

lemma report_is_dispatched:
  assumes "\<forall>b\<in>set body. body_byte b" "length body \<le> MAX_BODY_BYTES"
  shows "advances Ground (INTRO @ body @ [byte_of 0x07]) = (Ground, [Osc ProgramStatus body Bell]) \<and>
    advances Ground (INTRO @ body @ [byte_of 0x1b, CHR 0x5C]) = (Ground, [Osc ProgramStatus body EscapeEnd])"
  using body_silent [OF assms]
  by (simp add: silent_def advances_append [of _ "INTRO @ body", simplified] advance_def after_esc_def)

theorem report_is_dispatched_witness:
  "list_all body_byte ''state=done'' \<and> length ''state=done'' \<le> MAX_BODY_BYTES \<and>
   advances Ground (INTRO @ ''state=done'' @ [byte_of 0x07]) = (Ground, [Osc ProgramStatus ''state=done'' Bell])"
proof -
  have h: "\<forall>b\<in>set ''state=done''. body_byte b" "length ''state=done'' \<le> MAX_BODY_BYTES"
    by (simp_all add: body_byte_def MAX_BODY_BYTES_def MAX_SEQUENCE_BYTES_def)
  then have "list_all body_byte ''state=done''" by (simp only: list_all_iff)
  with report_is_dispatched [OF h] h(2) show ?thesis by (intro conjI) (simp_all only:)
qed

text \<open>
  Whatever arrives, the framer holds at most one body within the limit or the start of one of the two
  identifiers it looks for.
\<close>

lemma framing_bounded:
  "case fst (advances Ground bs) of
     OscBody command body \<Rightarrow> length body \<le> MAX_BODY_BYTES
   | OscIdentifier i \<Rightarrow> prefix i ''7501'' \<or> prefix i ''133''
   | _ \<Rightarrow> True"
  using advances_ok [of Ground bs] unfolding framing_ok_def by simp

end
