(* ===== verification/Status_Query.thy ===== *)
theory Status_Query
  imports Status_Framing
begin

text \<open>
  The answers to capability queries, \<^verbatim>\<open>crates/chan-library/src/terminal_sessions/program_status_query.rs\<close>: how
  many may be waiting and how many are written in a second. Instants are nanoseconds. The writer is a
  pseudo terminal: how many bytes it takes before it fails, if it fails, is part of each attempt.
\<close>

section \<open>The slots\<close>

definition MAX_PENDING :: nat where "MAX_PENDING = 8"
definition MAX_PER_SECOND :: nat where "MAX_PER_SECOND = 8"

text \<open>The counter the slots and every reply share.\<close>

record reply_slots =
  pending :: nat

record reply =
  r_terminator :: terminator

definition reserve_reply :: "terminator \<Rightarrow> reply_slots \<Rightarrow> reply_slots \<times> reply option" where
  "reserve_reply t s =
     (if pending s < MAX_PENDING then (s\<lparr>pending := pending s + 1\<rparr>, Some \<lparr>r_terminator = t\<rparr>) else (s, None))"

text \<open>\<open>fetch_sub\<close> wraps.\<close>

definition drop_reply :: "reply_slots \<Rightarrow> reply_slots" where
  "drop_reply s = s\<lparr>pending := (if pending s = 0 then u64_max else pending s - 1)\<rparr>"

definition query_bytes :: "reply \<Rightarrow> bytes" where
  "query_bytes r =
     (case r_terminator r of
        Bell \<Rightarrow> [byte_of 0x1b] @ '']7501;?'' @ [byte_of 0x07]
      | EscapeEnd \<Rightarrow> [byte_of 0x1b] @ '']7501;?'' @ [byte_of 0x1b, CHR 0x5C])"

section \<open>The writer\<close>

record reply_writer =
  written :: "nat list"

definition second :: nat where "second = 1000000000"

record attempt =
  a_echoes :: bool
  a_start :: nat
  a_finish :: nat
  a_fails :: "nat option"

fun pop_old :: "nat \<Rightarrow> nat list \<Rightarrow> nat list" where
  "pop_old start [] = []"
| "pop_old start (t # ts) = (if second \<le> start - t then pop_old start ts else t # ts)"

text \<open>The new state, the bytes the terminal took, and whether the call succeeded.\<close>

definition write_reply :: "reply \<Rightarrow> attempt \<Rightarrow> reply_writer \<Rightarrow> reply_writer \<times> bytes \<times> bool" where
  "write_reply r a w =
     (if a_echoes a then (w, [], True)
      else
        let w1 = w\<lparr>written := pop_old (a_start a) (written w)\<rparr> in
        if length (written w1) = MAX_PER_SECOND then (w1, [], True)
        else case a_fails a of
          Some n \<Rightarrow> (w1, take n (query_bytes r), False)
        | None \<Rightarrow> (w1\<lparr>written := written w1 @ [a_finish a]\<rparr>, query_bytes r, True))"

text \<open>Echo without a visible form of controls would print the answer on the screen.\<close>

definition echoes_query :: "bool \<Rightarrow> bool \<Rightarrow> bool" where
  "echoes_query echo echoctl \<longleftrightarrow> echo \<and> \<not> echoctl"

section \<open>A run of the writer\<close>

text \<open>The times at which an answer was written in full, over a sequence of attempts.\<close>

definition completed :: "reply \<Rightarrow> attempt \<Rightarrow> reply_writer \<Rightarrow> nat list" where
  "completed r a w = (case write_reply r a w of (_, bs, ok) \<Rightarrow> if ok \<and> bs \<noteq> [] then [a_finish a] else [])"

fun write_replies :: "(reply \<times> attempt) list \<Rightarrow> reply_writer \<Rightarrow> reply_writer \<times> nat list" where
  "write_replies [] w = (w, [])"
| "write_replies ((r, a) # as) w =
     (let w1 = fst (write_reply r a w); (w2, ts) = write_replies as w1 in (w2, completed r a w @ ts))"

text \<open>A clock that never goes back, as \<open>Instant\<close> promises.\<close>

fun monotone :: "nat \<Rightarrow> attempt list \<Rightarrow> bool" where
  "monotone now [] = True"
| "monotone now (a # as) = (now \<le> a_start a \<and> a_start a \<le> a_finish a \<and> monotone (a_finish a) as)"

definition spaced :: "nat list \<Rightarrow> bool" where
  "spaced ts \<longleftrightarrow> (\<forall>i. i + MAX_PER_SECOND < length ts \<longrightarrow> ts ! i + second \<le> ts ! (i + MAX_PER_SECOND))"

lemma query_bytes_nonempty [simp]: "query_bytes r \<noteq> []"
  by (simp add: query_bytes_def split: terminator.split)

lemma pop_old_split:
  "\<exists>old. ts = old @ pop_old start ts \<and> (\<forall>t\<in>set old. t + second \<le> start)"
proof (induction ts)
  case (Cons t ts)
  then obtain old where o: "ts = old @ pop_old start ts" "\<forall>t\<in>set old. t + second \<le> start" by blast
  show ?case
  proof (cases "second \<le> start - t")
    case True
    then have "t + second \<le> start" by (simp add: second_def)
    then show ?thesis using o True by (intro exI [of _ "t # old"]) simp
  qed simp
qed simp

lemma spaced_snoc:
  assumes "spaced (old @ new)" "\<forall>t\<in>set old. t + second \<le> f" "length new < MAX_PER_SECOND"
  shows "spaced (old @ new @ [f])"
proof -
  have "(old @ new @ [f]) ! i + second \<le> (old @ new @ [f]) ! (i + MAX_PER_SECOND)" if "i + MAX_PER_SECOND < length (old @ new @ [f])" for i
  proof (cases "i + MAX_PER_SECOND < length (old @ new)")
    case True
    then have "(old @ new) ! i + second \<le> (old @ new) ! (i + MAX_PER_SECOND)" using assms(1) by (simp add: spaced_def)
    then show ?thesis using True by (metis add_lessD1 append.assoc nth_append)
  next
    case False
    then have i: "i + MAX_PER_SECOND = length (old @ new)" using that by simp
    then have "i < length old" using assms(3) by simp
    then have "old ! i + second \<le> f" using assms(2) by simp
    then show ?thesis using i \<open>i < length old\<close> by (metis append.assoc nth_append nth_append_length)
  qed
  then show ?thesis by (simp add: spaced_def)
qed

text \<open>All answers so far, of which the writer remembers the end; what it forgot is a second old.\<close>

definition writer_ok :: "nat \<Rightarrow> nat list \<Rightarrow> reply_writer \<Rightarrow> bool" where
  "writer_ok now ts w \<longleftrightarrow> spaced ts \<and> length (written w) \<le> MAX_PER_SECOND \<and>
     (\<exists>old. ts = old @ written w \<and> (\<forall>t\<in>set old. t + second \<le> now))"

lemma writer_ok_step:
  assumes ok: "writer_ok now ts w" and m: "now \<le> a_start a" "a_start a \<le> a_finish a"
  shows "writer_ok (a_finish a) (ts @ completed r a w) (fst (write_reply r a w))"
proof -
  obtain old where o: "ts = old @ written w" "\<forall>t\<in>set old. t + second \<le> now" using ok by (auto simp: writer_ok_def)
  obtain gone where g: "written w = gone @ pop_old (a_start a) (written w)" "\<forall>t\<in>set gone. t + second \<le> a_start a"
    using pop_old_split by blast
  let ?new = "pop_old (a_start a) (written w)"
  have len: "length ?new \<le> MAX_PER_SECOND" using ok g(1) by (metis writer_ok_def le_trans length_append le_add2)
  have all: "\<forall>t\<in>set (old @ gone). t + second \<le> a_finish a" using o(2) g(2) m by fastforce
  have ts: "ts = (old @ gone) @ ?new" using o(1) g(1) by simp
  have sp: "spaced ts" using ok by (simp add: writer_ok_def)
  consider "a_echoes a" | "\<not> a_echoes a" "length ?new = MAX_PER_SECOND \<or> a_fails a \<noteq> None"
    | "\<not> a_echoes a" "length ?new < MAX_PER_SECOND" "a_fails a = None"
    using len by linarith
  then show ?thesis
  proof cases
    case 1
    have "\<forall>t\<in>set old. t + second \<le> a_finish a" using o(2) m by fastforce
    then show ?thesis using 1 ok o(1) by (auto simp: write_reply_def completed_def writer_ok_def)
  next
    case 2
    then have "fst (write_reply r a w) = w\<lparr>written := ?new\<rparr>" "completed r a w = []"
      by (auto simp: write_reply_def completed_def Let_def split: option.split)
    then show ?thesis unfolding writer_ok_def using ts all sp len by auto
  next
    case 3
    then have e: "fst (write_reply r a w) = w\<lparr>written := ?new @ [a_finish a]\<rparr>" "completed r a w = [a_finish a]"
      by (auto simp: write_reply_def completed_def Let_def)
    have "spaced ((old @ gone) @ ?new @ [a_finish a])" by (rule spaced_snoc) (use sp ts all 3 in auto)
    then show ?thesis unfolding writer_ok_def e using ts all 3(2) by (auto intro!: exI [of _ "old @ gone"])
  qed
qed

lemma writer_ok_run:
  "writer_ok now ts w \<Longrightarrow> monotone now (map snd as) \<Longrightarrow>
    \<exists>later. writer_ok later (ts @ snd (write_replies as w)) (fst (write_replies as w))"
proof (induction as arbitrary: now ts w)
  case (Cons x as)
  obtain r a where x: "x = (r, a)" by force
  have m: "now \<le> a_start a" "a_start a \<le> a_finish a" "monotone (a_finish a) (map snd as)" using Cons.prems(2) x by simp_all
  show ?case using Cons.IH [OF writer_ok_step [OF Cons.prems(1) m(1,2)] m(3), of r] x by (simp add: case_prod_unfold Let_def)
qed auto

section \<open>The slots as a state machine\<close>

text \<open>The counter with the replies that are live: queued or being written.\<close>

inductive slots_reach :: "reply_slots \<Rightarrow> reply list \<Rightarrow> bool" where
  start: "slots_reach \<lparr>pending = 0\<rparr> []"
| reserved: "slots_reach s live \<Longrightarrow> reserve_reply t s = (s', Some r) \<Longrightarrow> slots_reach s' (live @ [r])"
| refused: "slots_reach s live \<Longrightarrow> reserve_reply t s = (s', None) \<Longrightarrow> slots_reach s' live"
| dropped: "slots_reach s live \<Longrightarrow> i < length live \<Longrightarrow> slots_reach (drop_reply s) (take i live @ drop (i + 1) live)"

inductive_cases slots_reachE: "slots_reach s live"

lemma slots_count: "slots_reach s live \<Longrightarrow> pending s = length live \<and> length live \<le> MAX_PENDING"
  by (induction rule: slots_reach.induct) (auto simp: reserve_reply_def drop_reply_def split: if_splits)

section \<open>Properties\<close>

text \<open>
  C40. A program that asks in a loop is answered at most eight times in any second: over every sequence of
  attempts under a clock that does not go back, blocked, failed and suppressed ones among them, an answer
  and the eighth after it are completed at least a second apart.
\<close>

theorem replies_rate_limited:
  assumes "monotone 0 (map snd as)" "i + 8 < length (snd (write_replies as \<lparr>written = []\<rparr>))"
  shows "snd (write_replies as \<lparr>written = []\<rparr>) ! i + 1000000000 \<le> snd (write_replies as \<lparr>written = []\<rparr>) ! (i + 8)"
proof -
  have "writer_ok 0 [] \<lparr>written = []\<rparr>" by (simp add: writer_ok_def spaced_def)
  then have "spaced (snd (write_replies as \<lparr>written = []\<rparr>))" using writer_ok_run [OF _ assms(1)] by (fastforce simp: writer_ok_def)
  then show ?thesis using assms(2) by (simp add: spaced_def second_def MAX_PER_SECOND_def)
qed

lemma write_replies_taken:
  "\<not> a_echoes a \<Longrightarrow> a_fails a = None \<Longrightarrow> length (pop_old (a_start a) (written w)) \<noteq> 8 \<Longrightarrow>
    snd (write_replies ((r, a) # as) w) = a_finish a # snd (write_replies as (w\<lparr>written := pop_old (a_start a) (written w) @ [a_finish a]\<rparr>))"
  by (simp add: write_reply_def completed_def MAX_PER_SECOND_def Let_def case_prod_unfold)

lemma write_replies_refused:
  "\<not> a_echoes a \<Longrightarrow> length (pop_old (a_start a) (written w)) = 8 \<Longrightarrow>
    snd (write_replies ((r, a) # as) w) = snd (write_replies as (w\<lparr>written := pop_old (a_start a) (written w)\<rparr>))"
  by (simp add: write_reply_def completed_def MAX_PER_SECOND_def Let_def case_prod_unfold)

definition demo_attempts :: "(reply \<times> attempt) list" where
  "demo_attempts = map (\<lambda>n. (\<lparr>r_terminator = Bell\<rparr>, \<lparr>a_echoes = False, a_start = n, a_finish = n, a_fails = None\<rparr>))
     [0, 1, 2, 3, 4, 5, 6, 7, 8, 1000000000]"

theorem replies_rate_limited_witness:
  "monotone 0 (map snd demo_attempts) \<and> snd (write_replies demo_attempts \<lparr>written = []\<rparr>) = [0, 1, 2, 3, 4, 5, 6, 7, 1000000000] \<and>
   snd (write_replies demo_attempts \<lparr>written = []\<rparr>) ! 0 + 1000000000 \<le> snd (write_replies demo_attempts \<lparr>written = []\<rparr>) ! (0 + 8)"
proof -
  have m: "monotone 0 (map snd demo_attempts)" by (simp add: demo_attempts_def)
  have w: "snd (write_replies demo_attempts \<lparr>written = []\<rparr>) = [0, 1, 2, 3, 4, 5, 6, 7, 1000000000]"
    by (simp add: demo_attempts_def write_replies_taken write_replies_refused second_def del: write_replies.simps(2))
  have "0 + 8 < length (snd (write_replies demo_attempts \<lparr>written = []\<rparr>))" by (simp add: w)
  from replies_rate_limited [OF m this] show ?thesis using m w by (intro conjI)
qed

text \<open>
  The counter of the slots is always the number of live replies, at most eight, and a reservation is
  refused exactly when eight are live.
\<close>

lemma slots_exact:
  assumes "slots_reach s live"
  shows "pending s = length live \<and> length live \<le> 8 \<and> (snd (reserve_reply t s) = None \<longleftrightarrow> length live = 8)"
  using slots_count [OF assms] by (auto simp: reserve_reply_def MAX_PENDING_def)

end
