(* ===== verification/Status_Report.thy ===== *)
theory Status_Report
  imports Status_Framing Rust_Str
begin

text \<open>
  Model of the report parser of \<^verbatim>\<open>crates/chan-library/src/terminal_sessions/program_status.rs\<close>: the records a
  report makes, the limits on them and \<open>parse_report\<close>. The base64 engines are the parameter \<open>b64\<close>, which
  decodes with padding when its first argument holds and without it otherwise.
\<close>

datatype status_source = Program | Chan
datatype program_state = Idle | Working | Done | Blocked | Error
datatype status_kind = Permission | Question | Auth

record status_record =
  s_source :: status_source
  s_id :: "bytes option"
  s_state :: program_state
  s_kind :: "status_kind option"
  s_progress :: "nat option"
  s_app :: "bytes option"
  s_title :: "bytes option"
  s_msg :: "bytes option"
  s_seen :: bool
  s_order :: nat

definition MAX_KEY_BYTES :: nat where "MAX_KEY_BYTES = 16"
definition MAX_MSG_ENCODED_BYTES :: nat where "MAX_MSG_ENCODED_BYTES = 2732"
definition MAX_MSG_BYTES :: nat where "MAX_MSG_BYTES = 2048"
definition MAX_TITLE_ENCODED_BYTES :: nat where "MAX_TITLE_ENCODED_BYTES = 256"
definition MAX_TITLE_BYTES :: nat where "MAX_TITLE_BYTES = 192"
definition MAX_APP_BYTES :: nat where "MAX_APP_BYTES = 32"
definition MAX_ID_BYTES :: nat where "MAX_ID_BYTES = 128"
definition MAX_ID_SEGMENT_BYTES :: nat where "MAX_ID_SEGMENT_BYTES = 32"
definition MAX_ID_DEPTH :: nat where "MAX_ID_DEPTH = 8"

datatype report_error = TooLong | InvalidId | InvalidText | InvalidState

datatype report = Replace status_record | Clear "bytes option"

definition whitespace :: "byte \<Rightarrow> bool" where
  "whitespace b \<longleftrightarrow> b = CHR '' '' \<or> (0x09 \<le> byte_val b \<and> byte_val b \<le> 0x0d)"

definition trim :: "bytes \<Rightarrow> bytes" where
  "trim bs = rev (dropWhile whitespace (rev (dropWhile whitespace bs)))"

definition name_byte :: "byte \<Rightarrow> bool" where
  "name_byte b \<longleftrightarrow>
     (0x30 \<le> byte_val b \<and> byte_val b \<le> 0x39) \<or> (0x41 \<le> byte_val b \<and> byte_val b \<le> 0x5a) \<or>
     (0x61 \<le> byte_val b \<and> byte_val b \<le> 0x7a) \<or> b \<in> {CHR ''_'', CHR ''.'', CHR ''+'', CHR ''-''}"

definition name :: "bytes \<Rightarrow> bool" where
  "name bs \<longleftrightarrow> bs \<noteq> [] \<and> list_all name_byte bs"

fun validate_segments :: "nat \<Rightarrow> bytes list \<Rightarrow> (report_error, unit) res" where
  "validate_segments depth [] = Ok ()"
| "validate_segments depth (segment # segments) =
     (let depth = depth + 1 in
      if MAX_ID_DEPTH < depth \<or> MAX_ID_SEGMENT_BYTES < length segment then Err TooLong
      else if \<not> name segment then Err InvalidId
      else validate_segments depth segments)"

definition validate_id :: "bytes \<Rightarrow> (report_error, unit) res" where
  "validate_id v = (if MAX_ID_BYTES < length v then Err TooLong else validate_segments 0 (split_on (CHR ''/'') v))"

fun progress_from :: "nat \<Rightarrow> bytes \<Rightarrow> nat option" where
  "progress_from n [] = Some n"
| "progress_from n (b # bs) =
     (if \<not> is_digit b then None
      else let n = n * 10 + (byte_val b - 0x30) in if 100 < n then None else progress_from n bs)"

definition progress :: "bytes \<Rightarrow> nat option" where
  "progress v = (if v = [] then None else progress_from 0 v)"

type_synonym b64 = "bool \<Rightarrow> bytes \<Rightarrow> bytes option"

definition decode_text :: "b64 \<Rightarrow> bytes \<Rightarrow> nat \<Rightarrow> (report_error, bytes option) res" where
  "decode_text b64 encoded limit =
     (if encoded = [] then Ok None
      else
        rbind (ok_or (b64 (suffix ''='' encoded) encoded) InvalidText) (\<lambda>decoded.
          if limit < length decoded then Err TooLong
          else if \<not> utf8_valid decoded then Err InvalidText
          else if has_control decoded then Err InvalidText
          else Ok (Some decoded)))"

text \<open>The first pass over the pairs: a key that is too long refuses the report.\<close>

definition key_too_long :: "bytes \<Rightarrow> bool" where
  "key_too_long pair =
     (case position (\<lambda>b. b = CHR ''='') pair of
        None \<Rightarrow> False
      | Some eq \<Rightarrow> MAX_KEY_BYTES < length (trim (take eq pair)))"

text \<open>The local variables of the second pass.\<close>

record report_fields =
  f_state :: "bytes option"
  f_id :: "bytes option"
  f_kind :: "bytes option"
  f_percentage :: "bytes option"
  f_app :: "bytes option"
  f_title :: "bytes option"
  f_msg :: "bytes option"

definition no_fields :: report_fields where
  "no_fields = \<lparr>f_state = None, f_id = None, f_kind = None, f_percentage = None, f_app = None, f_title = None, f_msg = None\<rparr>"

definition value_byte :: "byte \<Rightarrow> bool" where
  "value_byte b \<longleftrightarrow> name_byte b \<or> b \<in> {CHR '','', CHR ''/'', CHR ''=''}"

definition set_field :: "bytes \<Rightarrow> bytes \<Rightarrow> report_fields \<Rightarrow> (report_error, report_fields) res" where
  "set_field key v f =
     (if key = ''state'' then Ok (f\<lparr>f_state := Some v\<rparr>)
      else if key = ''id'' then rbind (validate_id v) (\<lambda>_. Ok (f\<lparr>f_id := Some v\<rparr>))
      else if key = ''kind'' then Ok (f\<lparr>f_kind := Some v\<rparr>)
      else if key = ''progress'' then Ok (f\<lparr>f_percentage := Some v\<rparr>)
      else if key = ''app'' then if MAX_APP_BYTES < length v then Err TooLong else Ok (f\<lparr>f_app := Some v\<rparr>)
      else if key = ''title'' then if MAX_TITLE_ENCODED_BYTES < length v then Err TooLong else Ok (f\<lparr>f_title := Some v\<rparr>)
      else if key = ''msg'' then if MAX_MSG_ENCODED_BYTES < length v then Err TooLong else Ok (f\<lparr>f_msg := Some v\<rparr>)
      else Ok f)"

definition take_pair :: "bytes \<Rightarrow> report_fields \<Rightarrow> (report_error, report_fields) res" where
  "take_pair pair f =
     (case position (\<lambda>b. b = CHR ''='') pair of
        None \<Rightarrow> Ok f
      | Some eq \<Rightarrow>
          let key = trim (take eq pair); v = trim (drop (eq + 1) pair) in
          if key = [] \<or> \<not> list_all value_byte v then Ok f else set_field key v f)"

fun take_pairs :: "bytes list \<Rightarrow> report_fields \<Rightarrow> (report_error, report_fields) res" where
  "take_pairs [] f = Ok f"
| "take_pairs (p # ps) f = rbind (take_pair p f) (take_pairs ps)"

definition text_of :: "bytes option \<Rightarrow> bytes" where
  "text_of v = (case v of None \<Rightarrow> [] | Some x \<Rightarrow> x)"

definition state_word :: "bytes \<Rightarrow> program_state option" where
  "state_word w =
     (if w = ''idle'' then Some Idle else if w = ''working'' then Some Working else if w = ''done'' then Some Done
      else if w = ''blocked'' then Some Blocked else if w = ''error'' then Some Error else None)"

definition kind_word :: "bytes \<Rightarrow> status_kind option" where
  "kind_word w =
     (if w = ''permission'' then Some Permission else if w = ''question'' then Some Question
      else if w = ''auth'' then Some Auth else None)"

definition make_record :: "report_fields \<Rightarrow> program_state \<Rightarrow> bytes option \<Rightarrow> bytes option \<Rightarrow> status_record" where
  "make_record f state title msg =
     \<lparr>s_source = Program, s_id = f_id f, s_state = state,
      s_kind = (if state = Blocked then Option.bind (f_kind f) kind_word else None),
      s_progress = (if state = Working \<or> state = Blocked then Option.bind (f_percentage f) progress else None),
      s_app = Option.bind (f_app f) (\<lambda>v. if name v then Some v else None),
      s_title = title, s_msg = msg, s_seen = False, s_order = 0\<rparr>"

definition parse_report :: "b64 \<Rightarrow> bytes \<Rightarrow> (report_error, report) res" where
  "parse_report b64 body =
     (if MAX_BODY_BYTES < length body then Err TooLong
      else if list_ex key_too_long (split_on (CHR '':'') body) then Err TooLong
      else
        rbind (take_pairs (split_on (CHR '':'') body) no_fields) (\<lambda>f.
        rbind (decode_text b64 (text_of (f_title f)) MAX_TITLE_BYTES) (\<lambda>title.
        rbind (decode_text b64 (text_of (f_msg f)) MAX_MSG_BYTES) (\<lambda>msg.
        case f_state f of
          None \<Rightarrow> Err InvalidState
        | Some w \<Rightarrow>
            (case state_word w of
               Some state \<Rightarrow> Ok (Replace (make_record f state title msg))
             | None \<Rightarrow> if w = ''clear'' then Ok (Clear (f_id f)) else Err InvalidState)))))"

section \<open>What a parsed report can hold\<close>

definition id_ok :: "bytes \<Rightarrow> bool" where
  "id_ok v \<longleftrightarrow> length v \<le> MAX_ID_BYTES \<and> length (split_on (CHR ''/'') v) \<le> MAX_ID_DEPTH \<and>
     list_all (\<lambda>s. name s \<and> length s \<le> MAX_ID_SEGMENT_BYTES) (split_on (CHR ''/'') v)"

definition text_ok :: "nat \<Rightarrow> bytes \<Rightarrow> bool" where
  "text_ok limit t \<longleftrightarrow> length t \<le> limit \<and> utf8_valid t \<and> \<not> has_control t"

definition record_ok :: "status_record \<Rightarrow> bool" where
  "record_ok r \<longleftrightarrow> s_source r = Program \<and> pred_option id_ok (s_id r) \<and>
     (s_kind r \<noteq> None \<longrightarrow> s_state r = Blocked) \<and>
     (s_progress r \<noteq> None \<longrightarrow> s_state r = Working \<or> s_state r = Blocked) \<and> pred_option (\<lambda>n. n \<le> 100) (s_progress r) \<and>
     pred_option (\<lambda>a. name a \<and> length a \<le> MAX_APP_BYTES) (s_app r) \<and>
     pred_option (text_ok MAX_TITLE_BYTES) (s_title r) \<and> pred_option (text_ok MAX_MSG_BYTES) (s_msg r) \<and>
     \<not> s_seen r \<and> s_order r = 0"

lemma validate_segments_iff:
  "validate_segments d segs = Ok () \<longleftrightarrow>
    (segs = [] \<or> d + length segs \<le> MAX_ID_DEPTH) \<and> list_all (\<lambda>s. name s \<and> length s \<le> MAX_ID_SEGMENT_BYTES) segs"
proof (induction segs arbitrary: d)
  case (Cons s segs)
  show ?case using Cons.IH [of "d + 1"] by (cases segs) (auto simp: Let_def not_less)
qed simp

lemma validate_id_iff: "validate_id v = Ok () \<longleftrightarrow> id_ok v"
  by (auto simp: validate_id_def id_ok_def validate_segments_iff)

lemma progress_from_le: "n \<le> 100 \<Longrightarrow> progress_from n bs = Some m \<Longrightarrow> m \<le> 100"
proof (induction bs arbitrary: n)
  case (Cons b bs)
  then show ?case using Cons.IH [of "n * 10 + (byte_val b - 0x30)"] by (simp add: Let_def not_less split: if_splits)
qed simp

lemma progress_le: "progress v = Some m \<Longrightarrow> m \<le> 100"
  using progress_from_le [of 0 v m] by (simp add: progress_def split: if_splits)

lemma decode_text_ok: "decode_text b64 e limit = Ok t \<Longrightarrow> pred_option (text_ok limit) t"
  by (auto simp: decode_text_def text_ok_def res_simps split: if_splits)

definition fields_ok :: "report_fields \<Rightarrow> bool" where
  "fields_ok f \<longleftrightarrow> pred_option id_ok (f_id f) \<and> pred_option (\<lambda>v. length v \<le> MAX_APP_BYTES) (f_app f)"

lemma set_field_ok: "fields_ok f \<Longrightarrow> set_field key v f = Ok g \<Longrightarrow> fields_ok g"
  by (auto simp: set_field_def fields_ok_def res_simps validate_id_iff split: if_splits)

lemma take_pair_ok: "fields_ok f \<Longrightarrow> take_pair p f = Ok g \<Longrightarrow> fields_ok g"
  using set_field_ok by (auto simp: take_pair_def Let_def split: option.splits if_splits)

lemma take_pairs_ok: "fields_ok f \<Longrightarrow> take_pairs ps f = Ok g \<Longrightarrow> fields_ok g"
proof (induction ps arbitrary: f)
  case (Cons p ps)
  then show ?case using take_pair_ok by (auto simp: res_simps)
qed simp

lemma make_record_ok:
  assumes "fields_ok f" "pred_option (text_ok MAX_TITLE_BYTES) title" "pred_option (text_ok MAX_MSG_BYTES) msg"
  shows "record_ok (make_record f state title msg)"
  using assms progress_le
  by (auto simp: record_ok_def make_record_def fields_ok_def pred_option_def split: bind_splits)

lemma parse_report_ok:
  assumes "parse_report b64 body = Ok rep"
  shows "case rep of Replace r \<Rightarrow> record_ok r | Clear i \<Rightarrow> pred_option id_ok i"
proof -
  obtain f title msg where f: "take_pairs (split_on (CHR '':'') body) no_fields = Ok f"
    "decode_text b64 (text_of (f_title f)) MAX_TITLE_BYTES = Ok title" "decode_text b64 (text_of (f_msg f)) MAX_MSG_BYTES = Ok msg"
    "(case f_state f of None \<Rightarrow> Err InvalidState | Some w \<Rightarrow> (case state_word w of
        Some state \<Rightarrow> Ok (Replace (make_record f state title msg))
      | None \<Rightarrow> if w = ''clear'' then Ok (Clear (f_id f)) else Err InvalidState)) = Ok rep"
    using assms unfolding parse_report_def by (auto simp: res_simps split: if_splits)
  have "fields_ok f" by (rule take_pairs_ok [OF _ f(1)]) (simp add: fields_ok_def no_fields_def)
  with f(4) make_record_ok [OF _ decode_text_ok [OF f(2)] decode_text_ok [OF f(3)]] show ?thesis
    by (auto simp: fields_ok_def split: option.splits if_splits)
qed

section \<open>Reports as a program writes them\<close>

fun join_pairs :: "bytes list \<Rightarrow> bytes" where
  "join_pairs [] = []"
| "join_pairs [p] = p"
| "join_pairs (p # q # ps) = p @ CHR '':'' # join_pairs (q # ps)"

fun show_state :: "program_state \<Rightarrow> bytes" where
  "show_state Idle = ''idle''"
| "show_state Working = ''working''"
| "show_state Done = ''done''"
| "show_state Blocked = ''blocked''"
| "show_state Error = ''error''"

fun show_kind :: "status_kind \<Rightarrow> bytes" where
  "show_kind Permission = ''permission''"
| "show_kind Question = ''question''"
| "show_kind Auth = ''auth''"

definition opt_pair :: "bytes \<Rightarrow> ('a \<Rightarrow> bytes) \<Rightarrow> 'a option \<Rightarrow> (bytes \<times> bytes) list" where
  "opt_pair key f v = (case v of None \<Rightarrow> [] | Some x \<Rightarrow> [(key, f x)])"

definition report_pairs :: "(bytes \<Rightarrow> bytes) \<Rightarrow> status_record \<Rightarrow> (bytes \<times> bytes) list" where
  "report_pairs enc r = (''state'', show_state (s_state r)) # opt_pair ''id'' id (s_id r) @ opt_pair ''kind'' show_kind (s_kind r) @
     opt_pair ''progress'' show_nat (s_progress r) @ opt_pair ''app'' id (s_app r) @ opt_pair ''title'' enc (s_title r) @
     opt_pair ''msg'' enc (s_msg r)"

definition show_report :: "(bytes \<Rightarrow> bytes) \<Rightarrow> status_record \<Rightarrow> bytes" where
  "show_report enc r = join_pairs (map (\<lambda>(k, v). k @ CHR ''='' # v) (report_pairs enc r))"

text \<open>What the code relies on of base64, for one text: the engine the padding selects decodes it, and the
  encoding has four characters of its alphabet for every started group of three bytes.\<close>

definition b64_encodes :: "b64 \<Rightarrow> (bytes \<Rightarrow> bytes) \<Rightarrow> bytes \<Rightarrow> bool" where
  "b64_encodes b64 enc t \<longleftrightarrow> b64 (suffix ''='' (enc t)) (enc t) = Some t \<and> enc t \<noteq> [] \<and> list_all value_byte (enc t) \<and>
     length (enc t) \<le> 4 * ((length t + 2) div 3)"

lemma split_join_pairs:
  "ps \<noteq> [] \<Longrightarrow> \<forall>p\<in>set ps. CHR '':'' \<notin> set p \<Longrightarrow> split_on (CHR '':'') (join_pairs ps) = ps"
  by (induction ps rule: join_pairs.induct) (simp_all add: split_on_single split_on_append)

lemma trim_plain: "list_all (\<lambda>b. \<not> whitespace b) bs \<Longrightarrow> trim bs = bs"
proof -
  have keep: "\<forall>b\<in>set xs. \<not> whitespace b \<Longrightarrow> dropWhile whitespace xs = xs" for xs by (cases xs) simp_all
  assume "list_all (\<lambda>b. \<not> whitespace b) bs"
  then show ?thesis using keep [of bs] keep [of "rev bs"] by (simp add: trim_def list_all_iff)
qed

lemma name_byte_plain: "name_byte b \<Longrightarrow> value_byte b \<and> \<not> whitespace b \<and> b \<noteq> CHR '':'' \<and> b \<noteq> CHR ''='' \<and> byte_val b < 128"
  by (auto simp: name_byte_def value_byte_def whitespace_def)

lemma value_byte_plain: "value_byte b \<Longrightarrow> \<not> whitespace b \<and> b \<noteq> CHR '':''"
  using name_byte_plain [of b] by (auto simp: value_byte_def whitespace_def)

definition key_ok :: "bytes \<Rightarrow> bool" where
  "key_ok key \<longleftrightarrow> name key \<and> length key \<le> MAX_KEY_BYTES"

lemma pair_parts:
  assumes "key_ok key" "list_all value_byte v"
  shows "position (\<lambda>b. b = CHR ''='') (key @ CHR ''='' # v) = Some (length key)" "trim key = key" "trim v = v"
    "CHR '':'' \<notin> set (key @ CHR ''='' # v)"
proof -
  have k: "list_all name_byte key" using assms(1) by (simp add: key_ok_def name_def)
  show "position (\<lambda>b. b = CHR ''='') (key @ CHR ''='' # v) = Some (length key)"
    by (rule position_append) (use k name_byte_plain in \<open>auto simp: list_all_iff\<close>)
  show "trim key = key" by (rule trim_plain) (use k name_byte_plain in \<open>auto simp: list_all_iff\<close>)
  show "trim v = v" by (rule trim_plain) (use assms(2) value_byte_plain in \<open>auto simp: list_all_iff\<close>)
  show "CHR '':'' \<notin> set (key @ CHR ''='' # v)"
    using k assms(2) name_byte_plain value_byte_plain by (auto simp: list_all_iff)
qed

lemma pair_taken:
  assumes "key_ok key" "list_all value_byte v"
  shows "take_pair (key @ CHR ''='' # v) f = set_field key v f" "\<not> key_too_long (key @ CHR ''='' # v)"
  using pair_parts [OF assms] assms by (simp_all add: take_pair_def key_too_long_def key_ok_def name_def)

fun set_fields :: "(bytes \<times> bytes) list \<Rightarrow> report_fields \<Rightarrow> (report_error, report_fields) res" where
  "set_fields [] f = Ok f"
| "set_fields ((k, v) # ps) f = rbind (set_field k v f) (set_fields ps)"

lemma set_fields_append: "set_fields (ps @ qs) f = rbind (set_fields ps f) (set_fields qs)"
proof (induction ps arbitrary: f)
  case (Cons p ps)
  obtain k v where "p = (k, v)" by force
  then show ?case using Cons.IH by (cases "set_field k v f") simp_all
qed simp

lemma pairs_taken:
  "list_all (\<lambda>(k, v). key_ok k \<and> list_all value_byte v) ps \<Longrightarrow>
    take_pairs (map (\<lambda>(k, v). k @ CHR ''='' # v) ps) f = set_fields ps f \<and>
    \<not> list_ex key_too_long (map (\<lambda>(k, v). k @ CHR ''='' # v) ps) \<and> (\<forall>p\<in>set (map (\<lambda>(k, v). k @ CHR ''='' # v) ps). CHR '':'' \<notin> set p)"
proof (induction ps arbitrary: f)
  case (Cons p ps)
  obtain k v where p: "p = (k, v)" by force
  with Cons.prems have kv: "key_ok k" "list_all value_byte v" by simp_all
  show ?case using Cons pair_taken [OF kv] pair_parts(4) [OF kv] p by (cases "set_field k v f") auto
qed simp

lemma parse_pairs:
  assumes "ps \<noteq> []" "list_all (\<lambda>(k, v). key_ok k \<and> list_all value_byte v) ps"
    and "body = join_pairs (map (\<lambda>(k, v). k @ CHR ''='' # v) ps)" "length body \<le> MAX_BODY_BYTES" "set_fields ps no_fields = Ok f"
    and "decode_text b64 (text_of (f_title f)) MAX_TITLE_BYTES = Ok title" "decode_text b64 (text_of (f_msg f)) MAX_MSG_BYTES = Ok msg"
    and "f_state f = Some w" "state_word w = Some state"
  shows "parse_report b64 body = Ok (Replace (make_record f state title msg))"
proof -
  note t = pairs_taken [OF assms(2), of no_fields]
  have s: "split_on (CHR '':'') body = map (\<lambda>(k, v). k @ CHR ''='' # v) ps"
    unfolding assms(3) by (rule split_join_pairs) (use assms(1) t in simp_all)
  show ?thesis unfolding parse_report_def s using t assms(4-9) by (simp add: not_less)
qed

lemma set_opt_pair:
  "pred_option id_ok v \<Longrightarrow> set_fields (opt_pair ''id'' id v) f = Ok (if v = None then f else f\<lparr>f_id := v\<rparr>)"
  "set_fields (opt_pair ''kind'' g1 v1) f = Ok (if v1 = None then f else f\<lparr>f_kind := map_option g1 v1\<rparr>)"
  "set_fields (opt_pair ''progress'' g2 v2) f = Ok (if v2 = None then f else f\<lparr>f_percentage := map_option g2 v2\<rparr>)"
  "pred_option (\<lambda>a. length a \<le> MAX_APP_BYTES) v3 \<Longrightarrow> set_fields (opt_pair ''app'' id v3) f = Ok (if v3 = None then f else f\<lparr>f_app := v3\<rparr>)"
  "pred_option (\<lambda>t. length (enc t) \<le> MAX_TITLE_ENCODED_BYTES) v4 \<Longrightarrow>
    set_fields (opt_pair ''title'' enc v4) f = Ok (if v4 = None then f else f\<lparr>f_title := map_option enc v4\<rparr>)"
  "pred_option (\<lambda>t. length (enc t) \<le> MAX_MSG_ENCODED_BYTES) v5 \<Longrightarrow>
    set_fields (opt_pair ''msg'' enc v5) f = Ok (if v5 = None then f else f\<lparr>f_msg := map_option enc v5\<rparr>)"
  by (auto simp: opt_pair_def set_field_def not_less validate_id_iff [THEN iffD2] split: option.splits)

definition report_fields_of :: "(bytes \<Rightarrow> bytes) \<Rightarrow> status_record \<Rightarrow> report_fields" where
  "report_fields_of enc r = \<lparr>f_state = Some (show_state (s_state r)), f_id = s_id r, f_kind = map_option show_kind (s_kind r),
     f_percentage = map_option show_nat (s_progress r), f_app = s_app r, f_title = map_option enc (s_title r),
     f_msg = map_option enc (s_msg r)\<rparr>"

lemma encoded_fits:
  assumes "b64_encodes b64 enc t"
  shows "length t \<le> MAX_TITLE_BYTES \<Longrightarrow> length (enc t) \<le> MAX_TITLE_ENCODED_BYTES"
    and "length t \<le> MAX_MSG_BYTES \<Longrightarrow> length (enc t) \<le> MAX_MSG_ENCODED_BYTES"
proof -
  have l: "length (enc t) \<le> 4 * ((length t + 2) div 3)" using assms by (simp add: b64_encodes_def)
  show "length (enc t) \<le> MAX_TITLE_ENCODED_BYTES" if "length t \<le> MAX_TITLE_BYTES"
    using l div_le_mono [of "length t + 2" 194 3] that by (simp add: MAX_TITLE_BYTES_def MAX_TITLE_ENCODED_BYTES_def)
  show "length (enc t) \<le> MAX_MSG_ENCODED_BYTES" if "length t \<le> MAX_MSG_BYTES"
    using l div_le_mono [of "length t + 2" 2050 3] that by (simp add: MAX_MSG_BYTES_def MAX_MSG_ENCODED_BYTES_def)
qed

definition texts_encode :: "b64 \<Rightarrow> (bytes \<Rightarrow> bytes) \<Rightarrow> status_record \<Rightarrow> bool" where
  "texts_encode b64 enc r \<longleftrightarrow> pred_option (b64_encodes b64 enc) (s_title r) \<and> pred_option (b64_encodes b64 enc) (s_msg r)"

lemma report_fields_set:
  assumes "record_ok r" "texts_encode b64 enc r"
  shows "set_fields (report_pairs enc r) no_fields = Ok (report_fields_of enc r)"
proof -
  have p: "pred_option id_ok (s_id r)" "pred_option (\<lambda>a. length a \<le> MAX_APP_BYTES) (s_app r)"
    "pred_option (\<lambda>t. length (enc t) \<le> MAX_TITLE_ENCODED_BYTES) (s_title r)"
    "pred_option (\<lambda>t. length (enc t) \<le> MAX_MSG_ENCODED_BYTES) (s_msg r)"
    using assms encoded_fits [of b64 enc] by (auto simp: record_ok_def texts_encode_def pred_option_def text_ok_def)
  have "set_field ''state'' (show_state (s_state r)) no_fields = Ok (no_fields\<lparr>f_state := Some (show_state (s_state r))\<rparr>)"
    by (simp add: set_field_def)
  then show ?thesis
    unfolding report_pairs_def
    by (simp add: set_fields_append set_opt_pair p report_fields_of_def no_fields_def)
qed

lemma show_words [simp]: "state_word (show_state s) = Some s" "kind_word (show_kind k) = Some k"
  by (cases s; simp add: state_word_def) (cases k; simp add: kind_word_def)

lemma progress_show: "n \<le> 100 \<Longrightarrow> progress (show_nat n) = Some n"
proof -
  assume n: "n \<le> 100"
  consider "n < 10" | "10 \<le> n" "n < 100" | "n = 100" using n by linarith
  then show ?thesis
  proof cases
    case 1
    then show ?thesis by (simp add: show_nat.simps [of n] progress_def)
  next
    case 2
    then have d: "n div 10 < 10" "n div 10 * 10 + n mod 10 = n" "n div 10 \<le> 100" by auto
    have "show_nat n = [digit_byte (n div 10), digit_byte (n mod 10)]"
      using 2 d(1) by (simp add: show_nat.simps [of n] show_nat.simps [of "n div 10"])
    with d n show ?thesis by (simp add: progress_def)
  next
    case 3
    have "show_nat 100 = [digit_byte 1, digit_byte 0, digit_byte 0]"
      by (simp add: show_nat.simps [of 100] show_nat.simps [of 10] show_nat.simps [of "Suc 0"])
    then show ?thesis using 3 by (simp add: progress_def)
  qed
qed

lemma split_on_member: "b \<in> set xs \<Longrightarrow> b = c \<or> (\<exists>p\<in>set (split_on c xs). b \<in> set p)"
proof (induction xs)
  case (Cons x xs)
  then show ?case by (cases "split_on c xs") auto
qed simp

lemma id_value: "id_ok v \<Longrightarrow> list_all value_byte v"
  using split_on_member [of _ v "CHR ''/''"] name_byte_plain
  by (fastforce simp: id_ok_def list_all_iff name_def value_byte_def)

lemma digits_value: "list_all value_byte (show_nat n)"
  using show_nat_digits [where n = n] by (auto simp: list_all_iff is_digit_def value_byte_def name_byte_def)

lemma name_value: "name v \<Longrightarrow> list_all value_byte v"
  using name_byte_plain by (auto simp: name_def list_all_iff)

lemma words_value: "list_all value_byte (show_state s)" "list_all value_byte (show_kind k)"
  by (cases s; simp add: value_byte_def name_byte_def) (cases k; simp add: value_byte_def name_byte_def)

lemma keys_ok:
  "key_ok ''state''" "key_ok ''id''" "key_ok ''kind''" "key_ok ''progress''" "key_ok ''app''" "key_ok ''title''" "key_ok ''msg''"
  by (simp_all add: key_ok_def name_def name_byte_def MAX_KEY_BYTES_def)

lemma opt_pair_ok:
  "key_ok k \<Longrightarrow> pred_option (\<lambda>x. list_all value_byte (f x)) v \<Longrightarrow>
    list_all (\<lambda>(k, v). key_ok k \<and> list_all value_byte v) (opt_pair k f v)"
  by (cases v) (simp_all add: opt_pair_def)

lemma report_pairs_ok:
  assumes "record_ok r" "texts_encode b64 enc r"
  shows "list_all (\<lambda>(k, v). key_ok k \<and> list_all value_byte v) (report_pairs enc r)"
proof -
  have "pred_option (\<lambda>x. list_all value_byte (id x)) (s_id r)" "pred_option (\<lambda>x. list_all value_byte (id x)) (s_app r)"
    using assms(1) id_value name_value by (auto simp: record_ok_def pred_option_def)
  moreover have "pred_option (\<lambda>x. list_all value_byte (enc x)) (s_title r)" "pred_option (\<lambda>x. list_all value_byte (enc x)) (s_msg r)"
    using assms(2) by (auto simp: texts_encode_def b64_encodes_def pred_option_def)
  moreover have "pred_option (\<lambda>x. list_all value_byte (show_kind x)) (s_kind r)" "pred_option (\<lambda>x. list_all value_byte (show_nat x)) (s_progress r)"
    by (simp_all add: pred_option_def words_value digits_value)
  ultimately show ?thesis
    unfolding report_pairs_def list.pred_inject(2) list_all_append prod.case by (intro conjI opt_pair_ok keys_ok words_value(1))
qed

lemma text_decoded:
  assumes "pred_option (b64_encodes b64 enc) v" "pred_option (text_ok limit) v"
  shows "decode_text b64 (text_of (map_option enc v)) limit = Ok v"
  using assms by (cases v) (auto simp: decode_text_def text_of_def b64_encodes_def text_ok_def)

lemma record_rebuilt:
  assumes "record_ok r"
  shows "make_record (report_fields_of enc r) (s_state r) (s_title r) (s_msg r) = r"
proof -
  have e: "(if s_state r = Blocked then Option.bind (map_option show_kind (s_kind r)) kind_word else None) = s_kind r"
    "(if s_state r = Working \<or> s_state r = Blocked then Option.bind (map_option show_nat (s_progress r)) progress else None) = s_progress r"
    "Option.bind (s_app r) (\<lambda>v. if name v then Some v else None) = s_app r"
    using assms progress_show by (auto simp: record_ok_def pred_option_def bind_map_option comp_def split: bind_splits)
  show ?thesis using assms unfolding make_record_def report_fields_of_def report_fields.simps e
    by (intro status_record.equality) (simp_all add: record_ok_def)
qed

section \<open>Properties\<close>

text \<open>
  C35. What a report can put into the retained state is bounded. A report that is accepted gives a record
  of the program with a valid id, a kind only when blocked, a progress of at most 100 only while working
  or blocked, an application name of at most 32 bytes and texts that are UTF-8 without controls within
  their limits, or it clears an id that is valid.
\<close>

theorem accepted_report_bounded:
  assumes "parse_report b64 body = Ok rep"
  shows "length body \<le> MAX_BODY_BYTES \<and> (case rep of Replace r \<Rightarrow> record_ok r | Clear i \<Rightarrow> pred_option id_ok i)"
  using parse_report_ok [OF assms] assms by (auto simp: parse_report_def split: if_splits)

theorem accepted_report_bounded_witness:
  "parse_report (\<lambda>_ _. None) ''state=clear:id=a/b'' = Ok (Clear (Some ''a/b'')) \<and> pred_option id_ok (Some ''a/b'')"
proof -
  have p: "parse_report (\<lambda>_ _. None) ''state=clear:id=a/b'' = Ok (Clear (Some ''a/b''))" by code_simp
  then show ?thesis using accepted_report_bounded [OF p] by simp
qed

text \<open>
  C36. Every record the limits allow can be reported: written as pairs, with its texts in base64, it is
  parsed back to itself. The limits on the encoded texts are exactly enough for the limits on the texts.
\<close>

theorem report_round_trip:
  assumes "record_ok r" "texts_encode b64 enc r" "length (show_report enc r) \<le> MAX_BODY_BYTES"
  shows "parse_report b64 (show_report enc r) = Ok (Replace r)"
proof -
  have t: "pred_option (text_ok MAX_TITLE_BYTES) (s_title r)" "pred_option (text_ok MAX_MSG_BYTES) (s_msg r)"
    using assms(1) by (simp_all add: record_ok_def)
  have "parse_report b64 (show_report enc r) =
      Ok (Replace (make_record (report_fields_of enc r) (s_state r) (s_title r) (s_msg r)))"
  proof (rule parse_pairs [OF _ report_pairs_ok [OF assms(1,2)] show_report_def assms(3) report_fields_set [OF assms(1,2)]])
    show "report_pairs enc r \<noteq> []" by (simp add: report_pairs_def)
    show "decode_text b64 (text_of (f_title (report_fields_of enc r))) MAX_TITLE_BYTES = Ok (s_title r)"
      using text_decoded [OF _ t(1)] assms(2) by (simp add: report_fields_of_def texts_encode_def)
    show "decode_text b64 (text_of (f_msg (report_fields_of enc r))) MAX_MSG_BYTES = Ok (s_msg r)"
      using text_decoded [OF _ t(2)] assms(2) by (simp add: report_fields_of_def texts_encode_def)
    show "f_state (report_fields_of enc r) = Some (show_state (s_state r))" by (simp add: report_fields_of_def)
  qed (rule show_words)
  then show ?thesis using record_rebuilt [OF assms(1)] by simp
qed

definition demo_record :: status_record where
  "demo_record = \<lparr>s_source = Program, s_id = Some ''build/test'', s_state = Working, s_kind = None, s_progress = Some 40,
     s_app = Some ''cargo'', s_title = Some ''Deploy'', s_msg = None, s_seen = False, s_order = 0\<rparr>"

theorem report_round_trip_witness:
  "record_ok demo_record \<and> texts_encode (\<lambda>_ _. Some ''Deploy'') (\<lambda>_. ''RGVwbG95'') demo_record \<and>
   length (show_report (\<lambda>_. ''RGVwbG95'') demo_record) \<le> MAX_BODY_BYTES \<and>
   parse_report (\<lambda>_ _. Some ''Deploy'') (show_report (\<lambda>_. ''RGVwbG95'') demo_record) = Ok (Replace demo_record)"
proof -
  have u: "utf8_valid ''Deploy''" by (rule utf8_valid_ascii) simp
  have c: "\<not> has_control ''Deploy''" by code_simp
  have r: "record_ok demo_record"
    by (simp add: demo_record_def record_ok_def id_ok_def text_ok_def u c name_def name_byte_def MAX_ID_BYTES_def MAX_ID_DEPTH_def
        MAX_ID_SEGMENT_BYTES_def MAX_APP_BYTES_def MAX_TITLE_BYTES_def)
  have t: "texts_encode (\<lambda>_ _. Some ''Deploy'') (\<lambda>_. ''RGVwbG95'') demo_record"
    by (simp add: demo_record_def texts_encode_def b64_encodes_def value_byte_def name_byte_def)
  have l: "length (show_report (\<lambda>_. ''RGVwbG95'') demo_record) \<le> MAX_BODY_BYTES"
    by (simp add: demo_record_def show_report_def report_pairs_def opt_pair_def show_nat.simps MAX_BODY_BYTES_def MAX_SEQUENCE_BYTES_def)
  show ?thesis using report_round_trip [OF r t l] r t l by (intro conjI)
qed

end
