(* ===== verification/Program_Status.thy ===== *)
theory Program_Status
  imports Status_Report
begin

text \<open>
  Model of \<open>ProgramStatus\<close> of \<^verbatim>\<open>crates/chan-library/src/terminal_sessions/program_status.rs\<close>: the records a
  terminal's programs reported and the marks of chan's own requests, with the snapshot published to
  watchers. The watch channel is the last value sent. The caller's \<open>foreground_group\<close> closure is a
  function of how often it was called, and the calls of \<open>query\<close> are outputs.
\<close>

record snapshot =
  n_revision :: nat
  n_records :: "status_record list"

record stored_record =
  t_record :: status_record
  t_group :: "nat option"

record program_status =
  p_published :: snapshot
  p_records :: "stored_record list"
  p_requests :: "status_record list"
  p_next_token :: nat
  p_revision :: nat
  p_next_order :: nat
  p_framing :: framing
  p_finalized :: bool
  p_sealed :: bool
  p_disabled :: bool

record stored_program_record =
  sp_id :: "bytes option"
  sp_state :: program_state
  sp_kind :: "status_kind option"
  sp_progress :: "nat option"
  sp_app :: "bytes option"
  sp_title :: "bytes option"
  sp_msg :: "bytes option"
  sp_seen :: bool
  sp_order :: nat

record stored_status =
  st_revision :: nat
  st_next_order :: nat
  st_records :: "stored_program_record list"
  st_framing :: framing

definition RECORD_CAP :: nat where "RECORD_CAP = 64"
definition REQUEST_CAP :: nat where "REQUEST_CAP = 16"

definition default_status :: program_status where
  "default_status = \<lparr>p_published = \<lparr>n_revision = 0, n_records = []\<rparr>, p_records = [], p_requests = [], p_next_token = 0,
     p_revision = 0, p_next_order = 0, p_framing = Ground, p_finalized = False, p_sealed = False, p_disabled = False\<rparr>"

definition is_completion :: "program_state \<Rightarrow> bool" where
  "is_completion s \<longleftrightarrow> s = Done \<or> s = Error"

definition status_snapshot :: "program_status \<Rightarrow> snapshot" where
  "status_snapshot p = \<lparr>n_revision = p_revision p, n_records = sort_key s_order (map t_record (p_records p) @ p_requests p)\<rparr>"

definition publish_if_changed :: "nat \<Rightarrow> program_status \<Rightarrow> program_status" where
  "publish_if_changed before p = (if p_revision p \<noteq> before then p\<lparr>p_published := status_snapshot p\<rparr> else p)"

section \<open>Chan's own requests\<close>

definition set_enabled :: "bool \<Rightarrow> program_status \<Rightarrow> program_status" where
  "set_enabled enabled p =
     (if p_disabled p \<noteq> enabled then p
      else
        let p1 = p\<lparr>p_disabled := \<not> enabled\<rparr> in
        if enabled \<or> p_sealed p1 then p1
        else
          let p2 = p1\<lparr>p_framing := Ground\<rparr> in
          if p_records p2 = [] \<and> p_requests p2 = [] then p2
          else case checked_add (p_revision p2) 1 of
            None \<Rightarrow> p2
          | Some revision \<Rightarrow>
              publish_if_changed (p_revision p2) (p2\<lparr>p_records := [], p_requests := [], p_revision := revision\<rparr>))"

definition closed_status :: "program_status \<Rightarrow> bool" where
  "closed_status p \<longleftrightarrow> p_finalized p \<or> p_sealed p \<or> p_disabled p"

definition hex16 :: "nat \<Rightarrow> bytes" where
  "hex16 n = map (\<lambda>i. let d = n div 16 ^ (15 - i) mod 16 in byte_of (if d < 10 then 48 + d else 87 + d)) [0..<16]"

definition reserve_request :: "bytes \<Rightarrow> program_status \<Rightarrow> program_status \<times> bytes option" where
  "reserve_request pre p =
     (if closed_status p then (p, None)
      else case checked_add (p_next_token p) 1 of
        None \<Rightarrow> (p, None)
      | Some token \<Rightarrow> (p\<lparr>p_next_token := token\<rparr>, Some (pre @ ''/'' @ hex16 token)))"

definition remove_at :: "nat \<Rightarrow> 'a list \<Rightarrow> 'a list" where
  "remove_at i xs = take i xs @ drop (i + 1) xs"

definition replaced_request :: "bytes option \<Rightarrow> status_record list \<Rightarrow> nat option" where
  "replaced_request i rs =
     (case position (\<lambda>old. s_id old = i) rs of
        Some n \<Rightarrow> Some n
      | None \<Rightarrow> if length rs = REQUEST_CAP then position (\<lambda>r. s_seen r \<and> s_state r = Error) rs else None)"

definition set_request :: "status_record \<Rightarrow> program_status \<Rightarrow> program_status \<times> bool" where
  "set_request r p =
     (if closed_status p then (p, False)
      else case checked_add (p_revision p) 1 of
        None \<Rightarrow> (p, False)
      | Some revision \<Rightarrow>
          (case checked_add (p_next_order p) 1 of
             None \<Rightarrow> (p, False)
           | Some order \<Rightarrow>
               let store = (\<lambda>rest. (publish_if_changed (p_revision p)
                     (p\<lparr>p_requests := rest @ [r\<lparr>s_order := order\<rparr>], p_next_order := order, p_revision := revision\<rparr>), True))
               in case replaced_request (s_id r) (p_requests p) of
                    Some index \<Rightarrow> store (remove_at index (p_requests p))
                  | None \<Rightarrow> if length (p_requests p) = REQUEST_CAP then (p, False) else store (p_requests p)))"

definition remove_request :: "bytes \<Rightarrow> program_status \<Rightarrow> program_status" where
  "remove_request i p =
     (if p_finalized p \<or> p_sealed p then p
      else case checked_add (p_revision p) 1 of
        None \<Rightarrow> p
      | Some revision \<Rightarrow>
          let kept = filter (\<lambda>r. s_id r \<noteq> Some i) (p_requests p);
              p1 = p\<lparr>p_requests := kept\<rparr>;
              p2 = (if length kept \<noteq> length (p_requests p) then p1\<lparr>p_revision := revision\<rparr> else p1)
          in publish_if_changed (p_revision p) p2)"

definition clear_requests :: "program_status \<Rightarrow> program_status" where
  "clear_requests p =
     (if p_sealed p \<or> p_requests p = [] then p
      else case checked_add (p_revision p) 1 of
        None \<Rightarrow> p
      | Some revision \<Rightarrow> publish_if_changed (p_revision p) (p\<lparr>p_requests := [], p_revision := revision\<rparr>))"

section \<open>Sealing and restoring\<close>

definition seal :: "program_status \<Rightarrow> program_status" where
  "seal p = p\<lparr>p_sealed := True\<rparr>"

definition store_record :: "status_record \<Rightarrow> stored_program_record" where
  "store_record r = \<lparr>sp_id = s_id r, sp_state = s_state r, sp_kind = s_kind r, sp_progress = s_progress r, sp_app = s_app r,
     sp_title = s_title r, sp_msg = s_msg r, sp_seen = s_seen r, sp_order = s_order r\<rparr>"

definition restore_record :: "stored_program_record \<Rightarrow> status_record" where
  "restore_record r = \<lparr>s_source = Program, s_id = sp_id r, s_state = sp_state r, s_kind = sp_kind r, s_progress = sp_progress r,
     s_app = sp_app r, s_title = sp_title r, s_msg = sp_msg r, s_seen = sp_seen r, s_order = sp_order r\<rparr>"

definition stored :: "program_status \<Rightarrow> stored_status" where
  "stored p = \<lparr>st_revision = p_revision p, st_next_order = p_next_order p,
     st_records = map store_record (filter (\<lambda>r. s_source r = Program) (map t_record (p_records p))), st_framing = p_framing p\<rparr>"

definition restored :: "stored_status \<Rightarrow> program_status" where
  "restored s =
     (case checked_add (st_revision s) 1 of
        None \<Rightarrow> default_status
      | Some revision \<Rightarrow>
          publish_if_changed (st_revision s)
            (default_status\<lparr>p_records := map (\<lambda>r. \<lparr>t_record = restore_record r, t_group = None\<rparr>) (st_records s),
               p_revision := revision, p_next_order := st_next_order s, p_framing := st_framing s\<rparr>))"

section \<open>Reports\<close>

text \<open>Whether a clear of an id keeps a record: it removes the id itself and everything below it.\<close>

definition survives_clear :: "bytes option \<Rightarrow> bytes option \<Rightarrow> bool" where
  "survives_clear i child =
     (case i of
        None \<Rightarrow> False
      | Some parent \<Rightarrow>
          (case child of
             None \<Rightarrow> True
           | Some c \<Rightarrow>
               c \<noteq> parent \<and>
               \<not> (case strip_prefix parent c of None \<Rightarrow> False | Some rest \<Rightarrow> prefix ''/'' rest)))"

definition apply_report :: "report \<Rightarrow> nat option \<Rightarrow> program_status \<Rightarrow> program_status" where
  "apply_report rep grp p =
     (case checked_add (p_revision p) 1 of
        None \<Rightarrow> p
      | Some revision \<Rightarrow>
          (case rep of
             Replace r \<Rightarrow>
               (case checked_add (p_next_order p) 1 of
                  None \<Rightarrow> p
                | Some order \<Rightarrow>
                    let kept = filter (\<lambda>t. s_id (t_record t) \<noteq> s_id r) (p_records p);
                        kept = (if length kept = RECORD_CAP then tl kept else kept);
                        grp = (if is_completion (s_state r) then None else grp)
                    in p\<lparr>p_records := kept @ [\<lparr>t_record = r\<lparr>s_order := order\<rparr>, t_group = grp\<rparr>],
                         p_next_order := order, p_revision := revision\<rparr>)
           | Clear i \<Rightarrow>
               let kept = filter (\<lambda>t. survives_clear i (s_id (t_record t))) (p_records p) in
               if length kept = length (p_records p) then p\<lparr>p_records := kept\<rparr>
               else p\<lparr>p_records := kept, p_revision := revision\<rparr>))"

definition drop_transient :: "program_status \<Rightarrow> program_status" where
  "drop_transient p =
     (case checked_add (p_revision p) 1 of
        None \<Rightarrow> p
      | Some revision \<Rightarrow>
          let kept = filter (\<lambda>t. s_source (t_record t) \<noteq> Program \<or> is_completion (s_state (t_record t))) (p_records p);
              p1 = p\<lparr>p_records := kept\<rparr>
          in if length (p_records p) \<noteq> length kept then p1\<lparr>p_revision := revision\<rparr> else p1)"

text \<open>
  The arms of the match in \<open>feed\<close>: the status, the count of calls of the foreground closure, and the
  queries it answers.
\<close>

definition mark_report :: "bool \<Rightarrow> report \<Rightarrow> report" where
  "mark_report focused rep =
     (case rep of Replace r \<Rightarrow> Replace (r\<lparr>s_seen := focused \<and> is_completion (s_state r)\<rparr>) | Clear i \<Rightarrow> Clear i)"

definition takes_group :: "report \<Rightarrow> bool" where
  "takes_group rep = (case rep of Replace r \<Rightarrow> s_state r \<in> {Idle, Working, Blocked} | Clear i \<Rightarrow> False)"

type_synonym feeding = "program_status \<times> nat"

definition handle :: "b64 \<Rightarrow> bool \<Rightarrow> (nat \<Rightarrow> nat option) \<Rightarrow> feeding \<Rightarrow> dispatch \<Rightarrow> feeding \<times> terminator list" where
  "handle b64 focused groups s d =
     (case s of (p, calls) \<Rightarrow>
        (case d of
           Osc command body fin \<Rightarrow>
             (case command of
                ProgramStatus \<Rightarrow>
                  if body = ''?'' then (s, [fin])
                  else
                    (case parse_report b64 body of
                       Inl _ \<Rightarrow> (s, [])
                     | Inr rep \<Rightarrow>
                         let rep = mark_report focused rep;
                             grp = (if takes_group rep then groups calls else None);
                             calls1 = (if takes_group rep then calls + 1 else calls)
                         in ((apply_report rep grp p, calls1), []))
              | Prompt \<Rightarrow>
                  if body = ''A'' \<or> prefix ''A;'' body then ((drop_transient p, calls), []) else (s, []))
         | Reset \<Rightarrow> ((apply_report (Clear None) None p, calls), [])))"

function feed_bytes :: "b64 \<Rightarrow> bool \<Rightarrow> (nat \<Rightarrow> nat option) \<Rightarrow> feeding \<Rightarrow> bytes \<Rightarrow> feeding \<times> terminator list" where
  "feed_bytes b64 focused groups s remaining =
     (if remaining = [] then (s, [])
      else
        let (f, skipped) = skip (p_framing (fst s)) remaining;
            s0 = ((fst s)\<lparr>p_framing := f\<rparr>, snd s)
        in case drop skipped remaining of
             [] \<Rightarrow> (s0, [])
           | b # rest \<Rightarrow>
               let (f1, d) = advance f b;
                   s1 = ((fst s0)\<lparr>p_framing := f1\<rparr>, snd s0);
                   (s2, o1) = (case d of None \<Rightarrow> (s1, []) | Some x \<Rightarrow> handle b64 focused groups s1 x);
                   (s3, o2) = feed_bytes b64 focused groups s2 rest
               in (s3, o1 @ o2))"
  by pat_completeness auto
termination
proof (relation "measure (\<lambda>(_, _, _, _, r). length r)", goal_cases)
  case (2 b64 focused groups s remaining x f skipped s0 b rest)
  then have "length (drop skipped remaining) = Suc (length rest)" by simp
  then show ?case by simp
qed simp

declare feed_bytes.simps [simp del]

definition feed_status ::
    "b64 \<Rightarrow> bool \<Rightarrow> (nat \<Rightarrow> nat option) \<Rightarrow> bytes \<Rightarrow> feeding \<Rightarrow> feeding \<times> terminator list" where
  "feed_status b64 focused groups bs s =
     (case s of (p, calls) \<Rightarrow>
        if closed_status p then (s, [])
        else case feed_bytes b64 focused groups s bs of
          ((p1, calls1), qs) \<Rightarrow> ((publish_if_changed (p_revision p) p1, calls1), qs))"

definition apply_control :: "report \<Rightarrow> bool \<Rightarrow> nat option \<Rightarrow> program_status \<Rightarrow> program_status \<times> (bytes, unit) res" where
  "apply_control rep focused grp p =
     (if p_disabled p then (p, Err ''program status is disabled by configuration'')
      else if p_finalized p \<or> p_sealed p then (p, Err ''terminal session no longer accepts program status'')
      else if p_revision p = u64_max \<or> ((case rep of Replace _ \<Rightarrow> True | Clear _ \<Rightarrow> False) \<and> p_next_order p = u64_max) then
        (p, Err ''program status counter limit reached'')
      else
        let rep = mark_report focused rep;
            grp = (case rep of Replace r \<Rightarrow> if is_completion (s_state r) then None else grp | Clear _ \<Rightarrow> None)
        in (publish_if_changed (p_revision p) (apply_report rep grp p), Ok ()))"

section \<open>Attention, the end of the session and gone programs\<close>

definition mark_seen :: "program_status \<Rightarrow> program_status" where
  "mark_seen p =
     (if p_sealed p then p
      else case checked_add (p_revision p) 1 of
        None \<Rightarrow> p
      | Some revision \<Rightarrow>
          let unseen = (\<lambda>t. \<not> s_seen (t_record t) \<and> is_completion (s_state (t_record t)));
              kept = filter (\<lambda>r. s_state r \<noteq> Error) (p_requests p);
              p1 = p\<lparr>p_requests := kept,
                p_records := map (\<lambda>t. if unseen t then t\<lparr>t_record := (t_record t)\<lparr>s_seen := True\<rparr>\<rparr> else t) (p_records p)\<rparr>;
              p2 = (if length kept \<noteq> length (p_requests p) \<or> list_ex unseen (p_records p) then p1\<lparr>p_revision := revision\<rparr> else p1)
          in publish_if_changed (p_revision p) p2)"

definition finalize :: "program_status \<Rightarrow> program_status" where
  "finalize p =
     (if p_finalized p \<or> p_sealed p then p
      else
        let p1 = p\<lparr>p_finalized := True\<rparr>;
            p2 = (if p_requests p1 \<noteq> [] then
                    (case checked_add (p_revision p1) 1 of
                       None \<Rightarrow> p1
                     | Some revision \<Rightarrow> p1\<lparr>p_requests := [], p_revision := revision\<rparr>)
                  else p1)
        in publish_if_changed (p_revision p) (drop_transient p2))"

definition tagged_records :: "program_status \<Rightarrow> (nat \<times> nat) list" where
  "tagged_records p = List.map_filter (\<lambda>t. map_option (\<lambda>g. (s_order (t_record t), g)) (t_group t)) (p_records p)"

definition remove_gone_groups :: "nat list \<Rightarrow> program_status \<Rightarrow> program_status" where
  "remove_gone_groups orders p =
     (if p_sealed p then p
      else case checked_add (p_revision p) 1 of
        None \<Rightarrow> p
      | Some revision \<Rightarrow>
          let kept = filter (\<lambda>t. s_order (t_record t) \<notin> set orders) (p_records p);
              p1 = p\<lparr>p_records := kept\<rparr>;
              p2 = (if length kept \<noteq> length (p_records p) then p1\<lparr>p_revision := revision\<rparr> else p1)
          in publish_if_changed (p_revision p) p2)"

section \<open>The feed is the fold of single bytes\<close>

definition feed_byte :: "b64 \<Rightarrow> bool \<Rightarrow> (nat \<Rightarrow> nat option) \<Rightarrow> feeding \<Rightarrow> byte \<Rightarrow> feeding \<times> terminator list" where
  "feed_byte b64 focused groups s b =
     (let (f1, d) = advance (p_framing (fst s)) b;
          s1 = ((fst s)\<lparr>p_framing := f1\<rparr>, snd s)
      in case d of None \<Rightarrow> (s1, []) | Some x \<Rightarrow> handle b64 focused groups s1 x)"

lemma silent_feed:
  "advances (p_framing (fst s)) bs = (g, []) \<Longrightarrow>
    run_steps (feed_byte b64 focused groups) s bs = (((fst s)\<lparr>p_framing := g\<rparr>, snd s), [])"
proof (induction bs arbitrary: s)
  case Nil
  then show ?case by (cases s) auto
next
  case (Cons b bs)
  obtain f1 d where a: "advance (p_framing (fst s)) b = (f1, d)" by force
  let ?s1 = "((fst s)\<lparr>p_framing := f1\<rparr>, snd s)"
  obtain f2 ds where r: "advances f1 bs = (f2, ds)" by force
  have d: "d = None" "f2 = g" "ds = []" using Cons.prems a r by (auto split: option.splits)
  have "run_steps (feed_byte b64 focused groups) ?s1 bs = (((fst ?s1)\<lparr>p_framing := g\<rparr>, snd ?s1), [])"
    by (rule Cons.IH) (use r d in simp)
  moreover have "feed_byte b64 focused groups s b = (?s1, [])" using a d by (simp add: feed_byte_def)
  ultimately show ?case by simp
qed

lemma feed_bytes_steps: "feed_bytes b64 focused groups s bs = run_steps (feed_byte b64 focused groups) s bs"
proof (induction b64 focused groups s bs rule: feed_bytes.induct)
  case (1 b64 focused groups s remaining)
  let ?run = "run_steps (feed_byte b64 focused groups)"
  show ?case
  proof (cases "remaining = []")
    case True
    then show ?thesis by (simp add: feed_bytes.simps)
  next
    case False
    obtain f n where k: "skip (p_framing (fst s)) remaining = (f, n)" by force
    let ?s0 = "((fst s)\<lparr>p_framing := f\<rparr>, snd s)"
    have head: "?run s (take n remaining) = (?s0, [])"
      by (rule silent_feed) (use skip_exact_take [OF k] in simp)
    have whole: "?run s remaining = ?run ?s0 (drop n remaining)"
      using run_steps_append [of "feed_byte b64 focused groups" s "take n remaining" "drop n remaining"] head by simp
    show ?thesis
    proof (cases "drop n remaining")
      case Nil
      then show ?thesis using False k whole by (simp add: feed_bytes.simps [of _ _ _ s])
    next
      case (Cons b rest)
      obtain f1 d where a: "advance f b = (f1, d)" by force
      let ?s1 = "((fst ?s0)\<lparr>p_framing := f1\<rparr>, snd ?s0)"
      obtain s2 o1 where h: "(case d of None \<Rightarrow> (?s1, []) | Some x \<Rightarrow> handle b64 focused groups ?s1 x) = (s2, o1)"
        by (metis surj_pair)
      have step: "feed_byte b64 focused groups ?s0 b = (s2, o1)" using a h by (cases d) (simp_all add: feed_byte_def)
      have ih: "feed_bytes b64 focused groups s2 rest = ?run s2 rest"
        by (rule "1.IH" [OF False refl k [symmetric] refl Cons refl a [symmetric] refl refl h [symmetric]])
      have "feed_bytes b64 focused groups s remaining = (let (s3, o2) = feed_bytes b64 focused groups s2 rest in (s3, o1 @ o2))"
        using False k Cons a h by (cases d) (simp_all add: feed_bytes.simps [of _ _ _ s])
      then show ?thesis using whole Cons step ih by (simp add: Let_def)
    qed
  qed
qed

section \<open>What is stored is restored\<close>

lemma restore_stored_record [simp]: "restore_record (store_record r) = r\<lparr>s_source := Program\<rparr>"
  by (simp add: restore_record_def store_record_def)

lemma restored_stored:
  "restored (stored p) =
     (case checked_add (p_revision p) 1 of
        None \<Rightarrow> default_status
      | Some revision \<Rightarrow>
          publish_if_changed (p_revision p)
            (default_status\<lparr>p_records := map (\<lambda>r. \<lparr>t_record = r\<lparr>s_source := Program\<rparr>, t_group = None\<rparr>)
                 (filter (\<lambda>r. s_source r = Program) (map t_record (p_records p))),
               p_revision := revision, p_next_order := p_next_order p, p_framing := p_framing p\<rparr>))"
  by (simp add: restored_def stored_def comp_def split: option.split)

section \<open>Revisions\<close>

text \<open>How an operation may change the retained state: whenever it changes it, the revision grows.\<close>

definition evolves :: "program_status \<Rightarrow> program_status \<Rightarrow> bool" where
  "evolves p q \<longleftrightarrow> p_revision p \<le> p_revision q \<and>
     (p_revision q = p_revision p \<longrightarrow> p_records q = p_records p \<and> p_requests q = p_requests p) \<and>
     p_finalized q = p_finalized p \<and> p_sealed q = p_sealed p \<and> p_disabled q = p_disabled p \<and> p_published q = p_published p"

lemma evolves_refl [simp]: "evolves p p"
  by (simp add: evolves_def)

lemma evolves_framing [simp]: "evolves p (q\<lparr>p_framing := f\<rparr>) = evolves p q" "evolves (p\<lparr>p_framing := f\<rparr>) q = evolves p q"
  by (simp_all add: evolves_def)

lemma evolves_trans: "evolves p q \<Longrightarrow> evolves q r \<Longrightarrow> evolves p r"
  by (auto simp: evolves_def)

lemma filter_same_length: "length (filter P xs) = length xs \<Longrightarrow> filter P xs = xs"
  by (metis filter_id_conv length_filter_less less_irrefl)

lemma apply_report_evolves: "evolves p (apply_report rep grp p)"
proof (cases rep)
  case (Replace r)
  then show ?thesis by (simp add: apply_report_def evolves_def Let_def checked_add_def)
next
  case (Clear i)
  let ?kept = "filter (\<lambda>t. survives_clear i (s_id (t_record t))) (p_records p)"
  show ?thesis
  proof (cases "length ?kept = length (p_records p)")
    case True
    then show ?thesis using Clear filter_same_length [OF True] by (simp add: apply_report_def evolves_def split: option.split)
  next
    case False
    then show ?thesis using Clear by (simp add: apply_report_def evolves_def Let_def checked_add_def)
  qed
qed

lemma drop_transient_evolves: "evolves p (drop_transient p)"
proof (cases "length (p_records p) = length (filter (\<lambda>t. s_source (t_record t) \<noteq> Program \<or> is_completion (s_state (t_record t))) (p_records p))")
  case True
  with filter_same_length [OF True [symmetric]] show ?thesis by (simp add: drop_transient_def evolves_def Let_def split: option.split)
next
  case False
  then show ?thesis by (auto simp: drop_transient_def evolves_def Let_def checked_add_def)
qed

lemma handle_evolves: "evolves (fst s) (fst (fst (handle b64 focused groups s d)))"
proof (cases d)
  case (Osc command body fin)
  show ?thesis
  proof (cases command)
    case ProgramStatus
    then show ?thesis using Osc
      by (cases "parse_report b64 body") (simp_all add: handle_def apply_report_evolves Let_def case_prod_unfold)
  next
    case Prompt
    then show ?thesis using Osc by (simp add: handle_def drop_transient_evolves case_prod_unfold)
  qed
next
  case Reset
  then show ?thesis by (simp add: handle_def apply_report_evolves case_prod_unfold)
qed

lemma feed_byte_evolves: "evolves (fst s) (fst (fst (feed_byte b64 focused groups s b)))"
  using handle_evolves [of "((fst s)\<lparr>p_framing := f\<rparr>, snd s)" for f]
  by (auto simp: feed_byte_def Let_def split: prod.split option.split)

lemma feed_steps_evolves: "evolves (fst s) (fst (fst (run_steps (feed_byte b64 focused groups) s bs)))"
proof (induction bs arbitrary: s)
  case (Cons b bs)
  show ?case
    using evolves_trans [OF feed_byte_evolves Cons.IH] by (simp add: case_prod_unfold Let_def)
qed simp

text \<open>The published snapshot plays no part in what a report does.\<close>

definition republish :: "snapshot \<Rightarrow> feeding \<Rightarrow> feeding" where
  "republish x s = ((fst s)\<lparr>p_published := x\<rparr>, snd s)"

lemma apply_report_republish: "apply_report rep grp (p\<lparr>p_published := x\<rparr>) = (apply_report rep grp p)\<lparr>p_published := x\<rparr>"
  by (simp add: apply_report_def Let_def split: option.split report.split)

lemma drop_transient_republish: "drop_transient (p\<lparr>p_published := x\<rparr>) = (drop_transient p)\<lparr>p_published := x\<rparr>"
  by (simp add: drop_transient_def Let_def split: option.split)

lemma handle_republish:
  "handle b64 focused groups (republish x s) d = (republish x (fst (handle b64 focused groups s d)), snd (handle b64 focused groups s d))"
proof (cases d)
  case (Osc command body fin)
  show ?thesis
  proof (cases command)
    case ProgramStatus
    then show ?thesis using Osc
      by (cases "parse_report b64 body") (simp_all add: handle_def republish_def apply_report_republish Let_def case_prod_unfold)
  next
    case Prompt
    then show ?thesis using Osc by (simp add: handle_def republish_def drop_transient_republish case_prod_unfold)
  qed
next
  case Reset
  then show ?thesis by (simp add: handle_def republish_def apply_report_republish case_prod_unfold)
qed

lemma feed_byte_republish:
  "feed_byte b64 focused groups (republish x s) b =
    (republish x (fst (feed_byte b64 focused groups s b)), snd (feed_byte b64 focused groups s b))"
proof -
  obtain f1 d where a: "advance (p_framing (fst s)) b = (f1, d)" by force
  let ?s1 = "((fst s)\<lparr>p_framing := f1\<rparr>, snd s)"
  have e: "((fst (republish x s))\<lparr>p_framing := f1\<rparr>, snd (republish x s)) = republish x ?s1"
    "p_framing (fst (republish x s)) = p_framing (fst s)"
    by (simp_all add: republish_def)
  show ?thesis unfolding feed_byte_def e(2) a Let_def prod.case e(1) by (cases d) (simp_all add: handle_republish)
qed

lemma feed_steps_republish:
  "run_steps (feed_byte b64 focused groups) (republish x s) bs =
    (republish x (fst (run_steps (feed_byte b64 focused groups) s bs)), snd (run_steps (feed_byte b64 focused groups) s bs))"
  by (induction bs arbitrary: s) (simp_all add: feed_byte_republish case_prod_unfold Let_def)

section \<open>Reads can end anywhere\<close>

definition in_sync :: "program_status \<Rightarrow> bool" where
  "in_sync p \<longleftrightarrow> p_published p = status_snapshot p"

lemma status_snapshot_published [simp]: "status_snapshot (p\<lparr>p_published := x\<rparr>) = status_snapshot p"
  by (simp add: status_snapshot_def)

lemma publish_sync:
  assumes "in_sync p" "evolves p q"
  shows "publish_if_changed (p_revision p) q = q\<lparr>p_published := status_snapshot q\<rparr>"
proof (cases "p_revision q = p_revision p")
  case True
  then have "p_published q = status_snapshot q" using assms by (simp add: evolves_def in_sync_def status_snapshot_def)
  then show ?thesis using True by (simp add: publish_if_changed_def)
qed (simp add: publish_if_changed_def)

definition feed_run :: "b64 \<Rightarrow> bool \<Rightarrow> (nat \<Rightarrow> nat option) \<Rightarrow> feeding \<Rightarrow> bytes \<Rightarrow> feeding \<times> terminator list" where
  "feed_run b64 focused groups s bs = feed_status b64 focused groups bs s"

lemma feed_run_open:
  assumes "in_sync (fst s)" "\<not> closed_status (fst s)"
  shows "feed_run b64 focused groups s bs =
    (let (s1, qs) = run_steps (feed_byte b64 focused groups) s bs in (republish (status_snapshot (fst s1)) s1, qs))"
proof -
  obtain p calls where s: "s = (p, calls)" by force
  obtain p1 c1 qs where r: "run_steps (feed_byte b64 focused groups) s bs = ((p1, c1), qs)" by (metis prod.exhaust)
  have "evolves p p1" using feed_steps_evolves [of s b64 focused groups bs] r s by simp
  then have "publish_if_changed (p_revision p) p1 = p1\<lparr>p_published := status_snapshot p1\<rparr>"
    using assms(1) s by (intro publish_sync) simp_all
  then show ?thesis using assms(2) s r by (simp add: feed_run_def feed_status_def feed_bytes_steps republish_def)
qed

lemma feed_run_sync: "in_sync (fst s) \<Longrightarrow> in_sync (fst (fst (feed_run b64 focused groups s bs)))"
proof (cases "closed_status (fst s)")
  case False
  assume "in_sync (fst s)"
  with False show ?thesis by (simp add: feed_run_open Let_def case_prod_unfold) (simp add: in_sync_def republish_def)
qed (simp add: feed_run_def feed_status_def case_prod_unfold)

lemma feed_run_closed: "closed_status (fst (fst (feed_run b64 focused groups s bs))) = closed_status (fst s)"
proof -
  have "closed_status (publish_if_changed n q) = closed_status p" if "evolves p q" for n p q
    using that by (simp add: closed_status_def evolves_def publish_if_changed_def)
  then show ?thesis using feed_steps_evolves [of s b64 focused groups bs]
    by (simp add: feed_run_def feed_status_def feed_bytes_steps case_prod_unfold)
qed

lemma feed_run_append:
  assumes "in_sync (fst s)"
  shows "feed_run b64 focused groups s (xs @ ys) =
    (fst (feed_run b64 focused groups (fst (feed_run b64 focused groups s xs)) ys),
     snd (feed_run b64 focused groups s xs) @ snd (feed_run b64 focused groups (fst (feed_run b64 focused groups s xs)) ys))"
proof (cases "closed_status (fst s)")
  case True
  then show ?thesis by (simp add: feed_run_def feed_status_def case_prod_unfold)
next
  case False
  let ?run = "run_steps (feed_byte b64 focused groups)"
  obtain s1 q1 where r1: "?run s xs = (s1, q1)" by (metis surj_pair)
  obtain s2 q2 where r2: "?run s1 ys = (s2, q2)" by (metis surj_pair)
  let ?t1 = "republish (status_snapshot (fst s1)) s1"
  have f1: "feed_run b64 focused groups s xs = (?t1, q1)" using feed_run_open [OF assms False] r1 by simp
  have t1: "in_sync (fst ?t1)" "\<not> closed_status (fst ?t1)"
    using feed_run_sync [OF assms, of b64 focused groups xs] feed_run_closed [of b64 focused groups s xs] False f1 by simp_all
  have "?run ?t1 ys = (republish (status_snapshot (fst s1)) s2, q2)" using feed_steps_republish r2 by simp
  then have f2: "feed_run b64 focused groups ?t1 ys = (republish (status_snapshot (fst s2)) s2, q2)"
    using feed_run_open [OF t1] by (simp add: republish_def)
  have "?run s (xs @ ys) = (s2, q1 @ q2)" using run_steps_append [of "feed_byte b64 focused groups" s xs ys] r1 r2 by simp
  then have "feed_run b64 focused groups s (xs @ ys) = (republish (status_snapshot (fst s2)) s2, q1 @ q2)"
    using feed_run_open [OF assms False] by simp
  then show ?thesis using f1 f2 by simp
qed

lemma feed_run_Nil: "in_sync (fst s) \<Longrightarrow> feed_run b64 focused groups s [] = (s, [])"
  by (cases s) (simp add: feed_run_def feed_status_def feed_bytes.simps publish_if_changed_def)

interpretation status_feed: incremental "feed_run b64 focused groups" "\<lambda>s. in_sync (fst s)"
  by unfold_locales (rule feed_run_Nil feed_run_sync feed_run_append, assumption)+

section \<open>Properties\<close>

text \<open>
  C33. How the output of a program is cut into reads does not change its status: any two splits of the same
  bytes, fed read by read with a publication after each, end in the same status with the same snapshot
  published, have asked for the foreground group as often and answer the same queries in the same order.
\<close>

theorem status_reads_irrelevant:
  assumes "in_sync (fst s)" "concat cs = concat ds"
  shows "run_reads (\<lambda>s bs. feed_status b64 focused groups bs s) s cs =
    run_reads (\<lambda>s bs. feed_status b64 focused groups bs s) s ds"
  using status_feed.reads_irrelevant [OF assms, of b64 focused groups] unfolding feed_run_def .

theorem status_reads_irrelevant_witness:
  "in_sync default_status \<and>
   run_reads (\<lambda>s bs. feed_status (\<lambda>_ _. None) True (\<lambda>_. None) bs s) (default_status, 0)
     [[byte_of 0x1b], '']7501;state'', ''=done'', [byte_of 0x07]] =
   run_reads (\<lambda>s bs. feed_status (\<lambda>_ _. None) True (\<lambda>_. None) bs s) (default_status, 0)
     [[byte_of 0x1b] @ '']7501;state=done'' @ [byte_of 0x07]]"
proof -
  have d: "in_sync default_status" by (simp add: in_sync_def default_status_def status_snapshot_def)
  moreover have "run_reads (\<lambda>s bs. feed_status (\<lambda>_ _. None) True (\<lambda>_. None) bs s) (default_status, 0)
      [[byte_of 0x1b], '']7501;state'', ''=done'', [byte_of 0x07]] =
    run_reads (\<lambda>s bs. feed_status (\<lambda>_ _. None) True (\<lambda>_. None) bs s) (default_status, 0)
      [[byte_of 0x1b] @ '']7501;state=done'' @ [byte_of 0x07]]"
    by (rule status_reads_irrelevant) (use d in simp_all)
  ultimately show ?thesis by (rule conjI)
qed

end
