(* ===== verification/Status_Safety.thy ===== *)
theory Status_Safety
  imports Program_Status
begin

text \<open>
  The invariant of the retained program status, over every operation of
  \<^verbatim>\<open>crates/chan-library/src/terminal_sessions/program_status.rs\<close> as the steps of a state machine, and what
  survives a restart.
\<close>

section \<open>The keys of the retained records\<close>

type_synonym keys = "(bytes option \<times> nat) list"

definition keys_of :: "status_record list \<Rightarrow> keys" where
  "keys_of rs = map (\<lambda>r. (s_id r, s_order r)) rs"

definition record_keys :: "program_status \<Rightarrow> keys" where
  "record_keys p = keys_of (map t_record (p_records p))"

definition request_keys :: "program_status \<Rightarrow> keys" where
  "request_keys p = keys_of (p_requests p)"

text \<open>At most so many of each, one for an id, in the order of their numbers, which are all different.\<close>

definition list_ok :: "nat \<Rightarrow> nat \<Rightarrow> keys \<Rightarrow> bool" where
  "list_ok cap n ks \<longleftrightarrow> length ks \<le> cap \<and> sorted_wrt (\<lambda>a b. snd a < snd b) ks \<and> distinct (map fst ks) \<and> (\<forall>k\<in>set ks. snd k \<le> n)"

definition keyed_ok :: "nat \<Rightarrow> keys \<Rightarrow> keys \<Rightarrow> bool" where
  "keyed_ok n ks qs \<longleftrightarrow> list_ok RECORD_CAP n ks \<and> list_ok REQUEST_CAP n qs \<and> snd ` set ks \<inter> snd ` set qs = {}"

lemma sorted_wrt_subseq_keys: "subseq ks' ks \<Longrightarrow> sorted_wrt P ks \<Longrightarrow> sorted_wrt P ks'"
proof (induction rule: list_emb.induct)
  case (list_emb_Cons2 x y xs ys)
  then show ?case using list_emb_set [of "(=)" xs ys] by auto
qed simp_all

lemma subseq_mem: "subseq xs ys \<Longrightarrow> x \<in> set xs \<Longrightarrow> x \<in> set ys"
  using list_emb_set [of "(=)" xs ys] by auto

lemma distinct_subseq_keys: "subseq xs ys \<Longrightarrow> distinct ys \<Longrightarrow> distinct xs"
proof (induction rule: list_emb.induct)
  case (list_emb_Cons2 x y xs ys)
  then show ?case using subseq_mem [of xs ys] by auto
qed simp_all

lemma list_ok_subseq:
  assumes "subseq ks' ks" "list_ok cap n ks"
  shows "list_ok cap n ks'"
proof -
  have "subseq (map fst ks') (map fst ks)" using assms(1) by (rule subseq_map)
  then have "distinct (map fst ks')" by (rule distinct_subseq_keys) (use assms(2) in \<open>simp add: list_ok_def\<close>)
  moreover have "length ks' \<le> length ks" by (rule list_emb_length [OF assms(1)])
  ultimately show ?thesis
    using assms sorted_wrt_subseq_keys [OF assms(1)] subseq_mem [OF assms(1)] by (auto simp: list_ok_def)
qed

lemma keyed_shrink:
  assumes "keyed_ok n ks qs" "subseq ks' ks" "subseq qs' qs"
  shows "keyed_ok n ks' qs'"
proof -
  have "snd ` set ks' \<inter> snd ` set qs' = {}"
  proof (rule equals0I)
    fix x
    assume "x \<in> snd ` set ks' \<inter> snd ` set qs'"
    then have "x \<in> snd ` set ks \<inter> snd ` set qs" using subseq_mem [OF assms(2)] subseq_mem [OF assms(3)] by auto
    moreover have "snd ` set ks \<inter> snd ` set qs = {}" using assms(1) by (simp add: keyed_ok_def)
    ultimately show False by blast
  qed
  then show ?thesis using assms(1) list_ok_subseq [OF assms(2)] list_ok_subseq [OF assms(3)] by (simp add: keyed_ok_def)
qed

lemma list_ok_mono: "list_ok cap n ks \<Longrightarrow> n \<le> m \<Longrightarrow> list_ok cap m ks"
  by (auto simp: list_ok_def)

lemma list_ok_snoc:
  "list_ok cap n ks \<Longrightarrow> length ks < cap \<Longrightarrow> i \<notin> fst ` set ks \<Longrightarrow> list_ok cap (n + 1) (ks @ [(i, n + 1)])"
  by (auto simp: list_ok_def sorted_wrt_append)

lemma keyed_push_record:
  assumes "keyed_ok n ks qs" "length ks < RECORD_CAP" "i \<notin> fst ` set ks"
  shows "keyed_ok (n + 1) (ks @ [(i, n + 1)]) qs"
  using assms list_ok_snoc [of RECORD_CAP n ks i] list_ok_mono [of REQUEST_CAP n qs "n + 1"]
  by (auto simp: keyed_ok_def list_ok_def)

lemma keyed_push_request:
  assumes "keyed_ok n ks qs" "length qs < REQUEST_CAP" "i \<notin> fst ` set qs"
  shows "keyed_ok (n + 1) ks (qs @ [(i, n + 1)])"
  using assms list_ok_snoc [of REQUEST_CAP n qs i] list_ok_mono [of RECORD_CAP n ks "n + 1"]
  by (auto simp: keyed_ok_def list_ok_def)

section \<open>The invariant\<close>

definition retained_ok :: "program_status \<Rightarrow> bool" where
  "retained_ok p \<longleftrightarrow> keyed_ok (p_next_order p) (record_keys p) (request_keys p)"

definition status_ok :: "program_status \<Rightarrow> bool" where
  "status_ok p \<longleftrightarrow> retained_ok p \<and> in_sync p"

text \<open>A change that is published: the revision tells whether there was one.\<close>

definition tracks :: "program_status \<Rightarrow> program_status \<Rightarrow> bool" where
  "tracks p q \<longleftrightarrow> p_published q = p_published p \<and>
     (p_revision q = p_revision p \<longrightarrow> p_records q = p_records p \<and> p_requests q = p_requests p)"

lemma publish_ok:
  assumes "in_sync p" "tracks p q" "retained_ok q"
  shows "status_ok (publish_if_changed (p_revision p) q)"
  using assms by (auto simp: status_ok_def in_sync_def tracks_def publish_if_changed_def status_snapshot_def retained_ok_def
      record_keys_def request_keys_def)

lemma evolves_tracks: "evolves p q \<Longrightarrow> tracks p q"
  by (simp add: evolves_def tracks_def)

lemma checked_add_one: "checked_add n 1 = Some m \<longleftrightarrow> m = n + 1 \<and> n + 1 \<le> u64_max"
  by (simp add: checked_add_Some_iff)

lemma shrink_ok:
  assumes "retained_ok p" "p_next_order q = p_next_order p" "subseq (record_keys q) (record_keys p)" "subseq (request_keys q) (request_keys p)"
  shows "retained_ok q"
  using keyed_shrink [OF _ assms(3,4)] assms(1,2) by (simp add: retained_ok_def)

lemma record_keys_filter: "subseq (keys_of (map t_record (filter P ts))) (keys_of (map t_record ts))"
  unfolding keys_of_def by (intro subseq_map subseq_filter_left)

lemma request_keys_filter: "subseq (keys_of (filter P rs)) (keys_of rs)"
  unfolding keys_of_def by (intro subseq_map subseq_filter_left)

lemma default_ok: "status_ok default_status"
  by (simp add: status_ok_def retained_ok_def in_sync_def default_status_def status_snapshot_def keyed_ok_def list_ok_def
      record_keys_def request_keys_def keys_of_def)

lemma subseq_tl: "subseq (tl xs) xs"
  by (cases xs) auto

lemma apply_report_ok:
  assumes "retained_ok p"
  shows "retained_ok (apply_report rep grp p)"
proof (cases rep)
  case (Replace r)
  let ?kept = "filter (\<lambda>t. s_id (t_record t) \<noteq> s_id r) (p_records p)"
  let ?rest = "if length ?kept = RECORD_CAP then tl ?kept else ?kept"
  let ?ks = "keys_of (map t_record ?rest)"
  have sub: "subseq ?ks (record_keys p)"
  proof -
    have "subseq ?rest ?kept" by (simp add: subseq_tl)
    then have "subseq ?ks (keys_of (map t_record ?kept))" unfolding keys_of_def by (intro subseq_map)
    then show ?thesis unfolding record_keys_def using record_keys_filter by (rule subseq_order.trans)
  qed
  have k: "keyed_ok (p_next_order p) ?ks (request_keys p)"
    using keyed_shrink [OF _ sub, of "p_next_order p" "request_keys p" "request_keys p"] assms by (simp add: retained_ok_def)
  have "length (p_records p) \<le> RECORD_CAP"
    using assms by (simp add: retained_ok_def keyed_ok_def list_ok_def record_keys_def keys_of_def)
  then have l: "length ?kept \<le> RECORD_CAP" using length_filter_le order_trans by blast
  have len: "length ?ks < RECORD_CAP" using l by (auto simp: keys_of_def RECORD_CAP_def)
  have sr: "subseq ?rest ?kept" by (simp add: subseq_tl)
  have "set ?rest \<subseteq> set ?kept" by (rule subsetI) (rule subseq_mem [OF sr])
  then have new: "s_id r \<notin> fst ` set ?ks" by (auto simp: keys_of_def)
  have "keyed_ok (p_next_order p + 1) (?ks @ [(s_id r, p_next_order p + 1)]) (request_keys p)"
    by (rule keyed_push_record [OF k len new])
  then show ?thesis using assms Replace
    by (auto simp: apply_report_def retained_ok_def record_keys_def request_keys_def keys_of_def Let_def checked_add_def)
next
  case (Clear i)
  then show ?thesis
    by (intro shrink_ok [OF assms])
      (simp_all add: apply_report_def record_keys_def request_keys_def Let_def checked_add_def record_keys_filter)
qed

lemma drop_transient_ok: "retained_ok p \<Longrightarrow> retained_ok (drop_transient p)"
  by (rule shrink_ok [of p])
    (auto simp: drop_transient_def record_keys_def request_keys_def Let_def checked_add_def record_keys_filter)

lemma retained_ok_frame [simp]:
  "retained_ok (p\<lparr>p_framing := f\<rparr>) = retained_ok p" "retained_ok (p\<lparr>p_published := x\<rparr>) = retained_ok p"
  "retained_ok (p\<lparr>p_finalized := b\<rparr>) = retained_ok p" "retained_ok (p\<lparr>p_sealed := b\<rparr>) = retained_ok p"
  "retained_ok (p\<lparr>p_disabled := b\<rparr>) = retained_ok p" "retained_ok (p\<lparr>p_next_token := n\<rparr>) = retained_ok p"
  "retained_ok (p\<lparr>p_revision := n\<rparr>) = retained_ok p"
  by (simp_all add: retained_ok_def record_keys_def request_keys_def)

lemma handle_ok:
  assumes "retained_ok (fst s)"
  shows "retained_ok (fst (fst (handle b64 focused groups s d)))"
proof (cases d)
  case (Osc command body fin)
  show ?thesis
  proof (cases command)
    case ProgramStatus
    then show ?thesis using Osc assms
      by (cases "parse_report b64 body") (simp_all add: handle_def apply_report_ok Let_def case_prod_unfold)
  next
    case Prompt
    then show ?thesis using Osc assms by (simp add: handle_def drop_transient_ok case_prod_unfold)
  qed
next
  case Reset
  then show ?thesis using assms by (simp add: handle_def apply_report_ok case_prod_unfold)
qed

lemma feed_byte_ok:
  assumes "retained_ok (fst s)"
  shows "retained_ok (fst (fst (feed_byte b64 focused groups s b)))"
proof -
  obtain f1 d where a: "advance (p_framing (fst s)) b = (f1, d)" by force
  show ?thesis
    using handle_ok [of "((fst s)\<lparr>p_framing := f1\<rparr>, snd s)" b64 focused groups] assms a
    by (cases d) (simp_all add: feed_byte_def)
qed

lemma feed_steps_ok: "retained_ok (fst s) \<Longrightarrow> retained_ok (fst (fst (run_steps (feed_byte b64 focused groups) s bs)))"
  by (rule run_steps_invariant [where P = "\<lambda>s. retained_ok (fst s)"]) (rule feed_byte_ok)

lemma feed_status_ok: "status_ok (fst s) \<Longrightarrow> status_ok (fst (fst (feed_status b64 focused groups bs s)))"
proof (cases "closed_status (fst s)")
  case True
  assume "status_ok (fst s)"
  with True show ?thesis by (simp add: feed_status_def case_prod_unfold)
next
  case False
  assume a: "status_ok (fst s)"
  have "status_ok (publish_if_changed (p_revision (fst s)) (fst (fst (run_steps (feed_byte b64 focused groups) s bs))))"
    using a feed_steps_ok [of s] evolves_tracks [OF feed_steps_evolves]
    by (intro publish_ok) (simp_all add: status_ok_def)
  with False show ?thesis by (simp add: feed_status_def feed_bytes_steps case_prod_unfold)
qed

lemma apply_control_ok: "status_ok p \<Longrightarrow> status_ok (fst (apply_control rep focused grp p))"
  using publish_ok [OF _ evolves_tracks [OF apply_report_evolves] apply_report_ok]
  by (simp add: apply_control_def status_ok_def Let_def)

text \<open>The shape of most operations: a smaller list with a new revision, published.\<close>

lemma shrunk_ok:
  assumes a: "status_ok p" and q: "p_next_order q = p_next_order p" "subseq (record_keys q) (record_keys p)"
    "subseq (request_keys q) (request_keys p)" "tracks p q"
  shows "status_ok (publish_if_changed (p_revision p) q)"
  using a publish_ok [OF _ q(4) shrink_ok [OF _ q(1-3)]] by (simp add: status_ok_def)

lemma revise_ok:
  assumes a: "status_ok p" and q: "p_next_order q = p_next_order p" "subseq (record_keys q) (record_keys p)"
    "subseq (request_keys q) (request_keys p)" "p_published q = p_published p" "p_revision q = p_revision p"
    and same: "\<not> c \<Longrightarrow> p_records q = p_records p \<and> p_requests q = p_requests p"
  shows "status_ok (case checked_add (p_revision p) 1 of None \<Rightarrow> p
      | Some revision \<Rightarrow> publish_if_changed (p_revision p) (if c then q\<lparr>p_revision := revision\<rparr> else q))"
proof (cases "checked_add (p_revision p) 1")
  case (Some n)
  then have n: "n = p_revision p + 1" unfolding checked_add_one by simp
  have "status_ok (publish_if_changed (p_revision p) (if c then q\<lparr>p_revision := n\<rparr> else q))"
  proof (rule shrunk_ok [OF a])
    show "tracks p (if c then q\<lparr>p_revision := n\<rparr> else q)" using q same n by (cases c) (simp_all add: tracks_def)
  qed (use q in \<open>simp_all add: record_keys_def request_keys_def\<close>)
  with Some show ?thesis by simp
qed (use a in simp)

lemmas revise_all_ok = revise_ok [where c = True, unfolded if_True]

lemma status_ok_frame [simp]:
  "status_ok (p\<lparr>p_disabled := d\<rparr>) = status_ok p" "status_ok (p\<lparr>p_framing := f\<rparr>) = status_ok p"
  "status_ok (p\<lparr>p_sealed := d\<rparr>) = status_ok p" "status_ok (p\<lparr>p_finalized := d\<rparr>) = status_ok p"
  "status_ok (p\<lparr>p_next_token := n\<rparr>) = status_ok p"
  by (simp_all add: status_ok_def in_sync_def status_snapshot_def)

lemma set_enabled_ok:
  assumes a: "status_ok p"
  shows "status_ok (set_enabled enabled p)"
proof -
  let ?q = "p\<lparr>p_disabled := \<not> enabled\<rparr>\<lparr>p_framing := Ground\<rparr>"
  have q: "status_ok ?q" using a by simp
  have "status_ok (case checked_add (p_revision ?q) 1 of None \<Rightarrow> ?q
      | Some revision \<Rightarrow> publish_if_changed (p_revision ?q) (?q\<lparr>p_records := [], p_requests := []\<rparr>\<lparr>p_revision := revision\<rparr>))"
    by (rule revise_all_ok [OF q]) (simp_all add: record_keys_def request_keys_def keys_of_def)
  then show ?thesis using a q unfolding set_enabled_def Let_def
    by (cases "p_disabled p \<noteq> enabled"; cases "enabled \<or> p_sealed p"; cases "p_records p = [] \<and> p_requests p = []") (simp_all)
qed

lemma reserve_request_ok: "status_ok p \<Longrightarrow> status_ok (fst (reserve_request pre p))"
  by (simp add: reserve_request_def status_ok_def in_sync_def status_snapshot_def split: option.split)

lemma subseq_remove_at: "subseq (remove_at i xs) xs"
proof -
  have "subseq (drop (i + 1) xs) (drop i xs)" by (metis add.commute drop_drop subseq_rev_drop_many suffix_drop suffix_imp_subseq)
  then have "subseq (take i xs @ drop (i + 1) xs) (take i xs @ drop i xs)" by (rule list_emb_append_mono [OF subseq_order.refl])
  then show ?thesis by (simp only: remove_at_def append_take_drop_id)
qed

lemma length_remove_at: "i < length xs \<Longrightarrow> length (remove_at i xs) < length xs"
  by (simp add: remove_at_def)

lemma store_request_ok:
  assumes a: "status_ok p" and s: "subseq rest (p_requests p)" and l: "length rest < REQUEST_CAP" and new: "s_id r \<notin> s_id ` set rest"
  shows "status_ok (publish_if_changed (p_revision p)
    (p\<lparr>p_requests := rest @ [r\<lparr>s_order := p_next_order p + 1\<rparr>], p_next_order := p_next_order p + 1, p_revision := p_revision p + 1\<rparr>))"
proof (rule publish_ok)
  have "subseq (keys_of rest) (request_keys p)" unfolding request_keys_def keys_of_def using s by (rule subseq_map)
  then have "keyed_ok (p_next_order p) (record_keys p) (keys_of rest)"
    using keyed_shrink [of "p_next_order p" "record_keys p" "request_keys p" "record_keys p" "keys_of rest"] a
    by (simp add: status_ok_def retained_ok_def)
  then have "keyed_ok (p_next_order p + 1) (record_keys p) (keys_of rest @ [(s_id r, p_next_order p + 1)])"
    by (rule keyed_push_request) (use l new in \<open>auto simp: keys_of_def\<close>)
  then show "retained_ok (p\<lparr>p_requests := rest @ [r\<lparr>s_order := p_next_order p + 1\<rparr>], p_next_order := p_next_order p + 1,
      p_revision := p_revision p + 1\<rparr>)"
    by (simp add: retained_ok_def record_keys_def request_keys_def keys_of_def)
qed (use a in \<open>simp_all add: status_ok_def tracks_def\<close>)

lemma distinct_remove_at:
  assumes "distinct (map f xs)" "i < length xs"
  shows "f (xs ! i) \<notin> f ` set (remove_at i xs)"
proof -
  have "xs = take i xs @ xs ! i # drop (i + 1) xs" using id_take_nth_drop [OF assms(2)] by simp
  then have "distinct (map f (take i xs @ xs ! i # drop (i + 1) xs))" using assms(1) by simp
  then show ?thesis by (auto simp: remove_at_def)
qed

lemma set_request_ok:
  assumes "status_ok p"
  shows "status_ok (fst (set_request r p))"
proof -
  have q: "length (p_requests p) \<le> REQUEST_CAP" "distinct (map s_id (p_requests p))"
    using assms by (simp_all add: status_ok_def retained_ok_def keyed_ok_def list_ok_def request_keys_def keys_of_def comp_def)
  show ?thesis
  proof (cases "closed_status p \<or> checked_add (p_revision p) 1 = None \<or> checked_add (p_next_order p) 1 = None")
    case True
    then show ?thesis using assms by (auto simp: set_request_def split: option.split)
  next
    case False
    then have c: "\<not> closed_status p" "checked_add (p_revision p) 1 = Some (p_revision p + 1)"
      "checked_add (p_next_order p) 1 = Some (p_next_order p + 1)"
      by (auto simp: checked_add_def split: if_splits)
    show ?thesis
    proof (cases "replaced_request (s_id r) (p_requests p)")
      case None
      have n: "s_id r \<notin> s_id ` set (p_requests p)"
        using None by (auto simp: replaced_request_def position_None_iff split: option.splits)
      show ?thesis
        using c None assms q(1) store_request_ok [OF assms _ _ n] by (simp add: set_request_def)
    next
      case (Some i)
      have i: "i < length (p_requests p) \<and> s_id r \<notin> s_id ` set (remove_at i (p_requests p))"
      proof (cases "position (\<lambda>old. s_id old = s_id r) (p_requests p)")
        case (Some j)
        with \<open>replaced_request (s_id r) (p_requests p) = Some i\<close> have "j = i" by (simp add: replaced_request_def)
        with position_SomeD [OF Some] distinct_remove_at [OF q(2), of i] show ?thesis by simp
      next
        case None
        with \<open>replaced_request (s_id r) (p_requests p) = Some i\<close> have "position (\<lambda>r. s_seen r \<and> s_state r = Error) (p_requests p) = Some i"
          by (simp add: replaced_request_def split: if_splits)
        then have "i < length (p_requests p)" using position_SomeD by blast
        moreover have "s_id r \<notin> s_id ` set (p_requests p)" using None by (auto simp: position_None_iff)
        ultimately show ?thesis using subseq_mem [OF subseq_remove_at] by fastforce
      qed
      then have "status_ok (publish_if_changed (p_revision p)
          (p\<lparr>p_requests := remove_at i (p_requests p) @ [r\<lparr>s_order := p_next_order p + 1\<rparr>], p_next_order := p_next_order p + 1,
             p_revision := p_revision p + 1\<rparr>))"
        using q(1) length_remove_at [of i "p_requests p"] by (intro store_request_ok [OF assms subseq_remove_at]) auto
      then show ?thesis using c Some by (simp add: set_request_def)
    qed
  qed
qed

lemma remove_request_ok:
  assumes "status_ok p"
  shows "status_ok (remove_request i p)"
proof (cases "p_finalized p \<or> p_sealed p")
  case True
  then show ?thesis using assms by (simp add: remove_request_def)
next
  case False
  show ?thesis unfolding remove_request_def Let_def if_not_P [OF False]
    by (rule revise_ok [OF assms]) (simp_all add: record_keys_def request_keys_def request_keys_filter filter_same_length)
qed

lemma clear_requests_ok:
  assumes "status_ok p"
  shows "status_ok (clear_requests p)"
proof (cases "p_sealed p \<or> p_requests p = []")
  case True
  then show ?thesis using assms by (simp add: clear_requests_def)
next
  case False
  show ?thesis unfolding clear_requests_def if_not_P [OF False]
    by (rule revise_all_ok [OF assms]) (simp_all add: record_keys_def request_keys_def keys_of_def)
qed

lemma remove_gone_groups_ok:
  assumes "status_ok p"
  shows "status_ok (remove_gone_groups orders p)"
proof (cases "p_sealed p")
  case True
  then show ?thesis using assms by (simp add: remove_gone_groups_def)
next
  case False
  show ?thesis unfolding remove_gone_groups_def Let_def if_not_P [OF False]
    by (rule revise_ok [OF assms]) (simp_all add: record_keys_def request_keys_def record_keys_filter filter_same_length)
qed

lemma finalize_ok:
  assumes "status_ok p"
  shows "status_ok (finalize p)"
proof -
  let ?p1 = "p\<lparr>p_finalized := True\<rparr>"
  define p2 where "p2 = (if p_requests ?p1 \<noteq> [] then
      (case checked_add (p_revision ?p1) 1 of None \<Rightarrow> ?p1 | Some n \<Rightarrow> ?p1\<lparr>p_requests := [], p_revision := n\<rparr>) else ?p1)"
  have r: "retained_ok p" "in_sync p" using assms by (simp_all add: status_ok_def)
  have c: "p2 = ?p1 \<or> p2 = ?p1\<lparr>p_requests := [], p_revision := p_revision p + 1\<rparr>"
    unfolding p2_def by (auto simp: checked_add_def)
  then have "retained_ok p2"
    using r(1) by (elim disjE) (simp, simp add: shrink_ok [OF r(1)] record_keys_def request_keys_def keys_of_def)
  then have ok: "retained_ok (drop_transient p2)" by (rule drop_transient_ok)
  have "tracks p (drop_transient p2)"
    using c drop_transient_evolves [of p2] by (elim disjE) (auto simp: tracks_def evolves_def)
  then have "status_ok (publish_if_changed (p_revision p) (drop_transient p2))" by (rule publish_ok [OF r(2) _ ok])
  then show ?thesis using assms by (simp add: finalize_def Let_def p2_def)
qed

lemma mark_seen_ok:
  assumes "status_ok p"
  shows "status_ok (mark_seen p)"
proof -
  let ?unseen = "\<lambda>t. \<not> s_seen (t_record t) \<and> is_completion (s_state (t_record t))"
  let ?kept = "filter (\<lambda>r. s_state r \<noteq> Error) (p_requests p)"
  let ?rs = "map (\<lambda>t. if ?unseen t then t\<lparr>t_record := (t_record t)\<lparr>s_seen := True\<rparr>\<rparr> else t) (p_records p)"
  have k: "keys_of (map t_record ?rs) = keys_of (map t_record (p_records p))" by (simp add: keys_of_def)
  have same: "?rs = p_records p" if "\<not> list_ex ?unseen (p_records p)"
    using that by (auto simp: list_ex_iff intro: map_idI)
  show ?thesis
  proof (cases "p_sealed p")
    case True
    then show ?thesis using assms by (simp add: mark_seen_def)
  next
    case False
    show ?thesis unfolding mark_seen_def Let_def if_not_P [OF False]
    proof (rule revise_ok [OF assms])
      show "subseq (record_keys (p\<lparr>p_requests := ?kept, p_records := ?rs\<rparr>)) (record_keys p)"
        unfolding record_keys_def using k by simp
      show "subseq (request_keys (p\<lparr>p_requests := ?kept, p_records := ?rs\<rparr>)) (request_keys p)"
        unfolding request_keys_def using request_keys_filter by simp
      assume c: "\<not> (length ?kept \<noteq> length (p_requests p) \<or> list_ex ?unseen (p_records p))"
      then have "?kept = p_requests p" by (intro filter_same_length) simp
      with c same show "p_records (p\<lparr>p_requests := ?kept, p_records := ?rs\<rparr>) = p_records p \<and>
          p_requests (p\<lparr>p_requests := ?kept, p_records := ?rs\<rparr>) = p_requests p" by simp
    qed simp_all
  qed
qed

lemma restored_ok:
  assumes "status_ok p"
  shows "status_ok (restored (stored p))"
proof (cases "checked_add (p_revision p) 1")
  case None
  then show ?thesis by (simp add: restored_stored default_ok)
next
  case (Some n)
  let ?rs = "filter (\<lambda>r. s_source r = Program) (map t_record (p_records p))"
  define q where "q = default_status\<lparr>p_records := map (\<lambda>r. \<lparr>t_record = r\<lparr>s_source := Program\<rparr>, t_group = None\<rparr>) ?rs,
    p_revision := n, p_next_order := p_next_order p, p_framing := p_framing p\<rparr>"
  have n: "n = p_revision p + 1" using Some unfolding checked_add_one by simp
  have k: "record_keys q = keys_of ?rs" "request_keys q = []" "p_next_order q = p_next_order p"
    by (simp_all add: record_keys_def request_keys_def keys_of_def q_def default_status_def)
  have "subseq (record_keys q) (record_keys p)" unfolding k(1) by (simp add: record_keys_def request_keys_filter)
  then have "retained_ok q" using assms k by (auto simp: status_ok_def intro: shrink_ok [of p q])
  then have "status_ok (q\<lparr>p_published := status_snapshot q\<rparr>)" by (simp add: status_ok_def in_sync_def)
  moreover have "p_revision p \<noteq> p_revision q" using n by (simp add: q_def)
  then have "restored (stored p) = q\<lparr>p_published := status_snapshot q\<rparr>"
    unfolding restored_stored using Some by (simp add: publish_if_changed_def flip: q_def)
  ultimately show ?thesis by simp
qed

section \<open>The state machine\<close>

inductive status_reach :: "program_status \<Rightarrow> bool" where
  start: "status_reach default_status"
| enabled: "status_reach p \<Longrightarrow> status_reach (set_enabled e p)"
| reserve: "status_reach p \<Longrightarrow> status_reach (fst (reserve_request pre p))"
| request: "status_reach p \<Longrightarrow> status_reach (fst (set_request r p))"
| unrequest: "status_reach p \<Longrightarrow> status_reach (remove_request i p)"
| unrequest_all: "status_reach p \<Longrightarrow> status_reach (clear_requests p)"
| sealed: "status_reach p \<Longrightarrow> status_reach (seal p)"
| restart: "status_reach p \<Longrightarrow> status_reach (restored (stored p))"
| fed: "status_reach p \<Longrightarrow> status_reach (fst (fst (feed_status b64 focused groups bs (p, calls))))"
| control: "status_reach p \<Longrightarrow> status_reach (fst (apply_control rep focused grp p))"
| attention: "status_reach p \<Longrightarrow> status_reach (mark_seen p)"
| finalized: "status_reach p \<Longrightarrow> status_reach (finalize p)"
| gone: "status_reach p \<Longrightarrow> status_reach (remove_gone_groups orders p)"

inductive_cases status_reachE: "status_reach p"

lemmas status_steps_ok = default_ok set_enabled_ok reserve_request_ok set_request_ok remove_request_ok clear_requests_ok restored_ok
  apply_control_ok mark_seen_ok finalize_ok remove_gone_groups_ok

lemma reach_ok: "status_reach p \<Longrightarrow> status_ok p"
proof (induction rule: status_reach.induct)
  case (fed p b64 focused groups bs calls)
  then show ?case using feed_status_ok [of "(p, calls)"] by simp
qed (simp_all add: status_steps_ok seal_def)

lemma reach_retained:
  assumes "status_reach p"
  shows "list_ok RECORD_CAP (p_next_order p) (record_keys p)" "list_ok REQUEST_CAP (p_next_order p) (request_keys p)"
    "s_order ` t_record ` set (p_records p) \<inter> s_order ` set (p_requests p) = {}" "in_sync p"
  using reach_ok [OF assms] unfolding status_ok_def retained_ok_def keyed_ok_def record_keys_def request_keys_def keys_of_def
  by (simp_all add: image_image)

lemma list_ok_orders: "list_ok cap n (keys_of rs) \<Longrightarrow> sorted_wrt (<) (map s_order rs)"
  by (simp add: list_ok_def keys_of_def sorted_wrt_map)

lemma distinct_sort_key_map: "distinct (map f xs) \<Longrightarrow> distinct (map f (sort_key f xs))"
  by (simp add: distinct_map)

lemma snapshot_ordered:
  assumes "status_reach p"
  shows "sorted_wrt (<) (map s_order (n_records (status_snapshot p)))"
proof -
  let ?rs = "map t_record (p_records p) @ p_requests p"
  have s: "sorted_wrt (<) (map s_order (map t_record (p_records p)))" "sorted_wrt (<) (map s_order (p_requests p))"
    using reach_retained [OF assms] unfolding record_keys_def request_keys_def by (blast intro: list_ok_orders)+
  have "distinct (map s_order ?rs)"
    using s [THEN strict_sorted_iff [THEN iffD1]] reach_retained(3) [OF assms] by (simp add: image_image)
  then have "distinct (map s_order (sort_key s_order ?rs))" by (rule distinct_sort_key_map)
  then show ?thesis unfolding status_snapshot_def snapshot.simps strict_sorted_iff by simp
qed

section \<open>A report in the output is the last record published\<close>

lemma last_of_ordered:
  assumes "sorted_wrt (<) (map f xs)" "x \<in> set xs" "\<forall>y\<in>set xs. f y \<le> (f x :: nat)"
  shows "last xs = x"
proof -
  obtain ys z where xs: "xs = ys @ [z]" using assms(2) by (cases xs rule: rev_cases) auto
  show ?thesis
  proof (rule ccontr)
    assume "last xs \<noteq> x"
    then have "x \<in> set ys" using assms(2) xs by auto
    then have "f x < f z" using assms(1) xs by (auto simp: sorted_wrt_append)
    then show False using assms(3) xs by auto
  qed
qed

lemma query_is_no_report: "parse_report b64 ''?'' \<noteq> Ok (Replace r)"
  by (auto simp: parse_report_def key_too_long_def take_pair_def no_fields_def Let_def res_simps)

definition marked_record :: "bool \<Rightarrow> nat \<Rightarrow> status_record \<Rightarrow> status_record" where
  "marked_record focused order r = r\<lparr>s_seen := focused \<and> is_completion (s_state r), s_order := order\<rparr>"

lemma report_fed:
  assumes "p_framing p = Ground" "\<forall>b\<in>set body. body_byte b" "parse_report b64 body = Ok (Replace r)"
  shows "\<exists>grp n. feed_bytes b64 focused groups (p, calls) (INTRO @ body @ [byte_of 0x07]) =
    ((apply_report (mark_report focused (Replace r)) grp p, n), [])"
proof -
  have l: "length body \<le> MAX_BODY_BYTES" using assms(3) by (auto simp: parse_report_def split: if_splits)
  let ?p1 = "p\<lparr>p_framing := OscBody ProgramStatus body\<rparr>"
  have "run_steps (feed_byte b64 focused groups) (p, calls) (INTRO @ body) = ((?p1, calls), [])"
    using silent_feed [of "(p, calls)" "INTRO @ body"] body_silent [OF assms(2) l] assms(1) by (simp add: silent_def)
  then have "feed_bytes b64 focused groups (p, calls) (INTRO @ body @ [byte_of 0x07]) =
      run_steps (feed_byte b64 focused groups) (?p1, calls) [byte_of 0x07]"
    using run_steps_append [of "feed_byte b64 focused groups" "(p, calls)" "INTRO @ body" "[byte_of 0x07]"]
    by (simp add: feed_bytes_steps del: run_steps.simps)
  moreover have "p\<lparr>p_framing := Ground\<rparr> = p" using assms(1) by simp
  moreover have "body \<noteq> ''?''" using assms(3) query_is_no_report by auto
  ultimately show ?thesis using assms(3) by (auto simp: feed_byte_def advance_def handle_def Let_def)
qed

lemma report_applied:
  assumes "p_revision p < u64_max" "p_next_order p < u64_max"
  shows "p_revision (apply_report (mark_report focused (Replace r)) grp p) = p_revision p + 1 \<and>
    p_framing (apply_report (mark_report focused (Replace r)) grp p) = p_framing p \<and>
    p_next_order (apply_report (mark_report focused (Replace r)) grp p) = p_next_order p + 1 \<and>
    marked_record focused (p_next_order p + 1) r \<in> t_record ` set (p_records (apply_report (mark_report focused (Replace r)) grp p))"
  using assms by (simp add: apply_report_def mark_report_def checked_add_def Let_def marked_record_def)

section \<open>Properties\<close>

text \<open>
  C9. Whatever a terminal prints and whatever is asked of it, in any order and across restarts, the
  retained status is bounded: at most 64 records and 16 requests, one for each id. The snapshot that is
  published is the retained state, its records in the order of their numbers, with no number twice.
\<close>

theorem reachable_status_bounded:
  assumes "status_reach p"
  shows "length (p_records p) \<le> 64 \<and> length (p_requests p) \<le> 16 \<and>
    distinct (map (\<lambda>t. s_id (t_record t)) (p_records p)) \<and> distinct (map s_id (p_requests p)) \<and>
    p_published p = status_snapshot p \<and> sorted_wrt (<) (map s_order (n_records (p_published p)))"
proof -
  note r = reach_retained [OF assms]
  have "length (p_records p) \<le> 64 \<and> distinct (map (\<lambda>t. s_id (t_record t)) (p_records p))"
    using r(1) by (simp add: list_ok_def record_keys_def keys_of_def RECORD_CAP_def comp_def)
  moreover have "length (p_requests p) \<le> 16 \<and> distinct (map s_id (p_requests p))"
    using r(2) by (simp add: list_ok_def request_keys_def keys_of_def REQUEST_CAP_def comp_def)
  moreover have "p_published p = status_snapshot p" using r(4) by (simp add: in_sync_def)
  ultimately show ?thesis using snapshot_ordered [OF assms] by simp
qed

theorem reachable_status_bounded_witness:
  "status_reach (fst (set_request demo_record default_status)) \<and>
   p_published (fst (set_request demo_record default_status)) = status_snapshot (fst (set_request demo_record default_status))"
proof -
  have r: "status_reach (fst (set_request demo_record default_status))" by (intro status_reach.request status_reach.start)
  then show ?thesis using reachable_status_bounded [OF r] by simp
qed

text \<open>
  C8. A report a program prints reaches the viewers: in every state the server can be in that still takes
  reports, with the framer at ground and the counters not exhausted, a well-formed report ended by BEL is
  published with the next revision as the newest record, marked seen exactly if it ends the work and the
  terminal has the focus. Nothing is answered and the framer is at ground again.
\<close>

theorem report_published:
  assumes "status_reach p" "\<not> closed_status p" "p_framing p = Ground" "p_revision p < u64_max" "p_next_order p < u64_max"
    "parse_report b64 body = Ok (Replace r)" "\<forall>b\<in>set body. body_byte b"
  shows "case feed_status b64 focused groups (INTRO @ body @ [byte_of 0x07]) (p, calls) of
    ((q, _), answers) \<Rightarrow> answers = [] \<and> p_framing q = Ground \<and> n_revision (p_published q) = p_revision p + 1 \<and>
      last (n_records (p_published q)) = r\<lparr>s_seen := focused \<and> is_completion (s_state r), s_order := p_next_order p + 1\<rparr>"
proof -
  obtain grp n where f: "feed_bytes b64 focused groups (p, calls) (INTRO @ body @ [byte_of 0x07]) =
      ((apply_report (mark_report focused (Replace r)) grp p, n), [])"
    using report_fed [OF assms(3,7,6)] by blast
  let ?x = "marked_record focused (p_next_order p + 1) r"
  define q where "q = apply_report (mark_report focused (Replace r)) grp p"
  define q' where "q' = q\<lparr>p_published := status_snapshot q\<rparr>"
  have q: "p_revision q = p_revision p + 1" "p_framing q = Ground" "p_next_order q = p_next_order p + 1"
    "?x \<in> t_record ` set (p_records q)"
    using report_applied [OF assms(4,5), of focused r grp] assms(3) unfolding q_def by simp_all
  have fed: "feed_status b64 focused groups (INTRO @ body @ [byte_of 0x07]) (p, calls) = ((q', n), [])"
    using assms(2) f q(1) by (simp add: feed_status_def publish_if_changed_def q'_def flip: q_def)
  then have reach: "status_reach q'" using status_reach.fed [OF assms(1)] by (metis fst_conv)
  have "last (n_records (status_snapshot q')) = ?x"
  proof (rule last_of_ordered [OF snapshot_ordered [OF reach]])
    show "?x \<in> set (n_records (status_snapshot q'))" using q(4) by (simp add: status_snapshot_def q'_def)
    show "\<forall>y\<in>set (n_records (status_snapshot q')). s_order y \<le> s_order ?x"
      using reach_retained(1,2) [OF reach] q(3)
      by (auto simp: status_snapshot_def q'_def list_ok_def record_keys_def request_keys_def keys_of_def marked_record_def)
  qed
  then show ?thesis using fed q(1,2) by (simp add: q'_def status_snapshot_def marked_record_def)
qed

theorem report_published_witness:
  "case feed_status (\<lambda>_ _. None) True (\<lambda>_. None) (INTRO @ ''state=done'' @ [byte_of 0x07]) (default_status, 0) of
    ((q, _), answers) \<Rightarrow> answers = [] \<and> p_framing q = Ground \<and> n_revision (p_published q) = 1 \<and>
      last (n_records (p_published q)) = make_record no_fields Done None None\<lparr>s_seen := True, s_order := 1\<rparr>"
proof -
  have p: "parse_report (\<lambda>_ _. None) ''state=done'' = Ok (Replace (make_record no_fields Done None None))" by code_simp
  have b: "\<forall>b\<in>set ''state=done''. body_byte b" by (simp add: body_byte_def)
  have d: "\<not> closed_status default_status" "p_framing default_status = Ground" "p_revision default_status = 0" "p_next_order default_status = 0"
    by (simp_all add: default_status_def closed_status_def)
  have s: "s_state (make_record no_fields Done None None) = Done" by (simp add: make_record_def)
  show ?thesis
    using report_published [OF status_reach.start d(1,2) _ _ p b, of True "\<lambda>_. None" 0] d s by (simp add: is_completion_def)
qed

text \<open>
  C34. What a restart keeps: the records programs reported, in their order and unchanged, the place in the
  output the framer had reached and the order numbers. The requests of the old server are gone, and the
  status is published under a new revision, so no viewer takes it for the old one.
\<close>

theorem restart_keeps_status:
  assumes "status_reach p" "p_revision p < u64_max"
  shows "let q = restored (stored p); kept = filter (\<lambda>r. s_source r = Program) (map t_record (p_records p)) in
    map t_record (p_records q) = kept \<and> n_records (p_published q) = kept \<and> p_requests q = [] \<and>
    p_framing q = p_framing p \<and> p_next_order q = p_next_order p \<and> n_revision (p_published q) = p_revision p + 1"
proof -
  let ?kept = "filter (\<lambda>r. s_source r = Program) (map t_record (p_records p))"
  have same: "map (\<lambda>r. r\<lparr>s_source := Program\<rparr>) ?kept = ?kept" by (intro map_idI) auto
  have "sorted_wrt (<) (map s_order (map t_record (p_records p)))"
    using reach_retained(1) [OF assms(1)] unfolding record_keys_def by (rule list_ok_orders)
  then have "sorted (map s_order (map t_record (p_records p)))" unfolding strict_sorted_iff by simp
  then have "sorted (map s_order ?kept)" by (rule sorted_filter)
  then have "sort_key s_order ?kept = ?kept" by (rule sort_key_id_if_sorted)
  then show ?thesis using assms(2) same
    by (simp add: restored_stored checked_add_def publish_if_changed_def status_snapshot_def default_status_def Let_def comp_def)
qed

definition demo_status :: program_status where
  "demo_status = fst (set_request (demo_record\<lparr>s_id := Some ''chan/1''\<rparr>) (fst (apply_control (Replace demo_record) False None default_status)))"

lemma demo_status_eq:
  "p_revision demo_status = 2" "map t_record (p_records demo_status) = [demo_record\<lparr>s_order := 1\<rparr>]"
  "p_requests demo_status = [demo_record\<lparr>s_id := Some ''chan/1'', s_order := 2\<rparr>]"
  by (simp_all add: demo_status_def default_status_def demo_record_def apply_control_def mark_report_def apply_report_def
      checked_add_def publish_if_changed_def set_request_def closed_status_def replaced_request_def RECORD_CAP_def REQUEST_CAP_def
      is_completion_def Let_def)

theorem restart_keeps_status_witness:
  "let q = restored (stored demo_status) in status_reach demo_status \<and> length (p_requests demo_status) = 1 \<and>
    n_records (p_published q) = [demo_record\<lparr>s_order := 1\<rparr>] \<and> p_requests q = [] \<and> n_revision (p_published q) = 3"
proof -
  have r: "status_reach demo_status" unfolding demo_status_def by (intro status_reach.request status_reach.control status_reach.start)
  have v: "p_revision demo_status < u64_max" by (simp add: demo_status_eq)
  have "s_source (demo_record\<lparr>s_order := 1\<rparr>) = Program" by (simp add: demo_record_def)
  then show ?thesis using restart_keeps_status [OF r v] r by (simp add: Let_def demo_status_eq)
qed

end
