(* ===== verification/Request_Status.thy ===== *)
theory Request_Status
  imports Status_Safety
begin

text \<open>
  The marks of chan's own requests, \<^verbatim>\<open>crates/chan-library/src/terminal_sessions/request_status.rs\<close>: a lease on a
  session puts a record into its status and removes it when it is dropped. A session is an allocation: the
  registry maps names to addresses, a lease holds an address that may be dead, and another session under
  the same name has another address.
\<close>

section \<open>Sessions and leases\<close>

datatype chan_request = Survey bytes | Export | Tunnel

record session =
  x_status :: program_status
  x_closed :: bool
  x_focus_epoch :: nat

record registry =
  g_sessions :: "bytes \<rightharpoonup> nat"
  g_heap :: "nat \<rightharpoonup> session"

record status_lease =
  l_session :: nat
  l_id :: bytes
  l_enabled :: bool

definition put_status :: "nat \<Rightarrow> session \<Rightarrow> program_status \<Rightarrow> registry \<Rightarrow> registry" where
  "put_status a s p g = g\<lparr>g_heap := (g_heap g)(a \<mapsto> s\<lparr>x_status := p\<rparr>)\<rparr>"

section \<open>The records\<close>

text \<open>Whether the first character is a control.\<close>

definition control_head :: "bytes \<Rightarrow> bool" where
  "control_head s \<longleftrightarrow>
     (fst (utf8_head s) = 1 \<and> (byte_at s 0 < 32 \<or> byte_at s 0 = 127)) \<or>
     (fst (utf8_head s) = 2 \<and> byte_at s 0 = 194 \<and> byte_at s 1 < 160)"

function clip_from :: "nat \<Rightarrow> bytes \<Rightarrow> bytes \<Rightarrow> bytes" where
  "clip_from limit acc s =
     (if s = [] then acc
      else
        let ch = (if control_head s then replacement else take (fst (utf8_head s)) s) in
        if limit < length acc + length ch then acc
        else clip_from limit (acc @ ch) (drop (fst (utf8_head s)) s))"
  by pat_completeness auto
termination
  by (relation "measure (\<lambda>(_, _, s). length s)") (auto simp: utf8_head_pos)

declare clip_from.simps [simp del]

definition clip_text :: "bytes \<Rightarrow> nat \<Rightarrow> bytes" where
  "clip_text s limit = clip_from limit [] s"

definition clipped :: "bytes option \<Rightarrow> nat \<Rightarrow> bytes option" where
  "clipped v limit =
     (case v of None \<Rightarrow> None | Some s \<Rightarrow> if clip_text s limit = [] then None else Some (clip_text s limit))"

definition request_record ::
    "bytes \<Rightarrow> program_state \<Rightarrow> status_kind option \<Rightarrow> bytes option \<Rightarrow> bytes option \<Rightarrow> status_record" where
  "request_record i state k title msg =
     \<lparr>s_source = Chan, s_id = Some i, s_state = state, s_kind = k, s_progress = None, s_app = Some ''cs'',
      s_title = clipped title MAX_TITLE_BYTES, s_msg = clipped msg MAX_MSG_BYTES, s_seen = False, s_order = 0\<rparr>"

section \<open>The lease\<close>

definition request_prefix :: "chan_request \<Rightarrow> bytes" where
  "request_prefix r = (case r of Survey _ \<Rightarrow> ''survey'' | Export \<Rightarrow> ''export'' | Tunnel \<Rightarrow> ''tunnel'')"

definition request_mark :: "bytes \<Rightarrow> chan_request \<Rightarrow> status_record option" where
  "request_mark i r =
     (case r of
        Survey title \<Rightarrow> Some (request_record i Blocked (Some Question) (Some title) None)
      | Export \<Rightarrow> Some (request_record i Working None (Some ''Export'') None)
      | Tunnel \<Rightarrow> None)"

definition lease_request_status :: "bytes option \<Rightarrow> chan_request \<Rightarrow> registry \<Rightarrow> registry \<times> status_lease option" where
  "lease_request_status sid request g =
     (case Option.bind (Option.bind sid (g_sessions g)) (\<lambda>a. map_option (Pair a) (g_heap g a)) of
        None \<Rightarrow> (g, None)
      | Some (a, s) \<Rightarrow>
          if x_closed s then (g, None)
          else case reserve_request (request_prefix request) (x_status s) of
            (p1, None) \<Rightarrow> (put_status a s p1 g, None)
          | (p1, Some i) \<Rightarrow>
              (case request_mark i request of
                 None \<Rightarrow> (put_status a s p1 g, Some \<lparr>l_session = a, l_id = i, l_enabled = True\<rparr>)
               | Some r \<Rightarrow>
                   (case set_request r p1 of
                      (p2, False) \<Rightarrow> (put_status a s p2 g, None)
                    | (p2, True) \<Rightarrow> (put_status a s p2 g, Some \<lparr>l_session = a, l_id = i, l_enabled = True\<rparr>))))"

definition lease_set :: "program_state \<Rightarrow> bytes \<Rightarrow> status_lease \<Rightarrow> registry \<Rightarrow> status_lease \<times> registry" where
  "lease_set state msg l g =
     (if \<not> l_enabled l then (l, g)
      else case g_heap g (l_session l) of
        None \<Rightarrow> (l, g)
      | Some s \<Rightarrow>
          if x_closed s then (l, g)
          else if state = Error \<and> x_focus_epoch s \<noteq> 0 then
            (l, put_status (l_session l) s (remove_request (l_id l) (x_status s)) g)
          else case set_request (request_record (l_id l) state None (Some ''Tunnel'') (Some msg)) (x_status s) of
            (p, held) \<Rightarrow> (l\<lparr>l_enabled := held\<rparr>, put_status (l_session l) s p g))"

definition drop_lease :: "status_lease \<Rightarrow> registry \<Rightarrow> registry" where
  "drop_lease l g =
     (if \<not> l_enabled l then g
      else case g_heap g (l_session l) of
        None \<Rightarrow> g
      | Some s \<Rightarrow> if x_closed s then g else put_status (l_session l) s (remove_request (l_id l) (x_status s)) g)"

fun join_with :: "bytes \<Rightarrow> bytes list \<Rightarrow> bytes" where
  "join_with sep [] = []"
| "join_with sep [x] = x"
| "join_with sep (x # y # xs) = x @ sep @ join_with sep (y # xs)"

definition tunnel_pair :: "bytes \<times> nat \<Rightarrow> bytes" where
  "tunnel_pair t = (case t of (bound, port) \<Rightarrow> ''desktop '' @ bound @ '' -> devserver 127.0.0.1:'' @ show_nat port)"

definition tunnel_ready :: "(bytes \<times> nat) list \<Rightarrow> status_lease \<Rightarrow> registry \<Rightarrow> status_lease \<times> registry" where
  "tunnel_ready tunnels = lease_set Working (clip_text (join_with ''; '' (map tunnel_pair tunnels)) MAX_MSG_BYTES)"

definition failure_text :: "bool \<Rightarrow> bytes" where
  "failure_text was_ready = (if was_ready then ''Tunnel closed by the desktop'' else ''Tunnel could not be opened'')"

text \<open>The lease is consumed: it is dropped, disabled, at the end of the call.\<close>

definition tunnel_failed :: "bool \<Rightarrow> status_lease \<Rightarrow> registry \<Rightarrow> registry" where
  "tunnel_failed was_ready l g =
     (case lease_set Error (failure_text was_ready) l g of (l1, g1) \<Rightarrow> drop_lease (l1\<lparr>l_enabled := False\<rparr>) g1)"

section \<open>Clipped text\<close>

definition clean :: "bytes \<Rightarrow> bool" where
  "clean s \<longleftrightarrow> utf8_valid s \<and> \<not> has_control s"

lemma clean_Nil [simp]: "clean []"
  by (simp add: clean_def)

lemma clean_step: "s \<noteq> [] \<Longrightarrow> clean s \<longleftrightarrow> snd (utf8_head s) \<and> \<not> control_head s \<and> clean (drop (fst (utf8_head s)) s)"
  unfolding clean_def control_head_def by (subst utf8_valid.simps, subst has_control.simps) auto

text \<open>A character is decided by its own bytes.\<close>

lemma control_head_local:
  assumes "s \<noteq> []" "snd (utf8_head s)"
  shows "control_head (take (fst (utf8_head s)) s @ t) = control_head s"
proof -
  define n where "n = fst (utf8_head s)"
  have n: "n \<le> length s" using utf8_head_length [OF assms] by (simp add: n_def)
  have h: "utf8_head (take n s @ t) = utf8_head s" unfolding n_def by (rule utf8_head_local [OF assms])
  have b: "byte_at (take n s @ t) i = byte_at s i" if "i < n" for i by (rule byte_at_prefix [OF that n])
  have "0 < n" by (simp add: n_def utf8_head_pos)
  then have "control_head (take n s @ t) = control_head s"
    unfolding control_head_def h using b [of 0] b [of 1] by (auto simp: n_def)
  then show ?thesis by (simp add: n_def)
qed

lemma clean_char:
  assumes "s \<noteq> []" "snd (utf8_head s)" "\<not> control_head s" "clean t"
  shows "clean (take (fst (utf8_head s)) s @ t)"
proof -
  let ?n = "fst (utf8_head s)"
  have n: "?n \<le> length s" "0 < ?n" using utf8_head_length [OF assms(1,2)] utf8_head_pos by auto
  then have "take ?n s @ t \<noteq> []" using assms(1) by auto
  then show ?thesis
    using clean_step utf8_head_local [OF assms(1,2), of t] control_head_local [OF assms(1,2), of t] assms n by simp
qed

lemma clean_append: "clean s \<Longrightarrow> clean t \<Longrightarrow> clean (s @ t)"
proof (induction s rule: utf8_valid.induct)
  case (1 s)
  show ?case
  proof (cases "s = []")
    case False
    then have h: "snd (utf8_head s)" "\<not> control_head s" "clean (drop (fst (utf8_head s)) s)" using "1.prems"(1) clean_step by auto
    then have "clean (drop (fst (utf8_head s)) s @ t)" using "1.IH" [OF False] "1.prems"(2) by simp
    from clean_char [OF False h(1,2) this] show ?thesis by (metis append.assoc append_take_drop_id)
  qed (use 1 in simp)
qed

lemma clean_replacement: "clean replacement"
  unfolding clean_def replacement_def by code_simp

lemma clip_from_ok:
  "utf8_valid s \<Longrightarrow> clean acc \<Longrightarrow> length acc \<le> limit \<Longrightarrow>
    clean (clip_from limit acc s) \<and> length (clip_from limit acc s) \<le> limit"
proof (induction limit acc s rule: clip_from.induct)
  case (1 limit acc s)
  let ?n = "fst (utf8_head s)"
  let ?ch = "if control_head s then replacement else take ?n s"
  show ?case
  proof (cases "s = [] \<or> limit < length acc + length ?ch")
    case True
    then have "clip_from limit acc s = acc" by (auto simp: clip_from.simps [of limit acc s] Let_def)
    then show ?thesis using "1.prems" by simp
  next
    case False
    then have s: "s \<noteq> []" "\<not> limit < length acc + length ?ch" by auto
    have v: "snd (utf8_head s)" "utf8_valid (drop ?n s)" using "1.prems"(1) s(1) by (simp_all add: utf8_valid.simps [of s] split: if_splits)
    have "clean ?ch" using clean_replacement clean_char [OF s(1) v(1), of "[]"] by simp
    then have "clean (acc @ ?ch)" using "1.prems"(2) clean_append by blast
    moreover have "length (acc @ ?ch) \<le> limit" using s(2) by simp
    ultimately have "clean (clip_from limit (acc @ ?ch) (drop ?n s)) \<and> length (clip_from limit (acc @ ?ch) (drop ?n s)) \<le> limit"
      using "1.IH" [OF s(1) refl s(2) v(2)] by blast
    moreover have "clip_from limit acc s = clip_from limit (acc @ ?ch) (drop ?n s)"
      using s by (subst clip_from.simps) (simp only: Let_def if_False)
    ultimately show ?thesis by (simp only:)
  qed
qed

lemma clip_text_ok: "utf8_valid s \<Longrightarrow> text_ok limit (clip_text s limit)"
  using clip_from_ok [of s "[]" limit] by (simp add: clip_text_def text_ok_def clean_def)

lemma clip_from_exact:
  "clean s \<Longrightarrow> length acc + length s \<le> limit \<Longrightarrow> clip_from limit acc s = acc @ s"
proof (induction limit acc s rule: clip_from.induct)
  case (1 limit acc s)
  let ?n = "fst (utf8_head s)"
  show ?case
  proof (cases "s = []")
    case False
    then have h: "\<not> control_head s" "clean (drop ?n s)" "snd (utf8_head s)" using "1.prems"(1) clean_step by auto
    then have n: "?n \<le> length s" using utf8_head_length [OF False] by simp
    have room: "\<not> limit < length acc + length (if control_head s then replacement else take ?n s)"
      using "1.prems"(2) n h(1) by simp
    have "clip_from limit (acc @ take ?n s) (drop ?n s) = (acc @ take ?n s) @ drop ?n s"
      using "1.IH" [OF False refl room h(2)] h(1) "1.prems"(2) n by simp
    then show ?thesis using False h(1) room by (subst clip_from.simps) (simp add: Let_def)
  qed (simp add: clip_from.simps)
qed

lemma clip_text_exact: "text_ok limit s \<Longrightarrow> clip_text s limit = s"
  by (simp add: clip_text_def text_ok_def clean_def clip_from_exact)

section \<open>A lease and its session\<close>

text \<open>No operation of a lease touches another session or the names of sessions.\<close>

lemma lease_set_local:
  "g_sessions (snd (lease_set st msg l g)) = g_sessions g" "a \<noteq> l_session l \<Longrightarrow> g_heap (snd (lease_set st msg l g)) a = g_heap g a"
  by (simp_all add: lease_set_def put_status_def case_prod_unfold split: option.split)

lemma drop_lease_local:
  "g_sessions (drop_lease l g) = g_sessions g" "a \<noteq> l_session l \<Longrightarrow> g_heap (drop_lease l g) a = g_heap g a"
  by (simp_all add: drop_lease_def put_status_def split: option.split)

lemma drop_lease_disabled [simp]: "\<not> l_enabled l \<Longrightarrow> drop_lease l g = g"
  by (simp add: drop_lease_def)

lemma position_ex: "\<exists>x\<in>set xs. P x \<Longrightarrow> \<exists>i. position P xs = Some i"
  using position_None_iff [of P xs] by (cases "position P xs") auto

lemma set_remove_at: "set (remove_at i xs) \<subseteq> set xs"
  using set_take_subset [of i xs] set_drop_subset [of "i + 1" xs] by (auto simp: remove_at_def)

lemma set_request_replaces:
  assumes "\<not> closed_status p" "p_revision p < u64_max" "p_next_order p < u64_max" "\<exists>old\<in>set (p_requests p). s_id old = s_id r"
  shows "\<exists>rest q. set_request r p = (q, True) \<and> p_requests q = rest @ [r\<lparr>s_order := p_next_order p + 1\<rparr>] \<and>
    p_revision q = p_revision p + 1 \<and> \<not> closed_status q"
proof -
  obtain i where "position (\<lambda>old. s_id old = s_id r) (p_requests p) = Some i" using position_ex [OF assms(4)] by blast
  then have "replaced_request (s_id r) (p_requests p) = Some i" by (simp add: replaced_request_def)
  then show ?thesis using assms(1-3)
    by (simp add: set_request_def checked_add_def publish_if_changed_def closed_status_def Let_def)
qed

lemma remove_request_gone:
  assumes "\<not> closed_status p" "p_revision p < u64_max"
  shows "p_requests (remove_request i p) = filter (\<lambda>r. s_id r \<noteq> Some i) (p_requests p)"
  using assms by (simp add: remove_request_def closed_status_def checked_add_def publish_if_changed_def Let_def)

lemma mark_seen_requests:
  assumes "\<not> closed_status p" "p_revision p < u64_max"
  shows "p_requests (mark_seen p) = filter (\<lambda>r. s_state r \<noteq> Error) (p_requests p)"
  using assms by (simp add: mark_seen_def closed_status_def checked_add_def publish_if_changed_def Let_def)

lemma failure_text_ok: "clipped (Some (failure_text b)) MAX_MSG_BYTES = Some (failure_text b)"
proof -
  have "utf8_valid (failure_text b)" by (rule utf8_valid_ascii) (simp add: failure_text_def)
  moreover have "\<not> has_control (failure_text True)" "\<not> has_control (failure_text False)" by code_simp+
  then have "\<not> has_control (failure_text b)" by (cases b) simp_all
  ultimately have "text_ok MAX_MSG_BYTES (failure_text b)" by (simp add: text_ok_def failure_text_def MAX_MSG_BYTES_def)
  then show ?thesis by (simp add: clipped_def clip_text_exact) (simp add: failure_text_def)
qed

section \<open>Properties\<close>

text \<open>
  C39. The mark of a request of chan itself obeys the limits of a report: whatever title and message it is
  made from, what is stored is UTF-8 without controls within the limits, and a text that already is that
  is stored as it is.
\<close>

theorem request_texts_bounded:
  assumes "utf8_valid title" "utf8_valid msg"
  shows "pred_option (text_ok MAX_TITLE_BYTES) (s_title (request_record i state k (Some title) (Some msg))) \<and>
    pred_option (text_ok MAX_MSG_BYTES) (s_msg (request_record i state k (Some title) (Some msg))) \<and>
    (title \<noteq> [] \<and> text_ok MAX_TITLE_BYTES title \<longrightarrow> s_title (request_record i state k (Some title) (Some msg)) = Some title) \<and>
    (msg \<noteq> [] \<and> text_ok MAX_MSG_BYTES msg \<longrightarrow> s_msg (request_record i state k (Some title) (Some msg)) = Some msg)"
  using clip_text_ok [OF assms(1), of MAX_TITLE_BYTES] clip_text_ok [OF assms(2), of MAX_MSG_BYTES]
  by (simp add: request_record_def clipped_def clip_text_exact)

theorem request_texts_bounded_witness:
  "s_title (request_record ''survey/1'' Blocked (Some Question) (Some ''Deploy'') (Some [])) = Some ''Deploy''"
proof -
  have u: "utf8_valid ''Deploy''" by (rule utf8_valid_ascii) simp
  have c: "\<not> has_control ''Deploy''" by code_simp
  have "text_ok MAX_TITLE_BYTES ''Deploy''" by (simp add: text_ok_def u c MAX_TITLE_BYTES_def)
  then show ?thesis using request_texts_bounded [OF u utf8_valid_Nil] by simp
qed

text \<open>
  C38. A tunnel that fails while nobody looks leaves its error until somebody does. In a live session with
  the mark of the tunnel in its status, a failure changes that session alone: with the focus on the
  terminal the mark goes, otherwise it becomes the error with its fixed message and stays when the lease is
  gone, and the next look removes it.
\<close>

theorem tunnel_error_until_seen:
  assumes "l_enabled l" "g_heap g (l_session l) = Some s" "\<not> x_closed s" "status_reach (x_status s)" "\<not> closed_status (x_status s)"
    "p_revision (x_status s) + 1 < u64_max" "p_next_order (x_status s) < u64_max"
    "\<exists>r\<in>set (p_requests (x_status s)). s_id r = Some (l_id l)"
  shows "\<exists>q. tunnel_failed was_ready l g = g\<lparr>g_heap := (g_heap g)(l_session l \<mapsto> s\<lparr>x_status := q\<rparr>)\<rparr> \<and>
    (if x_focus_epoch s \<noteq> 0 then Some (l_id l) \<notin> s_id ` set (p_requests q)
     else \<exists>r\<in>set (p_requests q). s_id r = Some (l_id l) \<and> s_state r = Error \<and> s_msg r = Some (failure_text was_ready)) \<and>
    Some (l_id l) \<notin> s_id ` set (p_requests (mark_seen q))"
proof -
  let ?p = "x_status s"
  let ?r = "request_record (l_id l) Error None (Some ''Tunnel'') (Some (failure_text was_ready))"
  show ?thesis
  proof (cases "x_focus_epoch s = 0")
    case False
    define q where "q = remove_request (l_id l) ?p"
    have t: "tunnel_failed was_ready l g = g\<lparr>g_heap := (g_heap g)(l_session l \<mapsto> s\<lparr>x_status := q\<rparr>)\<rparr>"
      using assms(1-3) False by (simp add: tunnel_failed_def lease_set_def put_status_def q_def)
    have n: "Some (l_id l) \<notin> s_id ` set (p_requests q)" using remove_request_gone [OF assms(5)] assms(6) by (auto simp: q_def)
    moreover have "set (p_requests (mark_seen q)) \<subseteq> set (p_requests q)"
      by (auto simp: mark_seen_def publish_if_changed_def Let_def split: option.splits if_splits)
    ultimately show ?thesis using t False by (intro exI [of _ q]) auto
  next
    case True
    have i: "s_id ?r = Some (l_id l)" "s_state ?r = Error" "s_msg ?r = Some (failure_text was_ready)"
      by (simp_all add: request_record_def failure_text_ok)
    obtain rest q where q: "set_request ?r ?p = (q, True)" "p_requests q = rest @ [?r\<lparr>s_order := p_next_order ?p + 1\<rparr>]"
      "p_revision q = p_revision ?p + 1" "\<not> closed_status q"
      using set_request_replaces [of ?p ?r] assms(5-8) i(1) by auto
    have t: "tunnel_failed was_ready l g = g\<lparr>g_heap := (g_heap g)(l_session l \<mapsto> s\<lparr>x_status := q\<rparr>)\<rparr>"
      using assms(1-3) True q(1) by (simp add: tunnel_failed_def lease_set_def put_status_def)
    have "status_reach q" using status_reach.request [OF assms(4), of ?r] q(1) by simp
    then have "distinct (map s_id (p_requests q))"
      using reach_retained(2) by (simp add: list_ok_def request_keys_def keys_of_def comp_def)
    then have "Some (l_id l) \<notin> s_id ` set rest" using q(2) i(1) by simp
    then have "Some (l_id l) \<notin> s_id ` set (p_requests (mark_seen q))"
      using mark_seen_requests [OF q(4)] assms(6) q(2,3) i(2) by auto
    then show ?thesis using t True q(2) i by (intro exI [of _ q]) auto
  qed
qed

definition demo_session :: session where
  "demo_session = \<lparr>x_status = fst (set_request (request_record ''tunnel/1'' Working None None None) default_status),
     x_closed = False, x_focus_epoch = 0\<rparr>"

definition demo_registry :: registry where
  "demo_registry = \<lparr>g_sessions = [''a'' \<mapsto> 7], g_heap = [7 \<mapsto> demo_session]\<rparr>"

definition demo_lease :: status_lease where
  "demo_lease = \<lparr>l_session = 7, l_id = ''tunnel/1'', l_enabled = True\<rparr>"

theorem tunnel_error_until_seen_witness:
  "\<exists>q. tunnel_failed True demo_lease demo_registry = demo_registry\<lparr>g_heap := [7 \<mapsto> demo_session\<lparr>x_status := q\<rparr>]\<rparr> \<and>
    (\<exists>r\<in>set (p_requests q). s_id r = Some ''tunnel/1'' \<and> s_state r = Error \<and> s_msg r = Some ''Tunnel closed by the desktop'') \<and>
    Some ''tunnel/1'' \<notin> s_id ` set (p_requests (mark_seen q))"
proof -
  let ?r = "request_record ''tunnel/1'' Working None None None"
  have r: "s_id ?r = Some ''tunnel/1''" by (simp add: request_record_def)
  have p: "p_requests (x_status demo_session) = [?r\<lparr>s_order := 1\<rparr>]" "p_revision (x_status demo_session) = 1"
    "p_next_order (x_status demo_session) = 1" "\<not> closed_status (x_status demo_session)" "x_focus_epoch demo_session = 0"
    by (simp_all add: demo_session_def set_request_def default_status_def checked_add_def publish_if_changed_def replaced_request_def
        closed_status_def Let_def REQUEST_CAP_def)
  have reach: "status_reach (x_status demo_session)"
    unfolding demo_session_def session.simps by (intro status_reach.request status_reach.start)
  show ?thesis
    using tunnel_error_until_seen [of demo_lease demo_registry demo_session True] p r reach
    by (simp add: demo_lease_def demo_registry_def failure_text_def) (simp add: demo_session_def)
qed

end
