(* ===== verification/Acts.thy ===== *)
theory Acts
  imports Prelude
begin

text \<open>
  Code that changes a state while it pushes onto two lists the caller passes: an act takes the state to the
  new state with what was pushed onto each list. Acts compose in the order of the statements.
\<close>

type_synonym ('s, 'o, 'e) act = "'s \<Rightarrow> 's \<times> 'o list \<times> 'e list"

definition nothing :: "('s, 'o, 'e) act" where
  "nothing s = (s, [], [])"

definition issue :: "'o \<Rightarrow> ('s, 'o, 'e) act" where
  "issue x s = (s, [x], [])"

definition effect :: "'e \<Rightarrow> ('s, 'o, 'e) act" where
  "effect e s = (s, [], [e])"

definition modify :: "('s \<Rightarrow> 's) \<Rightarrow> ('s, 'o, 'e) act" where
  "modify f s = (f s, [], [])"

definition andthen :: "('s, 'o, 'e) act \<Rightarrow> ('s, 'o, 'e) act \<Rightarrow> ('s, 'o, 'e) act" where
  "andthen f g s = (case f s of (s1, o1, e1) \<Rightarrow> case g s1 of (s2, o2, e2) \<Rightarrow> (s2, o1 @ o2, e1 @ e2))"

definition reading :: "('s \<Rightarrow> ('s, 'o, 'e) act) \<Rightarrow> ('s, 'o, 'e) act" where
  "reading f s = f s s"

fun acts :: "('s, 'o, 'e) act list \<Rightarrow> ('s, 'o, 'e) act" where
  "acts [] = nothing"
| "acts (f # fs) = andthen f (acts fs)"

definition each :: "'a list \<Rightarrow> ('a \<Rightarrow> ('s, 'o, 'e) act) \<Rightarrow> ('s, 'o, 'e) act" where
  "each xs f = acts (map f xs)"

lemmas act_defs = nothing_def issue_def effect_def modify_def reading_def

lemma each_simps [simp]: "each [] f = nothing" "each (x # xs) f = andthen (f x) (each xs f)"
  by (simp_all add: each_def)

text \<open>A property of the state that an act keeps.\<close>

definition keeps :: "('s \<Rightarrow> bool) \<Rightarrow> ('s, 'o, 'e) act \<Rightarrow> bool" where
  "keeps I f \<longleftrightarrow> (\<forall>s. I s \<longrightarrow> I (fst (f s)))"

named_theorems keeps_rules

lemma keeps_nothing [keeps_rules]: "keeps I nothing"
  by (simp add: keeps_def nothing_def)

lemma keeps_issue [keeps_rules]: "keeps I (issue x)"
  by (simp add: keeps_def issue_def)

lemma keeps_effect [keeps_rules]: "keeps I (effect e)"
  by (simp add: keeps_def effect_def)

lemma keeps_modify: "(\<And>s. I s \<Longrightarrow> I (f s)) \<Longrightarrow> keeps I (modify f)"
  by (simp add: keeps_def modify_def)

lemma keeps_andthen [keeps_rules]: "keeps I f \<Longrightarrow> keeps I g \<Longrightarrow> keeps I (andthen f g)"
  by (simp add: keeps_def andthen_def split: prod.split) (metis fst_conv)

lemma keeps_acts [keeps_rules]: "(\<And>f. f \<in> set fs \<Longrightarrow> keeps I f) \<Longrightarrow> keeps I (acts fs)"
  by (induction fs) (simp_all add: keeps_nothing keeps_andthen)

lemma keeps_each [keeps_rules]: "(\<And>x. x \<in> set xs \<Longrightarrow> keeps I (f x)) \<Longrightarrow> keeps I (each xs f)"
  unfolding each_def by (rule keeps_acts) auto

lemma keeps_reading: "(\<And>s. I s \<Longrightarrow> I (fst (f s s))) \<Longrightarrow> keeps I (reading f)"
  by (simp add: keeps_def reading_def)

lemma keeps_readingI [keeps_rules]: "(\<And>s. keeps I (f s)) \<Longrightarrow> keeps I (reading f)"
  by (simp add: keeps_def reading_def)

lemma keeps_if [keeps_rules]: "(b \<Longrightarrow> keeps I f) \<Longrightarrow> (\<not> b \<Longrightarrow> keeps I g) \<Longrightarrow> keeps I (if b then f else g)"
  by simp

lemma keeps_option [keeps_rules]:
  "(x = None \<Longrightarrow> keeps I f) \<Longrightarrow> (\<And>y. x = Some y \<Longrightarrow> keeps I (g y)) \<Longrightarrow> keeps I (case x of None \<Rightarrow> f | Some y \<Rightarrow> g y)"
  by (cases x) simp_all

lemma keepsD: "keeps I f \<Longrightarrow> I s \<Longrightarrow> I (fst (f s))"
  by (simp add: keeps_def)

lemma fst_andthen: "fst (andthen f g s) = fst (g (fst (f s)))"
  by (simp add: andthen_def split: prod.split)

lemma out_andthen: "fst (snd (andthen f g s)) = fst (snd (f s)) @ fst (snd (g (fst (f s))))"
  by (simp add: andthen_def split: prod.split)

lemma acts_append: "acts (fs @ gs) s = andthen (acts fs) (acts gs) s"
  by (induction fs arbitrary: s) (simp_all add: nothing_def andthen_def split: prod.split)

end
