(* ===== verification/Tmux_Connection.thy ===== *)
theory Tmux_Connection
  imports Acts Tmux_Client Tmux_Layout Status_Query "HOL-Library.AList"
begin

text \<open>
  A control-mode connection, \<^verbatim>\<open>crates/chan-library/src/terminal_sessions/tmux_connection.rs\<close>: the windows and
  panes tmux reports, the sessions that show them and the commands that keep the two in step. An operation
  is an act: it changes the connection and pushes the steps the gate performs, and what it does to a pane
  session at once is an effect. Sessions are their ids. A \<open>BTreeMap\<close> is a list in the order of its keys, a
  \<open>HashMap\<close> that is iterated a list in any order, one that is only looked up a map. The channel to the
  gateway thread is not modelled.
\<close>

section \<open>Constants\<close>

definition WINDOW_CAP :: nat where "WINDOW_CAP = 8"
definition PANE_CAP :: nat where "PANE_CAP = 96"
definition INPUT_BACKLOG_MAX :: nat where "INPUT_BACKLOG_MAX = 64 * 1024"
definition PAUSE_AFTER_SECS :: nat where "PAUSE_AFTER_SECS = 5"
definition CAPTURE_BYTES_PER_CELL :: nat where "CAPTURE_BYTES_PER_CELL = 24"
definition CAPTURE_ROWS_MAX :: nat where "CAPTURE_ROWS_MAX = 150000"
definition REPLY_BYTES_MAX :: nat where "REPLY_BYTES_MAX = 64 * 1024 * 1024"
definition ERRORS_MAX :: nat where "ERRORS_MAX = 8"

section \<open>Data\<close>

record tmux_origin =
  or_program :: bytes
  or_command :: "bytes option"
  or_local :: bool

definition control_title :: "tmux_origin \<Rightarrow> bytes" where
  "control_title o' =
     (if or_local o' then ''tmux -CC on this machine''
      else ''tmux -CC from '' @ (case or_command o' of Some c \<Rightarrow> c | None \<Rightarrow> or_program o'))"

record session_status =
  ss_id :: bytes
  ss_name :: bytes

record window_status =
  ws_id :: bytes
  ws_name :: bytes
  ws_panes :: nat
  ws_open :: bool
  ws_chan_window :: "bytes option"

record connection_status =
  cs_origin :: tmux_origin
  cs_version :: bytes
  cs_session :: "session_status option"
  cs_windows :: "window_status list"
  cs_window_cap :: nat
  cs_errors :: "bytes list"

datatype terminal_exit = ExitCode nat | ExitSignal bytes | ExitUnknown

type_synonym connection_id = nat

record pty_size =
  z_cols :: nat
  z_rows :: nat
  z_pixel_width :: nat
  z_pixel_height :: nat

record pane_ref =
  pr_connection :: connection_id
  pr_pane :: pane_id

record pane_spec =
  ps_pane :: pane_ref
  ps_name :: "bytes option"
  ps_group :: bytes
  ps_window_id :: "bytes option"
  ps_size :: pty_size

text \<open>The JSON value of a pane tree.\<close>

datatype pane_tree =
    TreePane "bytes option" nat nat
  | TreeRow "pane_tree list" nat nat
  | TreeColumn "pane_tree list" nat nat

datatype tmux_work =
    AddPane pane_spec
  | EndPane bytes terminal_exit
  | RenamePanes "bytes list" bytes
  | MintWindow window_id bytes
  | AttachTab bytes bytes
  | LayoutWork bytes pane_tree
  | ControlWindowWork bytes
  | StatusWork connection_status
  | Ended
  | RemoveWindow bytes
  | StartGateway connection_id

datatype work_done =
    PaneAdded pane_id bytes
  | PaneRefused pane_id
  | WindowMinted window_id "bytes option"

datatype purpose = Fire | ForWindows | ForPanes window_id | ForCapture pane_id | ForNewWindow

text \<open>\<open>Action\<close> of \<^verbatim>\<open>tmux_gate.rs\<close>.\<close>

datatype gate_action = Write bytes | Notice bytes | Work tmux_work | ControlWindow bytes

datatype step = Submit command purpose | Act gate_action

datatype pty_command =
    ProgramStatusReply reply
  | Input bytes
  | InputSequence "bytes list" nat
  | Resize pty_size
  | Redraw
  | Kill

text \<open>What an operation does to a pane session under the session's own locks.\<close>

datatype session_effect =
    RecordOutput bytes bytes
  | SetWindowId bytes "bytes option"
  | NoteSize bytes pty_size

record tmux_window =
  w_name :: bytes
  w_panes :: "pane_id list"
  w_sizes :: "(pane_id \<times> nat \<times> nat) list"
  w_layout :: "layout option"
  w_chan_window :: "bytes option"
  w_materialized :: bool

record tmux_pane =
  pn_window :: window_id
  pn_session :: "bytes option"
  pn_captured :: bool
  pn_requested :: bool

record connection =
  k_id :: connection_id
  k_version :: tmux_version
  k_origin :: tmux_origin
  k_scrollback_mb :: nat
  k_windows :: "(window_id \<times> tmux_window) list"
  k_panes :: "(pane_id \<times> tmux_pane) list"
  k_pending :: "token \<rightharpoonup> purpose"
  k_backlog :: "(pane_id \<times> bytes) list"
  k_backlog_bytes :: nat
  k_resize_wanted :: "(window_id \<times> nat \<times> nat) list"
  k_session :: "(session_id \<times> bytes) option"
  k_new_windows :: nat
  k_dirty :: bool
  k_errors :: "bytes list"
  k_ending :: "bytes list"

type_synonym conn_act = "(connection, step, session_effect) act"

text \<open>\<open>BTreeMap::insert\<close>.\<close>

fun tree_insert :: "window_id \<Rightarrow> 'v \<Rightarrow> (window_id \<times> 'v) list \<Rightarrow> (window_id \<times> 'v) list" where
  "tree_insert w v [] = [(w, v)]"
| "tree_insert w v ((u, x) # m) =
     (if w = u then (w, v) # m
      else if window_num w < window_num u then (w, v) # (u, x) # m
      else (u, x) # tree_insert w v m)"

abbreviation window_of :: "connection \<Rightarrow> window_id \<Rightarrow> tmux_window option" where
  "window_of c \<equiv> map_of (k_windows c)"

abbreviation pane_of :: "connection \<Rightarrow> pane_id \<Rightarrow> tmux_pane option" where
  "pane_of c \<equiv> map_of (k_panes c)"

definition session_of :: "connection \<Rightarrow> pane_id \<Rightarrow> bytes option" where
  "session_of c pane = Option.bind (pane_of c pane) pn_session"

definition update_window :: "window_id \<Rightarrow> (tmux_window \<Rightarrow> tmux_window) \<Rightarrow> connection \<Rightarrow> connection" where
  "update_window w f c = c\<lparr>k_windows := AList.map_entry w f (k_windows c)\<rparr>"

definition mark_dirty :: "connection \<Rightarrow> connection" where
  "mark_dirty c = c\<lparr>k_dirty := True\<rparr>"

section \<open>The status\<close>

definition new_connection ::
    "connection_id \<Rightarrow> tmux_version \<Rightarrow> tmux_origin \<Rightarrow> nat \<Rightarrow> (session_id \<times> bytes) option \<Rightarrow> connection" where
  "new_connection i version origin scrollback_mb announced =
     \<lparr>k_id = i, k_version = version, k_origin = origin, k_scrollback_mb = scrollback_mb, k_windows = [], k_panes = [],
      k_pending = Map.empty, k_backlog = [], k_backlog_bytes = 0, k_resize_wanted = [], k_session = announced,
      k_new_windows = 0, k_dirty = True, k_errors = [], k_ending = []\<rparr>"

definition show_version :: "tmux_version \<Rightarrow> bytes" where
  "show_version v = show_nat (major v) @ ''.'' @ show_nat (minor v)"

definition window_line :: "window_id \<times> tmux_window \<Rightarrow> window_status" where
  "window_line e = (case e of (i, w) \<Rightarrow>
     \<lparr>ws_id = show_window_id i, ws_name = w_name w, ws_panes = length (w_panes w), ws_open = w_materialized w,
      ws_chan_window = w_chan_window w\<rparr>)"

definition status_of :: "connection \<Rightarrow> connection_status" where
  "status_of c =
     \<lparr>cs_origin = k_origin c, cs_version = show_version (k_version c),
      cs_session = map_option (\<lambda>(i, name). \<lparr>ss_id = show_session_id i, ss_name = name\<rparr>) (k_session c),
      cs_windows = map window_line (k_windows c), cs_window_cap = WINDOW_CAP, cs_errors = k_errors c\<rparr>"

definition take_dirty :: "connection \<Rightarrow> connection \<times> bool" where
  "take_dirty c = (c\<lparr>k_dirty := False\<rparr>, k_dirty c)"

definition note_error :: "bytes \<Rightarrow> connection \<Rightarrow> connection" where
  "note_error t c =
     c\<lparr>k_errors := (if length (k_errors c) = ERRORS_MAX then tl (k_errors c) else k_errors c) @ [t], k_dirty := True\<rparr>"

section \<open>Requests of a client\<close>

definition window_title :: "window_id \<Rightarrow> bytes \<Rightarrow> bytes" where
  "window_title w name = (if name = [] then ''tmux '' @ show_window_id w else name)"

definition open_window :: "window_id \<Rightarrow> conn_act" where
  "open_window w = reading (\<lambda>c.
     case window_of c w of
       None \<Rightarrow> nothing
     | Some x \<Rightarrow>
         if w_materialized x then nothing
         else acts
           [modify (update_window w (\<lambda>x. x\<lparr>w_materialized := True\<rparr>)),
            modify mark_dirty,
            issue (Act (Work (MintWindow w (window_title w (w_name x))))),
            issue (Submit (ListPanes w) (ForPanes w))])"

definition request_new_window :: conn_act where
  "request_new_window = acts
     [modify (\<lambda>c. c\<lparr>k_new_windows := k_new_windows c + 1\<rparr>), issue (Submit (NewWindow None) ForNewWindow)]"

definition request_split :: "pane_id \<Rightarrow> bool \<Rightarrow> conn_act" where
  "request_split pane horizontal = reading (\<lambda>c.
     if pane_of c pane = None then nothing else issue (Submit (SplitWindow pane horizontal) Fire))"

definition request_focus :: "pane_id \<Rightarrow> conn_act" where
  "request_focus pane = reading (\<lambda>c. if pane_of c pane = None then nothing else issue (Submit (SelectPane pane) Fire))"

definition resize_command :: "tmux_version \<Rightarrow> window_id \<times> nat \<times> nat \<Rightarrow> command" where
  "resize_command v r = (case r of (w, cols, rows) \<Rightarrow> if TmuxVersion 3 4 \<le> v then WindowSize w cols rows else ClientSize cols rows)"

definition send_resizes :: conn_act where
  "send_resizes = reading (\<lambda>c. acts
     [modify (\<lambda>c. c\<lparr>k_resize_wanted := []\<rparr>),
      each (k_resize_wanted c) (\<lambda>r. issue (Submit (resize_command (k_version c) r) Fire))])"

definition request_window_size :: "pane_id \<Rightarrow> nat \<Rightarrow> nat \<Rightarrow> conn_act" where
  "request_window_size pane cols rows = reading (\<lambda>c.
     case pane_of c pane of
       None \<Rightarrow> nothing
     | Some p \<Rightarrow>
         if cols = 0 \<or> rows = 0 then nothing
         else acts
           [modify (\<lambda>c. c\<lparr>k_resize_wanted := tree_insert (pn_window p) (cols, rows) (k_resize_wanted c)\<rparr>), send_resizes])"

definition request_resize_pane :: "pane_id \<Rightarrow> resize_axis \<Rightarrow> nat \<Rightarrow> conn_act" where
  "request_resize_pane pane axis n = reading (\<lambda>c.
     if pane_of c pane = None \<or> \<not> (1 \<le> n \<and> n \<le> 10000) then nothing
     else issue (Submit (ResizePane pane axis n) Fire))"

section \<open>Layouts for the windows\<close>

primrec cell_tree :: "(pane_id \<Rightarrow> bytes option) \<Rightarrow> cell \<Rightarrow> pane_tree"
    and kind_tree :: "(pane_id \<Rightarrow> bytes option) \<Rightarrow> kind \<Rightarrow> nat \<Rightarrow> nat \<Rightarrow> pane_tree" where
  "cell_tree f (Cell w h x y k) = kind_tree f k w h"
| "kind_tree f (Pane i) = (\<lambda>w h. TreePane (f i) w h)"
| "kind_tree f (Horizontal cs) = (\<lambda>w h. TreeRow (map (cell_tree f) cs) w h)"
| "kind_tree f (Vertical cs) = (\<lambda>w h. TreeColumn (map (cell_tree f) cs) w h)"

definition push_layout :: "window_id \<Rightarrow> conn_act" where
  "push_layout w = reading (\<lambda>c.
     case window_of c w of
       None \<Rightarrow> nothing
     | Some x \<Rightarrow>
         (case w_chan_window x of
            None \<Rightarrow> nothing
          | Some chan_window \<Rightarrow>
              (case w_layout x of
                 None \<Rightarrow> nothing
               | Some l \<Rightarrow> issue (Act (Work (LayoutWork chan_window (cell_tree (session_of c) (root l))))))))"

section \<open>Input and the backlog\<close>

definition start :: conn_act where
  "start = reading (\<lambda>c. acts
     [issue (Submit (PauseAfter PAUSE_AFTER_SECS) Fire),
      (if TmuxVersion 3 8 \<le> k_version c then issue (Submit NewLayouts Fire) else nothing),
      issue (Submit ListWindows ForWindows)])"

definition submitted :: "token \<Rightarrow> purpose \<Rightarrow> connection \<Rightarrow> connection" where
  "submitted t p c = c\<lparr>k_pending := (k_pending c)(t \<mapsto> p)\<rparr>"

definition keep_input :: "pane_id \<Rightarrow> bytes \<Rightarrow> connection \<Rightarrow> connection" where
  "keep_input pane bs c =
     (if INPUT_BACKLOG_MAX < k_backlog_bytes c + length bs
      then note_error (''input to pane '' @ show_pane_id pane @ '' dropped: the backlog is full'') c
      else c\<lparr>k_backlog_bytes := k_backlog_bytes c + length bs, k_backlog := k_backlog c @ [(pane, bs)]\<rparr>)"

definition submit_keys :: "pane_id \<Rightarrow> bytes \<Rightarrow> conn_act" where
  "submit_keys pane bs = each (send_keys pane bs) (\<lambda>cmd. issue (Submit cmd Fire))"

definition input :: "pane_id \<Rightarrow> bytes \<Rightarrow> conn_act" where
  "input pane bs = reading (\<lambda>c.
     if bs = [] then nothing
     else if k_backlog c \<noteq> [] then modify (keep_input pane bs)
     else submit_keys pane bs)"

fun drain_backlog :: "(pane_id \<times> bytes) list \<Rightarrow> conn_act" where
  "drain_backlog [] = nothing"
| "drain_backlog ((pane, bs) # later) = acts
     [modify (\<lambda>c. c\<lparr>k_backlog := later, k_backlog_bytes := k_backlog_bytes c - length bs\<rparr>),
      submit_keys pane bs,
      drain_backlog later]"

definition retry_backlog :: conn_act where
  "retry_backlog = andthen (reading (\<lambda>c. drain_backlog (k_backlog c))) send_resizes"

section \<open>Windows and panes\<close>

definition window_seen :: "window_id \<Rightarrow> bytes \<Rightarrow> conn_act" where
  "window_seen w name = reading (\<lambda>c.
     case window_of c w of
       Some _ \<Rightarrow> if name \<noteq> [] then modify (update_window w (\<lambda>x. x\<lparr>w_name := name\<rparr>)) else nothing
     | None \<Rightarrow>
         let requested = 0 < k_new_windows c;
             materialized = (requested \<or> length (filter (\<lambda>e. w_materialized (snd e)) (k_windows c)) < WINDOW_CAP);
             x = \<lparr>w_name = name, w_panes = [], w_sizes = [], w_layout = None, w_chan_window = None, w_materialized = materialized\<rparr>
         in acts
           [modify (\<lambda>c. if requested then c\<lparr>k_new_windows := k_new_windows c - 1\<rparr> else c),
            modify mark_dirty,
            modify (\<lambda>c. c\<lparr>k_windows := tree_insert w x (k_windows c)\<rparr>),
            (if materialized then acts
               [issue (Act (Work (MintWindow w (window_title w name)))),
                issue (Submit (ListPanes w) (ForPanes w)),
                (if name = [] then issue (Submit ListWindows ForWindows) else nothing)]
             else nothing)])"

definition end_pane :: "pane_id \<Rightarrow> terminal_exit \<Rightarrow> conn_act" where
  "end_pane pane exit = reading (\<lambda>c.
     case pane_of c pane of
       None \<Rightarrow> nothing
     | Some p \<Rightarrow> acts
         [modify (\<lambda>c. c\<lparr>k_panes := AList.delete pane (k_panes c)\<rparr>),
          modify (update_window (pn_window p) (\<lambda>x. x\<lparr>w_panes := filter (\<lambda>q. q \<noteq> pane) (w_panes x)\<rparr>)),
          push_layout (pn_window p),
          (case pn_session p of
             None \<Rightarrow> nothing
           | Some s \<Rightarrow> reading (\<lambda>c.
               if s \<in> set (k_ending c) then nothing
               else acts [modify (\<lambda>c. c\<lparr>k_ending := k_ending c @ [s]\<rparr>), issue (Act (Work (EndPane s exit)))]))])"

definition remove_chan_window :: "bytes option \<Rightarrow> conn_act" where
  "remove_chan_window i = (case i of None \<Rightarrow> nothing | Some window_id \<Rightarrow> issue (Act (Work (RemoveWindow window_id))))"

definition window_closed :: "window_id \<Rightarrow> conn_act" where
  "window_closed w = reading (\<lambda>c.
     case window_of c w of
       None \<Rightarrow> nothing
     | Some x \<Rightarrow> acts
         [modify (\<lambda>c. c\<lparr>k_windows := AList.delete w (k_windows c)\<rparr>),
          modify mark_dirty,
          each (w_panes x) (\<lambda>pane. end_pane pane (ExitCode 0)),
          remove_chan_window (w_chan_window x)])"

definition u16_or_max :: "nat \<Rightarrow> nat" where
  "u16_or_max n = (if n \<le> 65535 then n else 65535)"

definition pane_size :: "nat \<times> nat \<Rightarrow> pty_size" where
  "pane_size s = \<lparr>z_cols = u16_or_max (fst s), z_rows = u16_or_max (snd s), z_pixel_width = 0, z_pixel_height = 0\<rparr>"

definition add_pane :: "window_id \<Rightarrow> tmux_window \<Rightarrow> pane_id \<Rightarrow> conn_act" where
  "add_pane w x pane = reading (\<lambda>c.
     if pane_of c pane \<noteq> None then nothing
     else if PANE_CAP \<le> length (k_panes c) then
       modify (note_error (''pane '' @ show_pane_id pane @ '' not shown: the pane cap of '' @ show_nat PANE_CAP))
     else acts
       [modify (\<lambda>c. c\<lparr>k_panes := AList.update pane
          \<lparr>pn_window = w, pn_session = None, pn_captured = False, pn_requested = True\<rparr> (k_panes c)\<rparr>),
        issue (Act (Work (AddPane
          \<lparr>ps_pane = \<lparr>pr_connection = k_id c, pr_pane = pane\<rparr>,
           ps_name = (if w_name x = [] then None else Some (w_name x)),
           ps_group = ''tmux'',
           ps_window_id = w_chan_window x,
           ps_size = pane_size (case map_of (w_sizes x) pane of None \<Rightarrow> (80, 24) | Some s \<Rightarrow> s)\<rparr>)))])"

definition window_panes :: "window_id \<Rightarrow> pane_id list \<Rightarrow> conn_act" where
  "window_panes w ids = reading (\<lambda>c.
     case window_of c w of
       None \<Rightarrow> nothing
     | Some x \<Rightarrow> acts
         [each (filter (\<lambda>p. p \<notin> set ids) (w_panes x)) (\<lambda>pane. end_pane pane (ExitCode 0)),
          reading (\<lambda>c.
            case window_of c w of
              None \<Rightarrow> nothing
            | Some y \<Rightarrow>
                if w_panes y \<noteq> ids then acts [modify (update_window w (\<lambda>y. y\<lparr>w_panes := ids\<rparr>)), modify mark_dirty] else nothing),
          (if w_materialized x then each ids (add_pane w x) else nothing)])"

primrec cell_sizes :: "cell \<Rightarrow> (pane_id \<times> nat \<times> nat) list \<Rightarrow> (pane_id \<times> nat \<times> nat) list"
    and kind_sizes :: "kind \<Rightarrow> nat \<times> nat \<Rightarrow> (pane_id \<times> nat \<times> nat) list \<Rightarrow> (pane_id \<times> nat \<times> nat) list" where
  "cell_sizes (Cell w h x y k) = kind_sizes k (w, h)"
| "kind_sizes (Pane i) = (\<lambda>s m. AList.update i s m)"
| "kind_sizes (Horizontal cs) = (\<lambda>s m. fold (\<lambda>f. f) (map cell_sizes cs) m)"
| "kind_sizes (Vertical cs) = (\<lambda>s m. fold (\<lambda>f. f) (map cell_sizes cs) m)"

definition note_size :: "pane_id \<times> nat \<times> nat \<Rightarrow> conn_act" where
  "note_size e = (case e of (pane, s) \<Rightarrow> reading (\<lambda>c.
     case session_of c pane of None \<Rightarrow> nothing | Some i \<Rightarrow> effect (NoteSize i (pane_size s))))"

definition layout_changed :: "'v json_api \<Rightarrow> window_id \<Rightarrow> bytes \<Rightarrow> conn_act" where
  "layout_changed api w t =
     (case parse_layout api t of
        Inl _ \<Rightarrow> nothing
      | Inr l \<Rightarrow>
          let sizes = cell_sizes (root l) [] in
          acts
            [modify (update_window w (\<lambda>x. x\<lparr>w_sizes := sizes, w_layout := Some l\<rparr>)),
             window_panes w (panes l),
             push_layout w,
             each sizes note_size])"

section \<open>Notifications, replies and captures\<close>

definition show_output :: "pane_id \<Rightarrow> bytes \<Rightarrow> conn_act" where
  "show_output pane bs = reading (\<lambda>c.
     case pane_of c pane of
       None \<Rightarrow> nothing
     | Some p \<Rightarrow>
         if \<not> pn_captured p then nothing
         else (case pn_session p of None \<Rightarrow> nothing | Some s \<Rightarrow> effect (RecordOutput s bs)))"

definition rename_window :: "window_id \<Rightarrow> bytes \<Rightarrow> conn_act" where
  "rename_window w name = reading (\<lambda>c.
     case window_of c w of
       None \<Rightarrow> nothing
     | Some x \<Rightarrow>
         let ids = List.map_filter (session_of c) (w_panes x) in
         acts
           [modify (update_window w (\<lambda>x. x\<lparr>w_name := name\<rparr>)),
            modify mark_dirty,
            (if ids \<noteq> [] then issue (Act (Work (RenamePanes ids name))) else nothing)])"

definition on_message :: "'v json_api \<Rightarrow> message \<Rightarrow> conn_act" where
  "on_message api m =
     (case m of
        Output pane bs \<Rightarrow> show_output pane bs
      | ExtendedOutput pane _ bs \<Rightarrow> show_output pane bs
      | Pause pane \<Rightarrow> issue (Submit (ContinuePane pane) Fire)
      | WindowAdd w \<Rightarrow> window_seen w []
      | UnlinkedWindowAdd w \<Rightarrow> window_seen w []
      | WindowClose w \<Rightarrow> window_closed w
      | UnlinkedWindowClose w \<Rightarrow> window_closed w
      | WindowRenamed w name \<Rightarrow> rename_window w name
      | UnlinkedWindowRenamed w name \<Rightarrow> rename_window w name
      | LayoutChange w l _ _ \<Rightarrow> layout_changed api w l
      | SessionChanged s name \<Rightarrow> modify (\<lambda>c. c\<lparr>k_session := Some (s, name), k_dirty := True\<rparr>)
      | SessionRenamed name \<Rightarrow> modify (\<lambda>c.
          case k_session c of None \<Rightarrow> c | Some (s, _) \<Rightarrow> c\<lparr>k_session := Some (s, name), k_dirty := True\<rparr>)
      | _ \<Rightarrow> nothing)"

definition forget_token :: "token \<Rightarrow> connection \<Rightarrow> connection" where
  "forget_token t c = c\<lparr>k_pending := (k_pending c)(t := None)\<rparr>"

definition reply_refused :: "purpose \<Rightarrow> bytes list \<Rightarrow> conn_act" where
  "reply_refused p rows =
     (case p of
        ForCapture pane \<Rightarrow> end_pane pane (ExitCode 0)
      | _ \<Rightarrow> acts
          [modify (\<lambda>c. if p = ForNewWindow then c\<lparr>k_new_windows := k_new_windows c - 1\<rparr> else c),
           modify (note_error (''tmux refused a command: '' @ from_utf8_lossy (concat rows)))])"

definition window_listed :: "'v json_api \<Rightarrow> window_info \<Rightarrow> conn_act" where
  "window_listed api i = acts [window_seen (win_id i) (win_name i), layout_changed api (win_id i) (win_layout i)]"

definition reply_taken :: "'v json_api \<Rightarrow> purpose \<Rightarrow> bytes list \<Rightarrow> conn_act" where
  "reply_taken api p rows =
     (case p of
        ForWindows \<Rightarrow>
          (case parse_list_windows rows of
             Inr ws \<Rightarrow> each ws (window_listed api)
           | Inl e \<Rightarrow> modify (note_error (''list-windows reply: '' @ show_error e)))
      | ForPanes w \<Rightarrow>
          (case parse_list_panes rows of
             Inr ps \<Rightarrow> window_panes w (map pane_info_id ps)
           | Inl e \<Rightarrow> modify (note_error (''list-panes reply for '' @ show_window_id w @ '': '' @ show_error e)))
      | _ \<Rightarrow> nothing)"

definition on_reply :: "'v json_api \<Rightarrow> token \<Rightarrow> bytes list + bytes list \<Rightarrow> conn_act" where
  "on_reply api t result = reading (\<lambda>c.
     case k_pending c t of
       None \<Rightarrow> nothing
     | Some p \<Rightarrow> acts
         [modify (forget_token t),
          retry_backlog,
          (case result of Inl rows \<Rightarrow> reply_refused p rows | Inr rows \<Rightarrow> reply_taken api p rows)])"

text \<open>\<open>u32\<close> addition, which wraps in a release build.\<close>

definition u32_inc :: "nat \<Rightarrow> nat" where
  "u32_inc n = (n + 1) mod 2 ^ 32"

definition CSI_ESC :: bytes where "CSI_ESC = [byte_of 0x1b]"

fun capture_rows :: "bytes list \<Rightarrow> bytes" where
  "capture_rows [] = []"
| "capture_rows [row] = row"
| "capture_rows (row # r # rows) = row @ [byte_of 13, byte_of 10] @ capture_rows (r # rows)"

definition capture_bytes :: "pane_state \<Rightarrow> bytes list \<Rightarrow> bytes" where
  "capture_bytes s rows =
     (if alternate_on s then CSI_ESC @ ''[?1049h'' else []) @
     CSI_ESC @ ''[0m'' @ CSI_ESC @ ''[H'' @ CSI_ESC @ ''[2J'' @
     capture_rows rows @
     CSI_ESC @ ''[0m'' @
     (if scroll_upper s \<noteq> 0 \<or> u32_inc (scroll_lower s) \<noteq> height s
      then CSI_ESC @ ''['' @ show_nat (u32_inc (scroll_upper s)) @ '';'' @ show_nat (u32_inc (scroll_lower s)) @ ''r'' else []) @
     CSI_ESC @ ''['' @ show_nat (u32_inc (cursor_y s)) @ '';'' @ show_nat (u32_inc (cursor_x s)) @ ''H''"

definition update_pane :: "pane_id \<Rightarrow> (tmux_pane \<Rightarrow> tmux_pane) \<Rightarrow> connection \<Rightarrow> connection" where
  "update_pane i f c = c\<lparr>k_panes := AList.map_entry i f (k_panes c)\<rparr>"

definition on_capture :: "token \<Rightarrow> pane_state \<Rightarrow> bytes list \<Rightarrow> conn_act" where
  "on_capture t s rows = reading (\<lambda>c.
     case k_pending c t of
       Some (ForCapture pane) \<Rightarrow> acts
         [modify (forget_token t),
          retry_backlog,
          reading (\<lambda>c.
            case session_of c pane of
              None \<Rightarrow> nothing
            | Some i \<Rightarrow> acts
                [modify (update_pane pane (\<lambda>p. p\<lparr>pn_captured := True\<rparr>)),
                 effect (RecordOutput i (capture_bytes s rows))])]
     | _ \<Rightarrow> modify (forget_token t))"

section \<open>Answers of the registry, commands of the panes, the end\<close>

definition capture_history_rows :: "nat \<Rightarrow> nat \<Rightarrow> nat" where
  "capture_history_rows scrollback_mb cols0 =
     (let cols = max cols0 1;
          lines = (scrollback_mb * 1024 * 1024) div (cols * 12);
          by_bytes = (REPLY_BYTES_MAX div 2) div (cols * CAPTURE_BYTES_PER_CELL + 2)
      in min (min lines by_bytes) CAPTURE_ROWS_MAX)"

definition bind_window :: "bytes \<Rightarrow> bool \<Rightarrow> bytes \<Rightarrow> conn_act" where
  "bind_window chan_window bare s = acts
     [effect (SetWindowId s (Some chan_window)),
      (if bare then issue (Act (Work (AttachTab chan_window s))) else nothing)]"

definition pane_added :: "pane_id \<Rightarrow> bytes \<Rightarrow> conn_act" where
  "pane_added pane s = reading (\<lambda>c.
     case pane_of c pane of
       None \<Rightarrow> issue (Act (Work (EndPane s (ExitCode 0))))
     | Some p \<Rightarrow>
         let x = window_of c (pn_window p);
             size = (case Option.bind x (\<lambda>x. map_of (w_sizes x) pane) of None \<Rightarrow> (80, 24) | Some z \<Rightarrow> z)
         in acts
           [modify (update_pane pane (\<lambda>p. p\<lparr>pn_requested := False\<rparr>)),
            (case Option.bind x w_chan_window of
               None \<Rightarrow> nothing
             | Some chan_window \<Rightarrow> bind_window chan_window (case x of None \<Rightarrow> False | Some x \<Rightarrow> w_layout x = None) s),
            modify (update_pane pane (\<lambda>p. p\<lparr>pn_session := Some s\<rparr>)),
            issue (Submit (CapturePane pane (capture_history_rows (k_scrollback_mb c) (fst size))) (ForCapture pane)),
            push_layout (pn_window p)])"

definition window_minted :: "window_id \<Rightarrow> bytes option \<Rightarrow> conn_act" where
  "window_minted w i = acts
     [modify mark_dirty,
      reading (\<lambda>c.
        case window_of c w of
          None \<Rightarrow> nothing
        | Some x \<Rightarrow> acts
            [modify (update_window w (\<lambda>x. x\<lparr>w_chan_window := i\<rparr>)),
             (case i of
                None \<Rightarrow> nothing
              | Some chan_window \<Rightarrow>
                  each (List.map_filter (session_of c) (w_panes x)) (bind_window chan_window (w_layout x = None)))]),
      push_layout w]"

definition on_work_done :: "work_done \<Rightarrow> conn_act" where
  "on_work_done d =
     (case d of
        PaneAdded pane s \<Rightarrow> pane_added pane s
      | PaneRefused pane \<Rightarrow> acts
          [modify (\<lambda>c. c\<lparr>k_panes := AList.delete pane (k_panes c)\<rparr>),
           modify (note_error (''no session for pane '' @ show_pane_id pane @ '': the session cap''))]
      | WindowMinted w i \<Rightarrow> window_minted w i)"

text \<open>\<open>alt\<close> tells whether a session's program is on the alternate screen.\<close>

definition on_pane_command :: "(bytes \<Rightarrow> bool) \<Rightarrow> pane_id \<Rightarrow> pty_command \<Rightarrow> conn_act" where
  "on_pane_command alt pane cmd = reading (\<lambda>c.
     if pane_of c pane = None then nothing
     else case cmd of
       Input bs \<Rightarrow> input pane bs
     | InputSequence parts _ \<Rightarrow> each parts (input pane)
     | Resize _ \<Rightarrow> nothing
     | Redraw \<Rightarrow>
         if (case session_of c pane of None \<Rightarrow> False | Some s \<Rightarrow> alt s)
         then issue (Submit (CapturePane pane 0) (ForCapture pane)) else nothing
     | Kill \<Rightarrow> issue (Submit (KillPane pane) Fire)
     | ProgramStatusReply r \<Rightarrow> input pane (query_bytes r))"

definition drop_window :: "window_id \<Rightarrow> conn_act" where
  "drop_window w = reading (\<lambda>c. acts
     [modify (\<lambda>c. c\<lparr>k_windows := AList.delete w (k_windows c)\<rparr>),
      remove_chan_window (Option.bind (window_of c w) w_chan_window)])"

definition on_end :: "terminal_exit \<Rightarrow> conn_act" where
  "on_end exit = acts
     [reading (\<lambda>c. each (map fst (k_panes c)) (\<lambda>pane. end_pane pane exit)),
      reading (\<lambda>c. each (map fst (k_windows c)) drop_window),
      modify (\<lambda>c. c\<lparr>k_pending := Map.empty, k_backlog := [], k_backlog_bytes := 0\<rparr>)]"

definition event_steps :: "'v json_api \<Rightarrow> event \<Rightarrow> conn_act" where
  "event_steps api e =
     (case e of
        EMessage m \<Rightarrow> on_message api m
      | EReply t result \<Rightarrow> on_reply api t result
      | ECapture t s rows \<Rightarrow> on_capture t s rows
      | _ \<Rightarrow> nothing)"

end
