(* ===== verification/Tmux_Gate.thy ===== *)
theory Tmux_Gate
  imports Tmux_Connection
begin

text \<open>
  The control-mode gate, \<^verbatim>\<open>crates/chan-library/src/terminal_sessions/tmux_gate.rs\<close>: which marker is trusted, the
  consent question, the probe that follows an allow, and the connection. An operation is an act on the gate
  whose output is the list of actions. Instants and durations are nanoseconds. What the process table says
  of the foreground is an argument of \<open>feed\<close>, and the process-wide counter of connections is part of the gate.
\<close>

section \<open>Constants and data\<close>

definition QUESTION_TIMEOUT :: nat where "QUESTION_TIMEOUT = 60 * second"
definition PROBE_TIMEOUT :: nat where "PROBE_TIMEOUT = 5 * second"
definition DRAIN_TIMEOUT :: nat where "DRAIN_TIMEOUT = 2 * second"
definition HELD_BYTES_MAX :: nat where "HELD_BYTES_MAX = 1024 * 1024"
definition VERSION_FLOOR :: tmux_version where "VERSION_FLOOR = TmuxVersion 3 2"

record foreground =
  fg_name :: "bytes option"
  fg_command :: "bytes option"

definition no_foreground :: foreground where
  "no_foreground = \<lparr>fg_name = None, fg_command = None\<rparr>"

record question =
  q_program :: bytes
  q_command :: "bytes option"
  q_timeout_secs :: nat

record consent_snapshot =
  co_revision :: nat
  co_question :: "question option"

datatype tmux_resize_axis = AxisWidth | AxisHeight

datatype tmux_request =
    OpenWindow bytes
  | AskWindow
  | Split bytes bool
  | Focus bytes
  | SizeWindow bytes nat nat
  | SizePane bytes tmux_resize_axis nat
  | AskDetach
  | AskEnd

datatype tmux_answer = Allow | AllowForTab | Deny

record tmux_policy =
  pol_enabled :: bool
  pol_trust :: "bytes list"

datatype phase =
    PlainPhase
  | Asking nat "event list" nat tmux_origin
  | Probing nat "token option" "(session_id \<times> bytes) option" tmux_origin
  | Connected tmux_version connection
  | Draining nat

record gate =
  h_client :: client
  h_policy :: tmux_policy
  h_scrollback_mb :: nat
  h_phase :: phase
  h_allow_for_tab :: bool
  h_published :: consent_snapshot
  h_revision :: nat
  h_next_connection :: nat

type_synonym gate_act = "(gate, gate_action, session_effect) act"

definition fresh_client :: "tmux_policy \<Rightarrow> client" where
  "fresh_client p = client_arm (new_client default_limits) (pol_enabled p)"

definition new_gate :: "tmux_policy \<Rightarrow> nat \<Rightarrow> gate" where
  "new_gate p scrollback_mb =
     \<lparr>h_client = fresh_client p, h_policy = p, h_scrollback_mb = scrollback_mb, h_phase = PlainPhase, h_allow_for_tab = False,
      h_published = \<lparr>co_revision = 0, co_question = None\<rparr>, h_revision = 0, h_next_connection = 1\<rparr>"

definition set_policy :: "tmux_policy \<Rightarrow> gate \<Rightarrow> gate" where
  "set_policy p g = g\<lparr>h_client := client_arm (h_client g) (pol_enabled p), h_policy := p\<rparr>"

definition accepts_input :: "gate \<Rightarrow> bool" where
  "accepts_input g \<longleftrightarrow> h_phase g = PlainPhase"

section \<open>Driving the connection\<close>

fun drive :: "client \<Rightarrow> connection \<Rightarrow> step list \<Rightarrow> client \<times> connection \<times> gate_action list \<times> error option" where
  "drive cl c [] = (cl, c, [], None)"
| "drive cl c (Act a # steps) =
     (case drive cl c steps of (cl', c', as, e) \<Rightarrow> (cl', c', a # as, e))"
| "drive cl c (Submit cmd p # steps) =
     (case submit cl cmd of
        (cl1, Inr (t, bs)) \<Rightarrow>
          (case drive cl1 (submitted t p c) steps of (cl', c', as, e) \<Rightarrow> (cl', c', Write bs # as, e))
      | (cl1, Inl TooManyPending) \<Rightarrow>
          drive cl1 (case cmd of SendKeys pane bs \<Rightarrow> keep_input pane bs c | _ \<Rightarrow> c) steps
      | (cl1, Inl (BadArgument _)) \<Rightarrow> drive cl1 c steps
      | (cl1, Inl e) \<Rightarrow> (cl1, c, [], Some e))"

definition publish_question :: "question option \<Rightarrow> gate \<Rightarrow> gate" where
  "publish_question q g =
     g\<lparr>h_revision := (h_revision g + 1) mod 2 ^ 64,
       h_published := \<lparr>co_revision = (h_revision g + 1) mod 2 ^ 64, co_question = q\<rparr>\<rparr>"

definition issue_all :: "'o list \<Rightarrow> ('s, 'o, 'e) act" where
  "issue_all xs s = (s, xs, [])"

definition effect_all :: "'e list \<Rightarrow> ('s, 'o, 'e) act" where
  "effect_all xs s = (s, [], xs)"

definition step_actions :: "step list \<Rightarrow> gate_action list" where
  "step_actions steps = List.map_filter (\<lambda>s. case s of Act a \<Rightarrow> Some a | Submit _ _ \<Rightarrow> None) steps"

definition end_connection :: "terminal_exit \<Rightarrow> gate_act" where
  "end_connection exit = reading (\<lambda>g.
     case h_phase g of
       Connected v c \<Rightarrow>
         (case on_end exit c of (c', steps, effects) \<Rightarrow> acts
            [modify (\<lambda>g. g\<lparr>h_phase := Connected v c'\<rparr>), effect_all effects, issue_all (step_actions steps), issue (Work Ended)])
     | _ \<Rightarrow> nothing)"

definition reset_gate :: "gate \<Rightarrow> gate" where
  "reset_gate g = g\<lparr>h_client := fresh_client (h_policy g), h_phase := PlainPhase\<rparr>"

definition deny :: "bytes \<Rightarrow> nat \<Rightarrow> gate_act" where
  "deny why now = acts
     [modify (publish_question None),
      issue (Write [byte_of 10]),
      issue (Notice (''tmux control mode '' @ why)),
      modify (\<lambda>g. g\<lparr>h_phase := Draining (now + DRAIN_TIMEOUT)\<rparr>)]"

definition submit_or_skip :: "command \<Rightarrow> gate_act" where
  "submit_or_skip cmd = reading (\<lambda>g.
     case submit (h_client g) cmd of
       (cl, Inr (_, bs)) \<Rightarrow> acts [modify (\<lambda>g. g\<lparr>h_client := cl\<rparr>), issue (Write bs)]
     | (cl, Inl _) \<Rightarrow> modify (\<lambda>g. g\<lparr>h_client := cl\<rparr>))"

definition end_control :: "bytes \<Rightarrow> nat \<Rightarrow> gate_act" where
  "end_control notice now = acts
     [end_connection ExitUnknown,
      submit_or_skip Detach,
      issue (Notice notice),
      modify (\<lambda>g. g\<lparr>h_phase := Draining (now + DRAIN_TIMEOUT)\<rparr>)]"

definition end_gate :: "bytes \<Rightarrow> gate_act" where
  "end_gate notice = acts [end_connection ExitUnknown, issue (Notice notice), modify reset_gate]"

definition exited :: "bytes \<Rightarrow> bytes option \<Rightarrow> gate_act" where
  "exited what reason = acts
     [issue (Notice (what @ '' control mode ended'' @ (case reason of None \<Rightarrow> [] | Some r \<Rightarrow> '': '' @ r))),
      modify (\<lambda>g. g\<lparr>h_phase := PlainPhase\<rparr>)]"

definition ended_text :: "error \<Rightarrow> bytes" where
  "ended_text e = ''tmux control mode ended: '' @ show_error e"

definition publish_status_if_dirty :: gate_act where
  "publish_status_if_dirty = reading (\<lambda>g.
     case h_phase g of
       Connected v c \<Rightarrow>
         (case take_dirty c of (c', dirty) \<Rightarrow> andthen
            (modify (\<lambda>g. g\<lparr>h_phase := Connected v c'\<rparr>))
            (if dirty then issue (Work (StatusWork (status_of c'))) else nothing))
     | _ \<Rightarrow> nothing)"

text \<open>An operation of the connection, its steps driven, and the end of control mode if the stream refused one.\<close>

definition with_connection :: "conn_act \<Rightarrow> nat \<Rightarrow> gate_act" where
  "with_connection f now = reading (\<lambda>g.
     case h_phase g of
       Connected v c \<Rightarrow>
         (case f c of (c1, steps, effects) \<Rightarrow>
            (case drive (h_client g) c1 steps of (cl, c2, as, e) \<Rightarrow> acts
               [modify (\<lambda>g. g\<lparr>h_client := cl, h_phase := Connected v c2\<rparr>),
                effect_all effects,
                issue_all as,
                (case e of None \<Rightarrow> nothing | Some e \<Rightarrow> end_control (ended_text e) now)]))
     | _ \<Rightarrow> nothing)"

section \<open>Events\<close>

definition program_word :: "bytes \<Rightarrow> bytes" where
  "program_word name = takeWhile (\<lambda>b. b \<noteq> CHR '':'' \<and> b \<noteq> CHR '' '') name"

definition origin_of :: "foreground \<Rightarrow> tmux_origin" where
  "origin_of fg =
     \<lparr>or_program = (case fg_name fg of Some n \<Rightarrow> n | None \<Rightarrow> ''unknown''),
      or_command = fg_command fg,
      or_local = (map_option program_word (fg_name fg) = Some ''tmux'')\<rparr>"

definition trusted :: "tmux_policy \<Rightarrow> foreground \<Rightarrow> bool" where
  "trusted p fg =
     (case fg_name fg of
        None \<Rightarrow> False
      | Some n \<Rightarrow> program_word n = ''tmux'' \<or> program_word n \<in> set (pol_trust p))"

definition entered_gate :: "foreground \<Rightarrow> nat \<Rightarrow> gate \<Rightarrow> gate" where
  "entered_gate fg now g =
     (let origin = origin_of fg in
      if trusted (h_policy g) fg \<or> h_allow_for_tab g
      then g\<lparr>h_phase := Probing (now + PROBE_TIMEOUT) None None origin\<rparr>
      else publish_question
        (Some \<lparr>q_program = or_program origin, q_command = or_command origin, q_timeout_secs = QUESTION_TIMEOUT div second\<rparr>)
        (g\<lparr>h_phase := Asking (now + QUESTION_TIMEOUT) [] 0 origin\<rparr>))"

text \<open>\<open>submit_probe\<close>: both lines are written, or the refusal.\<close>

definition submit_probe :: "client \<Rightarrow> client \<times> gate_action list \<times> (error, token) res" where
  "submit_probe cl =
     (case submit cl Interrupt of
        (cl1, Inl e) \<Rightarrow> (cl1, [], Err e)
      | (cl1, Inr (_, interrupt)) \<Rightarrow>
          (case submit cl1 Version of
             (cl2, Inl e) \<Rightarrow> (cl2, [Write interrupt], Err e)
           | (cl2, Inr (t, probe)) \<Rightarrow> (cl2, [Write interrupt, Write probe], Ok t)))"

definition announced :: "session_id \<Rightarrow> bytes \<Rightarrow> nat \<Rightarrow> gate_act" where
  "announced s name now = reading (\<lambda>g.
     case h_phase g of
       Probing deadline probe _ origin \<Rightarrow>
         (case submit_probe (h_client g) of (cl, as, r) \<Rightarrow> acts
            [modify (\<lambda>g. g\<lparr>h_client := cl\<rparr>),
             issue_all as,
             (case r of
                Inr t \<Rightarrow> modify (\<lambda>g. g\<lparr>h_phase := Probing deadline (Some t) (Some (s, name)) origin\<rparr>)
              | Inl e \<Rightarrow> end_control (ended_text e) now)])
     | _ \<Rightarrow> nothing)"

definition reply_version :: "bytes list + bytes list \<Rightarrow> tmux_version option" where
  "reply_version result =
     (case result of
        Inl _ \<Rightarrow> None
      | Inr [] \<Rightarrow> None
      | Inr (row # _) \<Rightarrow> if utf8_valid row then parse_version row else None)"

text \<open>The version is at the floor or past it: the connection starts.\<close>

definition connect :: "tmux_version \<Rightarrow> (session_id \<times> bytes) option \<Rightarrow> tmux_origin \<Rightarrow> nat \<Rightarrow> gate_act" where
  "connect v s origin now = reading (\<lambda>g.
     let i = h_next_connection g; c0 = new_connection i v origin (h_scrollback_mb g) s in
     case start c0 of (c1, steps, _) \<Rightarrow>
       (case drive (h_client g) c1 steps of (cl, c2, as, e) \<Rightarrow> acts
          [modify (\<lambda>g. g\<lparr>h_next_connection := (i + 1) mod 2 ^ 64, h_client := cl\<rparr>),
           issue (Notice (''tmux '' @ show_version v @ '' control mode'')),
           issue (Work (StartGateway i)),
           issue (ControlWindow (control_title origin)),
           issue_all as,
           (case e of
              Some e \<Rightarrow> end_control (ended_text e) now
            | None \<Rightarrow> andthen (modify (\<lambda>g. g\<lparr>h_phase := Connected v c2\<rparr>)) publish_status_if_dirty)]))"

definition probed :: "bytes list + bytes list \<Rightarrow> nat \<Rightarrow> gate_act" where
  "probed result now = reading (\<lambda>g.
     case h_phase g of
       Probing deadline probe s origin \<Rightarrow> andthen
         (modify (\<lambda>g. g\<lparr>h_phase := Probing deadline probe None origin\<rparr>))
         (case reply_version result of
            None \<Rightarrow> end_control ''tmux control mode ended: no version reply'' now
          | Some v \<Rightarrow>
              if VERSION_FLOOR \<le> v then connect v s origin now
              else end_control (''tmux '' @ show_version v @ '' is older than '' @ show_version VERSION_FLOOR @ ''; detached'') now)
     | _ \<Rightarrow> nothing)"

definition probing_event :: "token option \<Rightarrow> event \<Rightarrow> nat \<Rightarrow> gate_act" where
  "probing_event probe e now =
     (case e of
        EMessage (SessionChanged s name) \<Rightarrow> if probe = None then announced s name now else nothing
      | EReply t result \<Rightarrow> if Some t = probe then probed result now else nothing
      | EExited reason _ \<Rightarrow> exited ''tmux'' reason
      | _ \<Rightarrow> nothing)"

definition gate_event :: "'v json_api \<Rightarrow> event \<Rightarrow> nat \<Rightarrow> gate_act" where
  "gate_event api e now = reading (\<lambda>g.
     case h_phase g of
       PlainPhase \<Rightarrow> nothing
     | Asking deadline held held_bytes origin \<Rightarrow> modify (\<lambda>g. g\<lparr>h_phase := Asking deadline (held @ [e]) held_bytes origin\<rparr>)
     | Probing deadline probe s origin \<Rightarrow> probing_event probe e now
     | Connected v c \<Rightarrow>
         (case e of
            EExited reason _ \<Rightarrow> andthen (end_connection (ExitCode 0)) (exited (''tmux '' @ show_version v) reason)
          | _ \<Rightarrow> with_connection (event_steps api e) now)
     | Draining _ \<Rightarrow> (case e of EExited _ _ \<Rightarrow> modify reset_gate | _ \<Rightarrow> nothing))"

section \<open>The operations\<close>

text \<open>
  The loop over the events of a read. The closure that reads the foreground is taken by the first marker;
  a second one in the same read has none. The result carries the bytes passed on.
\<close>

fun feed_events :: "'v json_api \<Rightarrow> foreground option \<Rightarrow> nat \<Rightarrow> event list \<Rightarrow> gate \<Rightarrow>
    gate \<times> bytes \<times> gate_action list \<times> session_effect list" where
  "feed_events api fg now [] g = (g, [], [], [])"
| "feed_events api fg now (EPassthrough bs # es) g =
     (case feed_events api fg now es g of (g', out, as, effs) \<Rightarrow> (g', bs @ out, as, effs))"
| "feed_events api fg now (EEntered # es) g =
     (case feed_events api None now es (entered_gate (case fg of None \<Rightarrow> no_foreground | Some f \<Rightarrow> f) now g) of
        (g', out, as, effs) \<Rightarrow> (g', [byte_of 0x1b, CHR 0x5C] @ out, as, effs))"
| "feed_events api fg now (e # es) g =
     (case gate_event api e now g of (g1, as1, effs1) \<Rightarrow>
        (case feed_events api fg now es g1 of (g', out, as, effs) \<Rightarrow> (g', out, as1 @ as, effs1 @ effs)))"

record fed =
  fd_passthrough :: bytes
  fd_actions :: "gate_action list"

definition count_held :: "nat \<Rightarrow> gate \<Rightarrow> gate" where
  "count_held n g =
     (case h_phase g of
        Asking deadline held held_bytes origin \<Rightarrow> g\<lparr>h_phase := Asking deadline held (held_bytes + n) origin\<rparr>
      | _ \<Rightarrow> g)"

definition flooded :: "gate \<Rightarrow> bool" where
  "flooded g = (case h_phase g of Asking _ _ held_bytes _ \<Rightarrow> HELD_BYTES_MAX < held_bytes | _ \<Rightarrow> False)"

definition gate_feed :: "'v json_api \<Rightarrow> bytes \<Rightarrow> nat \<Rightarrow> foreground \<Rightarrow> gate \<Rightarrow> gate \<times> fed \<times> session_effect list" where
  "gate_feed api bs now fg g0 =
     (let g = count_held (length bs) g0 in
      if flooded g then
        (case deny ''denied: too much output while the question stood'' now g of
           (g', as, effs) \<Rightarrow> (g', \<lparr>fd_passthrough = [], fd_actions = as\<rparr>, effs))
      else case client_feed (h_client g) bs of
        (cl, Inl e) \<Rightarrow>
          (case end_gate (ended_text e) (g\<lparr>h_client := cl\<rparr>) of
             (g', as, effs) \<Rightarrow> (g', \<lparr>fd_passthrough = [], fd_actions = as\<rparr>, effs))
      | (cl, Inr es) \<Rightarrow>
          (case feed_events api (Some fg) now es (g\<lparr>h_client := cl\<rparr>) of (g1, out, as, effs) \<Rightarrow>
             (case publish_status_if_dirty g1 of (g2, as2, effs2) \<Rightarrow>
                (g2, \<lparr>fd_passthrough = out, fd_actions = as @ as2\<rparr>, effs @ effs2))))"

definition answer :: "'v json_api \<Rightarrow> tmux_answer \<Rightarrow> nat \<Rightarrow> gate_act" where
  "answer api a now = reading (\<lambda>g.
     case h_phase g of
       Asking deadline held held_bytes origin \<Rightarrow> andthen
         (modify (\<lambda>g. g\<lparr>h_phase := Asking deadline [] held_bytes origin\<rparr>))
         (if a = Deny then deny ''denied'' now
          else acts
            [modify (publish_question None),
             modify (\<lambda>g. if a = AllowForTab then g\<lparr>h_allow_for_tab := True\<rparr> else g),
             modify (\<lambda>g. g\<lparr>h_phase := Probing (now + PROBE_TIMEOUT) None None origin\<rparr>),
             each held (\<lambda>e. gate_event api e now)])
     | _ \<Rightarrow> nothing)"

definition tick :: "nat \<Rightarrow> gate_act" where
  "tick now = reading (\<lambda>g.
     case h_phase g of
       Asking deadline held held_bytes origin \<Rightarrow> if deadline \<le> now then deny ''denied: no answer'' now else nothing
     | Probing deadline probe s origin \<Rightarrow>
         if \<not> deadline \<le> now then nothing
         else if probe \<noteq> None then end_control ''tmux control mode ended: no version reply'' now
         else andthen (issue (Write [byte_of 3])) (end_gate ''tmux control mode ended: no session announced'')
     | Draining deadline \<Rightarrow> if deadline \<le> now then modify reset_gate else nothing
     | _ \<Rightarrow> nothing)"

definition resize_axis_of :: "tmux_resize_axis \<Rightarrow> resize_axis" where
  "resize_axis_of a = (case a of AxisWidth \<Rightarrow> Width | AxisHeight \<Rightarrow> Height)"

definition for_pane :: "bytes \<Rightarrow> (pane_id \<Rightarrow> conn_act) \<Rightarrow> conn_act" where
  "for_pane i f = (case parse_pane_id i of Some pane \<Rightarrow> f pane | None \<Rightarrow> nothing)"

definition request_act :: "tmux_request \<Rightarrow> conn_act" where
  "request_act r =
     (case r of
        OpenWindow i \<Rightarrow> (case parse_window_id i of Some w \<Rightarrow> open_window w | None \<Rightarrow> nothing)
      | AskWindow \<Rightarrow> request_new_window
      | Split i horizontal \<Rightarrow> for_pane i (\<lambda>pane. request_split pane horizontal)
      | Focus i \<Rightarrow> for_pane i request_focus
      | SizeWindow i cols rows \<Rightarrow> for_pane i (\<lambda>pane. request_window_size pane cols rows)
      | SizePane i axis n \<Rightarrow> for_pane i (\<lambda>pane. request_resize_pane pane (resize_axis_of axis) n)
      | AskDetach \<Rightarrow> issue (Submit Detach Fire)
      | AskEnd \<Rightarrow> issue (Submit KillServer Fire))"

definition request :: "tmux_request \<Rightarrow> nat \<Rightarrow> gate_act" where
  "request r now = andthen (with_connection (request_act r) now) publish_status_if_dirty"

definition work_done_act :: "work_done \<Rightarrow> nat \<Rightarrow> gate_act" where
  "work_done_act d now = andthen (with_connection (on_work_done d) now) publish_status_if_dirty"

definition pane_command :: "(bytes \<Rightarrow> bool) \<Rightarrow> pane_id \<Rightarrow> pty_command \<Rightarrow> nat \<Rightarrow> gate_act" where
  "pane_command alt pane cmd now = andthen (with_connection (on_pane_command alt pane cmd) now) publish_status_if_dirty"

definition control_exited :: gate_act where
  "control_exited = andthen (end_connection ExitUnknown)
     (reading (\<lambda>g. if h_phase g \<noteq> PlainPhase then modify reset_gate else nothing))"

end
