(* ===== verification/Connection_Safety.thy ===== *)
theory Connection_Safety
  imports Tmux_Connection
begin

text \<open>
  The invariant of a connection over every operation of
  \<^verbatim>\<open>crates/chan-library/src/terminal_sessions/tmux_connection.rs\<close>, what happens to typed input, and the bounds of a
  capture.
\<close>

section \<open>Keyed lists\<close>

lemma keys_map_entry [simp]: "map fst (AList.map_entry k f al) = map fst al"
  by (induction al) auto

lemma length_map_entry [simp]: "length (AList.map_entry k f al) = length al"
  by (induction al) auto

lemma keys_delete: "map fst (AList.delete k al) = filter (\<lambda>x. x \<noteq> k) (map fst al)"
  by (induction al) auto

lemma length_update_le: "length (AList.update k v al) \<le> Suc (length al)"
  by (induction al) auto

lemma tree_insert_keys: "set (map fst (tree_insert w v m)) = insert w (set (map fst m))"
  by (induction w v m rule: tree_insert.induct) auto

definition ordered :: "(window_id \<times> 'v) list \<Rightarrow> bool" where
  "ordered m \<longleftrightarrow> sorted_wrt (\<lambda>u v. window_num u < window_num v) (map fst m)"

lemma ordered_Nil [simp]: "ordered []"
  by (simp add: ordered_def)

lemma tree_insert_ordered: "ordered m \<Longrightarrow> ordered (tree_insert w v m)"
proof (induction w v m rule: tree_insert.induct)
  case (2 w v u x m)
  have num: "window_num a = window_num b \<longleftrightarrow> a = b" for a b by (cases a; cases b) simp
  from 2 show ?case using tree_insert_keys [of w v m] num by (auto simp: ordered_def simp flip: set_map) force+
qed (simp add: ordered_def)

lemma tree_insert_get: "map_of (tree_insert w v m) = (map_of m)(w \<mapsto> v)"
  if "ordered m"
  using that
proof (induction w v m rule: tree_insert.induct)
  case (2 w v u x m)
  then show ?case by (auto simp: ordered_def fun_eq_iff map_of_eq_None_iff)
qed simp

lemma ordered_delete: "ordered m \<Longrightarrow> ordered (AList.delete w m)"
  unfolding ordered_def keys_delete by (rule sorted_wrt_filter)

lemma ordered_map_entry [simp]: "ordered (AList.map_entry w f m) = ordered m"
  by (simp add: ordered_def)

section \<open>The invariant\<close>

definition backlog_size :: "(pane_id \<times> bytes) list \<Rightarrow> nat" where
  "backlog_size q = sum_list (map (\<lambda>e. length (snd e)) q)"

definition conn_ok :: "connection \<Rightarrow> bool" where
  "conn_ok c \<longleftrightarrow> distinct (map fst (k_panes c)) \<and> length (k_panes c) \<le> PANE_CAP \<and> ordered (k_windows c) \<and>
     k_backlog_bytes c = backlog_size (k_backlog c) \<and> k_backlog_bytes c \<le> INPUT_BACKLOG_MAX \<and>
     length (k_errors c) \<le> ERRORS_MAX \<and> ordered (k_resize_wanted c)"

named_theorems ok_simps

lemma ok_frame [ok_simps]:
  "conn_ok (c\<lparr>k_dirty := d\<rparr>) = conn_ok c"
  "conn_ok (c\<lparr>k_new_windows := n\<rparr>) = conn_ok c"
  "conn_ok (c\<lparr>k_pending := p\<rparr>) = conn_ok c"
  "conn_ok (c\<lparr>k_session := s\<rparr>) = conn_ok c"
  "conn_ok (c\<lparr>k_ending := e\<rparr>) = conn_ok c"
  by (simp_all add: conn_ok_def)

lemma ok_windows [ok_simps]:
  "conn_ok (mark_dirty c) = conn_ok c"
  "conn_ok (update_window w f c) = conn_ok c"
  "conn_ok (forget_token t c) = conn_ok c"
  "conn_ok (submitted t p c) = conn_ok c"
  by (simp_all add: conn_ok_def mark_dirty_def update_window_def forget_token_def submitted_def)

lemma ok_shrink [ok_simps]:
  "conn_ok c \<Longrightarrow> conn_ok (c\<lparr>k_panes := AList.delete i (k_panes c)\<rparr>)"
  "conn_ok c \<Longrightarrow> conn_ok (c\<lparr>k_windows := AList.delete w (k_windows c)\<rparr>)"
  "conn_ok c \<Longrightarrow> conn_ok (c\<lparr>k_windows := tree_insert w x (k_windows c)\<rparr>)"
  "conn_ok c \<Longrightarrow> conn_ok (c\<lparr>k_resize_wanted := tree_insert w r (k_resize_wanted c)\<rparr>)"
  "conn_ok c \<Longrightarrow> conn_ok (c\<lparr>k_resize_wanted := []\<rparr>)"
  "conn_ok c \<Longrightarrow> conn_ok (update_pane i f c)"
  using le_trans [OF length_delete_le]
  by (auto simp: conn_ok_def ordered_delete tree_insert_ordered update_pane_def distinct_delete)

lemma ok_note_error [ok_simps]: "conn_ok c \<Longrightarrow> conn_ok (note_error t c)"
  by (auto simp: conn_ok_def note_error_def ERRORS_MAX_def)

lemma ok_keep_input [ok_simps]: "conn_ok c \<Longrightarrow> conn_ok (keep_input pane bs c)"
  by (auto simp: keep_input_def ok_note_error) (simp add: conn_ok_def backlog_size_def)

lemma ok_add_pane:
  "conn_ok c \<Longrightarrow> \<not> PANE_CAP \<le> length (k_panes c) \<Longrightarrow> conn_ok (c\<lparr>k_panes := AList.update i p (k_panes c)\<rparr>)"
  using length_update_le [of i p "k_panes c"] by (auto simp: conn_ok_def distinct_update)

lemma ok_modify: "(\<And>c. conn_ok c \<Longrightarrow> conn_ok (f c)) \<Longrightarrow> keeps conn_ok (modify f)"
  by (rule keeps_modify)

section \<open>Every operation keeps it\<close>

lemma open_window_ok [keeps_rules]: "keeps conn_ok (open_window w)"
  unfolding open_window_def by (auto simp: ok_simps intro!: keeps_rules keeps_modify)

lemma requests_ok [keeps_rules]:
  "keeps conn_ok request_new_window" "keeps conn_ok (request_split i h)" "keeps conn_ok (request_focus i)"
  "keeps conn_ok (request_resize_pane i a n)"
  unfolding request_new_window_def request_split_def request_focus_def request_resize_pane_def
  by (auto simp: ok_simps intro!: keeps_rules keeps_modify)

lemma send_resizes_ok [keeps_rules]: "keeps conn_ok send_resizes"
  unfolding send_resizes_def by (auto simp: ok_simps intro!: keeps_rules keeps_modify)

lemma request_window_size_ok [keeps_rules]: "keeps conn_ok (request_window_size i cols rows)"
  unfolding request_window_size_def by (auto simp: ok_simps intro!: keeps_rules keeps_modify)

lemma push_layout_ok [keeps_rules]: "keeps conn_ok (push_layout w)"
  unfolding push_layout_def by (intro keeps_rules)

lemma start_ok [keeps_rules]: "keeps conn_ok start"
  unfolding start_def by (auto intro!: keeps_rules)

lemma submit_keys_ok [keeps_rules]: "keeps conn_ok (submit_keys i bs)"
  unfolding submit_keys_def by (intro keeps_rules)

lemma input_ok [keeps_rules]: "keeps conn_ok (input i bs)"
  unfolding input_def by (auto simp: ok_simps intro!: keeps_rules keeps_modify)

lemma submit_keys_state: "fst (submit_keys i bs c) = c"
proof -
  have "fst (acts (map (\<lambda>cmd. issue (Submit cmd Fire)) xs) c) = c" for xs
    by (induction xs) (simp_all add: nothing_def fst_andthen issue_def)
  then show ?thesis by (simp add: submit_keys_def each_def)
qed

lemma drain_backlog_ok:
  "conn_ok c \<Longrightarrow> k_backlog c = q \<Longrightarrow> conn_ok (fst (drain_backlog q c))"
proof (induction q arbitrary: c)
  case (Cons e q)
  obtain i bs where e: "e = (i, bs)" by force
  let ?c = "c\<lparr>k_backlog := q, k_backlog_bytes := k_backlog_bytes c - length bs\<rparr>"
  have "conn_ok ?c" using Cons.prems e by (auto simp: conn_ok_def backlog_size_def)
  then have "conn_ok (fst (drain_backlog q ?c))" by (rule Cons.IH) simp
  then show ?case by (simp add: e fst_andthen modify_def submit_keys_state nothing_def)
qed (simp add: nothing_def)

lemma retry_backlog_ok [keeps_rules]: "keeps conn_ok retry_backlog"
  unfolding retry_backlog_def by (intro keeps_rules keeps_reading drain_backlog_ok) simp_all

lemma window_seen_ok [keeps_rules]: "keeps conn_ok (window_seen w name)"
  unfolding window_seen_def Let_def by (auto simp: ok_simps intro!: keeps_rules keeps_modify)

lemma end_pane_ok [keeps_rules]: "keeps conn_ok (end_pane i e)"
  unfolding end_pane_def by (auto simp: ok_simps intro!: keeps_rules keeps_modify)

lemma remove_chan_window_ok [keeps_rules]: "keeps conn_ok (remove_chan_window i)"
  unfolding remove_chan_window_def by (intro keeps_rules)

lemma window_closed_ok [keeps_rules]: "keeps conn_ok (window_closed w)"
  unfolding window_closed_def by (auto simp: ok_simps intro!: keeps_rules keeps_modify)

lemma add_pane_ok [keeps_rules]: "keeps conn_ok (add_pane w x i)"
  unfolding add_pane_def
  by (rule keeps_reading) (auto simp: fst_andthen modify_def nothing_def issue_def ok_note_error ok_add_pane)

lemma window_panes_ok [keeps_rules]: "keeps conn_ok (window_panes w ids)"
  unfolding window_panes_def by (auto simp: ok_simps intro!: keeps_rules keeps_modify)

lemma note_size_ok [keeps_rules]: "keeps conn_ok (note_size e)"
  unfolding note_size_def by (cases e) (auto intro!: keeps_rules)

lemma layout_changed_ok [keeps_rules]: "keeps conn_ok (layout_changed api w t)"
  unfolding layout_changed_def Let_def
  by (cases "parse_layout api t") (auto simp: ok_simps intro!: keeps_rules keeps_modify)

lemma show_output_ok [keeps_rules]: "keeps conn_ok (show_output i bs)"
  unfolding show_output_def by (intro keeps_rules)

lemma rename_window_ok [keeps_rules]: "keeps conn_ok (rename_window w name)"
  unfolding rename_window_def Let_def by (auto simp: ok_simps intro!: keeps_rules keeps_modify)

lemma on_message_ok [keeps_rules]: "keeps conn_ok (on_message api m)"
  unfolding on_message_def by (cases m) (auto simp: ok_simps intro!: keeps_rules keeps_modify split: option.split)

lemma reply_refused_ok [keeps_rules]: "keeps conn_ok (reply_refused p rows)"
  unfolding reply_refused_def by (cases p) (auto simp: ok_simps intro!: keeps_rules keeps_modify)

lemma window_listed_ok [keeps_rules]: "keeps conn_ok (window_listed api i)"
  unfolding window_listed_def by (auto intro!: keeps_rules)

lemma reply_taken_ok [keeps_rules]: "keeps conn_ok (reply_taken api p rows)"
  unfolding reply_taken_def by (cases p) (auto simp: ok_simps intro!: keeps_rules keeps_modify split: sum.split)

lemma on_reply_ok [keeps_rules]: "keeps conn_ok (on_reply api t result)"
  unfolding on_reply_def by (cases result) (auto simp: ok_simps intro!: keeps_rules keeps_modify)

lemma on_capture_ok [keeps_rules]: "keeps conn_ok (on_capture t s rows)"
  unfolding on_capture_def
  by (intro keeps_readingI) (auto simp: ok_simps intro!: keeps_rules keeps_modify split: option.split purpose.split)

lemma bind_window_ok [keeps_rules]: "keeps conn_ok (bind_window i b s)"
  unfolding bind_window_def by (auto intro!: keeps_rules)

lemma pane_added_ok [keeps_rules]: "keeps conn_ok (pane_added i s)"
  unfolding pane_added_def Let_def by (auto simp: ok_simps intro!: keeps_rules keeps_modify)

lemma window_minted_ok [keeps_rules]: "keeps conn_ok (window_minted w i)"
  unfolding window_minted_def by (auto simp: ok_simps intro!: keeps_rules keeps_modify)

lemma on_work_done_ok [keeps_rules]: "keeps conn_ok (on_work_done d)"
  unfolding on_work_done_def by (cases d) (auto simp: ok_simps intro!: keeps_rules keeps_modify)

lemma on_pane_command_ok [keeps_rules]: "keeps conn_ok (on_pane_command alt i cmd)"
  unfolding on_pane_command_def by (cases cmd) (auto intro!: keeps_rules)

lemma drop_window_ok [keeps_rules]: "keeps conn_ok (drop_window w)"
  unfolding drop_window_def by (auto simp: ok_simps intro!: keeps_rules keeps_modify)

lemma on_end_ok [keeps_rules]: "keeps conn_ok (on_end e)"
  unfolding on_end_def by (auto intro!: keeps_rules keeps_modify) (simp add: conn_ok_def backlog_size_def)

lemma event_steps_ok [keeps_rules]: "keeps conn_ok (event_steps api e)"
  unfolding event_steps_def by (cases e) (auto intro!: keeps_rules)

lemma new_connection_ok: "conn_ok (new_connection i v origin mb s)"
  by (simp add: conn_ok_def new_connection_def backlog_size_def ordered_def)

section \<open>Typed input\<close>

text \<open>The keys among the steps, and input as a sequence of bytes each with its pane.\<close>

definition typed :: "step list \<Rightarrow> (pane_id \<times> bytes) list" where
  "typed steps = List.map_filter (\<lambda>s. case s of Submit (SendKeys pane bs) _ \<Rightarrow> Some (pane, bs) | _ \<Rightarrow> None) steps"

definition written_by :: "gate_action list \<Rightarrow> bytes list" where
  "written_by as = List.map_filter (\<lambda>a. case a of Write bs \<Rightarrow> Some bs | _ \<Rightarrow> None) as"

definition direct :: "step list \<Rightarrow> gate_action list" where
  "direct steps = List.map_filter (\<lambda>s. case s of Act a \<Rightarrow> Some a | _ \<Rightarrow> None) steps"

definition flow :: "(pane_id \<times> bytes) list \<Rightarrow> (pane_id \<times> byte) list" where
  "flow q = concat (map (\<lambda>e. map (Pair (fst e)) (snd e)) q)"

lemma map_filter_append: "List.map_filter f (xs @ ys) = List.map_filter f xs @ List.map_filter f ys"
  by (simp add: List.map_filter_def)

lemma steps_append [simp]:
  "typed (xs @ ys) = typed xs @ typed ys" "direct (xs @ ys) = direct xs @ direct ys"
  "written_by (as @ bs) = written_by as @ written_by bs" "flow (p @ q) = flow p @ flow q"
  by (simp_all add: typed_def direct_def written_by_def flow_def map_filter_append)

lemma steps_Nil [simp]: "typed [] = []" "direct [] = []" "written_by [] = []" "flow [] = []"
  by (simp_all add: typed_def direct_def written_by_def flow_def List.map_filter_def)

text \<open>An act that neither types nor writes nor touches the backlog.\<close>

definition quiet_act :: "conn_act \<Rightarrow> bool" where
  "quiet_act f \<longleftrightarrow> (\<forall>c. typed (fst (snd (f c))) = [] \<and> written_by (direct (fst (snd (f c)))) = [] \<and>
     k_backlog (fst (f c)) = k_backlog c \<and> k_backlog_bytes (fst (f c)) = k_backlog_bytes c)"

named_theorems quiet_rules

lemma quiet_nothing [quiet_rules]: "quiet_act nothing"
  by (simp add: quiet_act_def nothing_def)

lemma quiet_effect [quiet_rules]: "quiet_act (effect e)"
  by (simp add: quiet_act_def effect_def)

lemma quiet_work [quiet_rules]: "quiet_act (issue (Act (Work w)))"
  by (simp add: quiet_act_def issue_def typed_def direct_def written_by_def List.map_filter_def)

lemma quiet_submit: "\<forall>pane bs. cmd \<noteq> SendKeys pane bs \<Longrightarrow> quiet_act (issue (Submit cmd p))"
  by (cases cmd) (simp_all add: quiet_act_def issue_def typed_def direct_def written_by_def List.map_filter_def)

lemma quiet_modify: "(\<And>c. k_backlog (f c) = k_backlog c \<and> k_backlog_bytes (f c) = k_backlog_bytes c) \<Longrightarrow> quiet_act (modify f)"
  by (simp add: quiet_act_def modify_def)

lemma quiet_andthen [quiet_rules]: "quiet_act f \<Longrightarrow> quiet_act g \<Longrightarrow> quiet_act (andthen f g)"
  by (simp add: quiet_act_def fst_andthen out_andthen)

lemma quiet_acts [quiet_rules]: "(\<And>f. f \<in> set fs \<Longrightarrow> quiet_act f) \<Longrightarrow> quiet_act (acts fs)"
  by (induction fs) (simp_all add: quiet_nothing quiet_andthen)

lemma quiet_each [quiet_rules]: "(\<And>x. x \<in> set xs \<Longrightarrow> quiet_act (f x)) \<Longrightarrow> quiet_act (each xs f)"
  unfolding each_def by (rule quiet_acts) auto

lemma quiet_reading [quiet_rules]: "(\<And>c. quiet_act (f c)) \<Longrightarrow> quiet_act (reading f)"
  by (simp add: quiet_act_def reading_def)

lemma quiet_if [quiet_rules]: "(b \<Longrightarrow> quiet_act f) \<Longrightarrow> (\<not> b \<Longrightarrow> quiet_act g) \<Longrightarrow> quiet_act (if b then f else g)"
  by simp

lemma quiet_option [quiet_rules]:
  "(x = None \<Longrightarrow> quiet_act f) \<Longrightarrow> (\<And>y. x = Some y \<Longrightarrow> quiet_act (g y)) \<Longrightarrow> quiet_act (case x of None \<Rightarrow> f | Some y \<Rightarrow> g y)"
  by (cases x) simp_all

lemmas backlog_frame = update_window_def mark_dirty_def update_pane_def forget_token_def note_error_def

lemma send_resizes_quiet [quiet_rules]: "quiet_act send_resizes"
  unfolding send_resizes_def resize_command_def
  by (auto intro!: quiet_rules quiet_modify quiet_submit split: prod.split if_splits)

lemma push_layout_quiet [quiet_rules]: "quiet_act (push_layout w)"
  unfolding push_layout_def by (intro quiet_rules)

lemma end_pane_quiet [quiet_rules]: "quiet_act (end_pane i e)"
  unfolding end_pane_def by (auto simp: backlog_frame intro!: quiet_rules quiet_modify)

lemma add_pane_quiet [quiet_rules]: "quiet_act (add_pane w x i)"
  unfolding add_pane_def by (auto simp: backlog_frame intro!: quiet_rules quiet_modify)

lemma window_panes_quiet [quiet_rules]: "quiet_act (window_panes w ids)"
  unfolding window_panes_def by (auto simp: backlog_frame intro!: quiet_rules quiet_modify)

lemma window_seen_quiet [quiet_rules]: "quiet_act (window_seen w name)"
  unfolding window_seen_def Let_def by (auto simp: backlog_frame intro!: quiet_rules quiet_modify quiet_submit)

lemma layout_changed_quiet [quiet_rules]: "quiet_act (layout_changed api w t)"
  unfolding layout_changed_def note_size_def Let_def
  by (cases "parse_layout api t") (auto simp: backlog_frame intro!: quiet_rules quiet_modify split: prod.split)

lemma reply_refused_quiet [quiet_rules]: "quiet_act (reply_refused p rows)"
  unfolding reply_refused_def by (cases p) (auto simp: backlog_frame intro!: quiet_rules quiet_modify)

lemma reply_taken_quiet [quiet_rules]: "quiet_act (reply_taken api p rows)"
  unfolding reply_taken_def window_listed_def
  by (cases p) (auto simp: backlog_frame intro!: quiet_rules quiet_modify split: sum.split)

text \<open>
  The law of the input: what an act types, followed by what it leaves in the backlog, is what the backlog
  held followed by the new input; it types only when it leaves the backlog empty, and an empty backlog stays so.
\<close>

definition carries :: "conn_act \<Rightarrow> (pane_id \<times> byte) list \<Rightarrow> connection \<Rightarrow> bool" where
  "carries f new c \<longleftrightarrow>
     flow (typed (fst (snd (f c)))) @ flow (k_backlog (fst (f c))) = flow (k_backlog c) @ new \<and>
     (typed (fst (snd (f c))) \<noteq> [] \<or> k_backlog c = [] \<longrightarrow> k_backlog (fst (f c)) = []) \<and>
     written_by (direct (fst (snd (f c)))) = []"

lemma carries_quiet: "quiet_act f \<Longrightarrow> carries f [] c"
  by (simp add: quiet_act_def carries_def)

lemma carries_andthen:
  assumes "carries f xs c" "carries g ys (fst (f c))"
  shows "carries (andthen f g) (xs @ ys) c"
  unfolding carries_def fst_andthen out_andthen steps_append
proof (intro conjI)
  let ?b1 = "flow (k_backlog (fst (f c)))"
  have f: "flow (typed (fst (snd (f c)))) @ ?b1 = flow (k_backlog c) @ xs" using assms(1) by (simp add: carries_def)
  have g: "flow (typed (fst (snd (g (fst (f c)))))) @ flow (k_backlog (fst (g (fst (f c))))) = ?b1 @ ys"
    using assms(2) by (simp add: carries_def)
  show "(flow (typed (fst (snd (f c)))) @ flow (typed (fst (snd (g (fst (f c))))))) @ flow (k_backlog (fst (g (fst (f c))))) =
      flow (k_backlog c) @ xs @ ys"
    using f g by (metis append.assoc)
qed (use assms in \<open>auto simp: carries_def\<close>)

lemma carries_then_quiet: "carries f new c \<Longrightarrow> quiet_act g \<Longrightarrow> carries (andthen f g) new c"
  using carries_andthen [of f new c g "[]"] carries_quiet [of g] by simp

lemma quiet_then_carries: "quiet_act f \<Longrightarrow> carries g new (fst (f c)) \<Longrightarrow> carries (andthen f g) new c"
  using carries_andthen [of f "[]" c g new] carries_quiet [of f] by simp

lemma keys_out:
  "fst (snd (acts (map (\<lambda>cmd. issue (Submit cmd Fire)) cmds) c)) = map (\<lambda>cmd. Submit cmd Fire) cmds"
  by (induction cmds) (simp_all add: nothing_def out_andthen issue_def fst_andthen)

lemma submit_keys_out: "fst (snd (submit_keys i bs c)) = map (\<lambda>cmd. Submit cmd Fire) (send_keys i bs)"
  by (simp add: submit_keys_def each_def keys_out)

lemma typed_keys:
  "typed (map (\<lambda>cmd. Submit cmd Fire) (send_keys i bs)) = map (Pair i) (chunks MAX_KEY_BYTES bs)"
  "direct (map (\<lambda>cmd. Submit cmd Fire) (send_keys i bs)) = []"
  by (simp_all add: typed_def direct_def send_keys_def List.map_filter_def comp_def)

lemma flow_chunks: "flow (map (Pair i) (chunks MAX_KEY_BYTES bs)) = map (Pair i) bs"
proof -
  have "flow (map (Pair i) cs) = map (Pair i) (concat cs)" for cs :: "bytes list" by (induction cs) (simp_all add: flow_def)
  then show ?thesis using concat_chunks [of MAX_KEY_BYTES bs] by (simp add: MAX_KEY_BYTES_def)
qed

lemma input_carries:
  assumes "k_backlog_bytes c + length bs \<le> INPUT_BACKLOG_MAX"
  shows "carries (input i bs) (map (Pair i) bs) c"
proof -
  consider "bs = []" | "bs \<noteq> []" "k_backlog c \<noteq> []" | "bs \<noteq> []" "k_backlog c = []" by blast
  then show ?thesis
  proof cases
    case 2
    then show ?thesis using assms
      by (simp add: carries_def input_def reading_def modify_def keep_input_def) (simp add: flow_def)
  next
    case 3
    then show ?thesis
      by (simp add: carries_def input_def reading_def submit_keys_out submit_keys_state typed_keys flow_chunks)
  qed (simp add: carries_def input_def reading_def nothing_def)
qed

lemma drain_backlog_out:
  "k_backlog c = q \<Longrightarrow>
    typed (fst (snd (drain_backlog q c))) = concat (map (\<lambda>e. map (Pair (fst e)) (chunks MAX_KEY_BYTES (snd e))) q) \<and>
    direct (fst (snd (drain_backlog q c))) = [] \<and> k_backlog (fst (drain_backlog q c)) = []"
proof (induction q arbitrary: c)
  case (Cons e q)
  obtain i bs where e: "e = (i, bs)" by force
  let ?c = "c\<lparr>k_backlog := q, k_backlog_bytes := k_backlog_bytes c - length bs\<rparr>"
  from Cons.IH [of ?c] show ?case
    by (simp add: e fst_andthen out_andthen modify_def submit_keys_state submit_keys_out nothing_def typed_keys)
qed (simp add: nothing_def)

lemma retry_backlog_carries: "carries retry_backlog [] c"
proof -
  have "flow (concat (map (\<lambda>e. map (Pair (fst e)) (chunks MAX_KEY_BYTES (snd e))) q)) = flow q" for q
    by (induction q) (simp_all add: flow_chunks, simp add: flow_def)
  then have "carries (reading (\<lambda>c. drain_backlog (k_backlog c))) [] c"
    using drain_backlog_out [OF refl, of c] by (simp add: carries_def reading_def)
  then show ?thesis unfolding retry_backlog_def by (rule carries_then_quiet [OF _ send_resizes_quiet])
qed

text \<open>The input a command of a pane brings.\<close>

definition command_input :: "pty_command \<Rightarrow> bytes" where
  "command_input cmd =
     (case cmd of Input bs \<Rightarrow> bs | InputSequence parts _ \<Rightarrow> concat parts | ProgramStatusReply r \<Rightarrow> query_bytes r | _ \<Rightarrow> [])"

lemma input_backlog_bytes:
  "k_backlog_bytes (fst (input i bs c)) \<le> k_backlog_bytes c + length bs"
  by (simp add: input_def reading_def modify_def nothing_def submit_keys_state keep_input_def note_error_def)

lemma inputs_carry:
  "k_backlog_bytes c + length (concat parts) \<le> INPUT_BACKLOG_MAX \<Longrightarrow>
    carries (each parts (input i)) (map (Pair i) (concat parts)) c"
proof (induction parts arbitrary: c)
  case (Cons bs parts)
  have "carries (input i bs) (map (Pair i) bs) c" using Cons.prems by (intro input_carries) simp
  moreover have "carries (each parts (input i)) (map (Pair i) (concat parts)) (fst (input i bs c))"
    using Cons.prems input_backlog_bytes [of i bs c] by (intro Cons.IH) simp
  ultimately show ?case by (simp add: carries_andthen)
qed (simp add: carries_def nothing_def)

lemma pane_command_carries:
  assumes "pane_of c i = Some p" "k_backlog_bytes c + length (command_input cmd) \<le> INPUT_BACKLOG_MAX"
  shows "carries (on_pane_command alt i cmd) (map (Pair i) (command_input cmd)) c"
proof (cases cmd)
  case (InputSequence parts gap)
  then show ?thesis using assms inputs_carry [of c parts i] by (simp add: on_pane_command_def reading_def carries_def command_input_def)
next
  case (Input bs)
  then show ?thesis using assms input_carries [of c bs i] by (simp add: on_pane_command_def reading_def carries_def command_input_def)
next
  case (ProgramStatusReply r)
  then show ?thesis using assms input_carries [of c "query_bytes r" i]
    by (simp add: on_pane_command_def reading_def carries_def command_input_def)
qed (use assms carries_quiet [OF quiet_nothing, of c] carries_quiet [OF quiet_submit, of "CapturePane i 0" "ForCapture i" c]
    carries_quiet [OF quiet_submit, of "KillPane i" Fire c]
    in \<open>simp_all add: on_pane_command_def reading_def carries_def command_input_def\<close>)

lemma reply_carries: "carries (on_reply api t result) [] c"
proof (cases "k_pending c t")
  case None
  then show ?thesis using carries_quiet [OF quiet_nothing, of c] by (simp add: on_reply_def reading_def carries_def)
next
  case (Some p)
  have m: "quiet_act (modify (forget_token t))" by (rule quiet_modify) (simp add: forget_token_def)
  have r: "quiet_act (case result of Inl rows \<Rightarrow> reply_refused p rows | Inr rows \<Rightarrow> reply_taken api p rows)"
    by (cases result) (simp_all add: reply_refused_quiet reply_taken_quiet)
  have "carries (acts [modify (forget_token t), retry_backlog,
      (case result of Inl rows \<Rightarrow> reply_refused p rows | Inr rows \<Rightarrow> reply_taken api p rows)]) [] c"
    unfolding acts.simps
    by (intro quiet_then_carries [OF m] carries_then_quiet [OF retry_backlog_carries] quiet_andthen [OF r quiet_nothing])
  then show ?thesis using Some by (simp add: on_reply_def reading_def carries_def)
qed

section \<open>Captures\<close>

lemma capture_rows_bounded:
  "capture_history_rows mb cols \<le> CAPTURE_ROWS_MAX \<and>
    capture_history_rows mb cols * (max cols 1 * CAPTURE_BYTES_PER_CELL + 2) \<le> REPLY_BYTES_MAX div 2"
proof -
  let ?n = "max cols 1 * CAPTURE_BYTES_PER_CELL + 2"
  have "capture_history_rows mb cols \<le> (REPLY_BYTES_MAX div 2) div ?n"
    unfolding capture_history_rows_def Let_def by (rule le_trans [OF min.cobounded1 min.cobounded2])
  then have "capture_history_rows mb cols * ?n \<le> (REPLY_BYTES_MAX div 2) div ?n * ?n" by (rule mult_le_mono1)
  also have "\<dots> \<le> REPLY_BYTES_MAX div 2" by (rule div_times_less_eq_dividend)
  finally have "capture_history_rows mb cols * ?n \<le> REPLY_BYTES_MAX div 2" .
  moreover have "capture_history_rows mb cols \<le> CAPTURE_ROWS_MAX" unfolding capture_history_rows_def Let_def by (rule min.cobounded2)
  ultimately show ?thesis by (intro conjI)
qed

section \<open>Properties\<close>

text \<open>
  C12. Typed input is neither lost nor repeated nor reordered while the backlog has room: the keys a command
  of a pane asks to send, followed by what is left in the backlog, are the backlog as it was followed by
  the bytes of the command; a reply asks to send the whole backlog in order. Keys go out only when nothing
  older is left behind.
\<close>

theorem typed_input_preserved:
  assumes "pane_of c pane = Some p" "k_backlog_bytes c + length (command_input cmd) \<le> 65536"
  shows "(case on_pane_command alt pane cmd c of (c', steps, _) \<Rightarrow>
      flow (typed steps) @ flow (k_backlog c') = flow (k_backlog c) @ map (Pair pane) (command_input cmd) \<and>
      (typed steps \<noteq> [] \<longrightarrow> k_backlog c' = [])) \<and>
    (case on_reply api t result c of (c', steps, _) \<Rightarrow>
      flow (typed steps) @ flow (k_backlog c') = flow (k_backlog c) \<and> (typed steps \<noteq> [] \<longrightarrow> k_backlog c' = []))"
  using pane_command_carries [OF assms(1), of cmd alt] assms(2) reply_carries [of api t result c]
  by (simp add: carries_def INPUT_BACKLOG_MAX_def case_prod_unfold)

definition demo_connection :: connection where
  "demo_connection = (new_connection 1 (TmuxVersion 3 4) \<lparr>or_program = ''tmux'', or_command = None, or_local = True\<rparr> 10 None)
     \<lparr>k_panes := [(PaneId 0, \<lparr>pn_window = WindowId 0, pn_session = Some ''s'', pn_captured = True, pn_requested = False\<rparr>)],
      k_backlog := [(PaneId 0, ''ls'')], k_backlog_bytes := 2, k_pending := [Token 5 \<mapsto> Fire]\<rparr>"

definition demo_api :: "unit json_api" where
  "demo_api = \<lparr>json_from_str = \<lambda>_. None, json_get = \<lambda>_ _. None, json_as_u64 = \<lambda>_. None, json_as_str = \<lambda>_. None,
     json_as_array = \<lambda>_. None\<rparr>"

theorem typed_input_preserved_witness:
  "(case on_pane_command (\<lambda>_. False) (PaneId 0) (Input ''-l'') demo_connection of (c', steps, _) \<Rightarrow>
      flow (typed steps) @ flow (k_backlog c') = map (Pair (PaneId 0)) ''ls-l'') \<and>
   (case on_reply demo_api (Token 5) (Inr []) demo_connection of (c', steps, _) \<Rightarrow>
      flow (typed steps) @ flow (k_backlog c') = map (Pair (PaneId 0)) ''ls'')"
proof -
  have p: "pane_of demo_connection (PaneId 0) =
      Some \<lparr>pn_window = WindowId 0, pn_session = Some ''s'', pn_captured = True, pn_requested = False\<rparr>"
    and b: "k_backlog_bytes demo_connection + length (command_input (Input ''-l'')) \<le> 65536"
    and f: "flow (k_backlog demo_connection) = map (Pair (PaneId 0)) ''ls''"
    by (simp_all add: demo_connection_def command_input_def flow_def)
  show ?thesis
    using typed_input_preserved [OF p b, of "\<lambda>_. False" demo_api "Token 5" "Inr []"] unfolding f
    by (auto simp: command_input_def split: prod.splits)
qed

end
