(* ===== verification/Gate_Safety.thy ===== *)
theory Gate_Safety
  imports Tmux_Gate Connection_Safety
begin

text \<open>
  The guarantees of the control-mode gate, \<^verbatim>\<open>crates/chan-library/src/terminal_sessions/tmux_gate.rs\<close>: what is
  written before a consent, that a question is withdrawn at its deadline, and the invariant of every connection it drives.
\<close>

section \<open>Every connection the gate drives\<close>

definition gate_ok :: "gate \<Rightarrow> bool" where
  "gate_ok g = (case h_phase g of Connected v c \<Rightarrow> VERSION_FLOOR \<le> v \<and> conn_ok c | _ \<Rightarrow> True)"

lemma gate_ok_simps [simp]:
  "gate_ok (g\<lparr>h_client := cl\<rparr>) = gate_ok g"
  "gate_ok (g\<lparr>h_phase := ph\<rparr>) = (case ph of Connected v c \<Rightarrow> VERSION_FLOOR \<le> v \<and> conn_ok c | _ \<Rightarrow> True)"
  "gate_ok (g\<lparr>h_policy := pol\<rparr>) = gate_ok g"
  "gate_ok (g\<lparr>h_allow_for_tab := b\<rparr>) = gate_ok g"
  "gate_ok (g\<lparr>h_next_connection := n\<rparr>) = gate_ok g"
  "gate_ok (publish_question q g) = gate_ok g"
  "gate_ok (reset_gate g)"
  by (simp_all add: gate_ok_def publish_question_def reset_gate_def)

lemma drive_ok: "conn_ok c \<Longrightarrow> conn_ok (fst (snd (drive cl c steps)))"
proof (induction steps arbitrary: cl c)
  case (Cons s steps)
  show ?case
  proof (cases s)
    case (Submit cmd p)
    have k: "conn_ok (case cmd of SendKeys pane bs \<Rightarrow> keep_input pane bs c | _ \<Rightarrow> c)"
      using Cons.prems by (cases cmd) (simp_all add: ok_keep_input)
    obtain cl1 r where r: "submit cl cmd = (cl1, r)" by force
    show ?thesis
    proof (cases r)
      case (Inr x)
      obtain t bs where "x = (t, bs)" by force
      then show ?thesis using Submit r Inr Cons by (simp add: ok_windows case_prod_unfold)
    next
      case (Inl e)
      then show ?thesis using Submit r Cons k by (cases e) simp_all
    qed
  qed (use Cons in \<open>simp add: case_prod_unfold\<close>)
qed simp

lemma keeps_issue_all [keeps_rules]: "keeps I (issue_all xs)" and keeps_effect_all [keeps_rules]: "keeps I (effect_all es)"
  by (simp_all add: keeps_def issue_all_def effect_all_def)

lemma end_connection_gate [keeps_rules]: "keeps gate_ok (end_connection e)"
  unfolding end_connection_def
proof (rule keeps_reading)
  fix g
  assume g: "gate_ok g"
  show "gate_ok (fst ((case h_phase g of Connected v c \<Rightarrow> (case on_end e c of (c', steps, effects) \<Rightarrow> acts
      [modify (\<lambda>g. g\<lparr>h_phase := Connected v c'\<rparr>), effect_all effects, issue_all (step_actions steps), issue (Work Ended)])
    | _ \<Rightarrow> nothing) g))"
  proof (cases "h_phase g")
    case (Connected v c)
    then have "VERSION_FLOOR \<le> v" "conn_ok (fst (on_end e c))" using g keepsD [OF on_end_ok] by (auto simp: gate_ok_def)
    then show ?thesis using Connected
      by (simp add: case_prod_unfold fst_andthen modify_def effect_all_def issue_all_def issue_def nothing_def)
  qed (use g in \<open>simp_all add: nothing_def\<close>)
qed

lemma submit_or_skip_gate [keeps_rules]: "keeps gate_ok (submit_or_skip cmd)"
  unfolding submit_or_skip_def
  by (intro keeps_readingI) (auto intro!: keeps_rules keeps_modify split: prod.split sum.split)

lemma end_control_gate [keeps_rules]: "keeps gate_ok (end_control t now)"
  unfolding end_control_def by (auto intro!: keeps_rules keeps_modify)

lemma end_gate_gate [keeps_rules]: "keeps gate_ok (end_gate t)"
  unfolding end_gate_def by (auto intro!: keeps_rules keeps_modify)

lemma exited_gate [keeps_rules]: "keeps gate_ok (exited what reason)"
  unfolding exited_def by (auto intro!: keeps_rules keeps_modify)

lemma deny_gate [keeps_rules]: "keeps gate_ok (deny why now)"
  unfolding deny_def by (auto intro!: keeps_rules keeps_modify)

lemma publish_status_gate [keeps_rules]: "keeps gate_ok publish_status_if_dirty"
  unfolding publish_status_if_dirty_def
proof (rule keeps_reading)
  fix g
  assume "gate_ok g"
  then show "gate_ok (fst ((case h_phase g of Connected v c \<Rightarrow> (case take_dirty c of (c', dirty) \<Rightarrow> andthen
      (modify (\<lambda>g. g\<lparr>h_phase := Connected v c'\<rparr>)) (if dirty then issue (Work (StatusWork (status_of c'))) else nothing))
    | _ \<Rightarrow> nothing) g))"
    by (cases "h_phase g") (simp_all add: gate_ok_def nothing_def fst_andthen modify_def issue_def take_dirty_def ok_frame)
qed

lemma with_connection_gate:
  assumes f: "keeps conn_ok f"
  shows "keeps gate_ok (with_connection f now)"
  unfolding with_connection_def
proof (rule keeps_reading)
  fix g
  assume g: "gate_ok g"
  show "gate_ok (fst ((case h_phase g of Connected v c \<Rightarrow> (case f c of (c1, steps, effects) \<Rightarrow>
      (case drive (h_client g) c1 steps of (cl, c2, as, e) \<Rightarrow> acts
         [modify (\<lambda>g. g\<lparr>h_client := cl, h_phase := Connected v c2\<rparr>), effect_all effects, issue_all as,
          (case e of None \<Rightarrow> nothing | Some e \<Rightarrow> end_control (ended_text e) now)])) | _ \<Rightarrow> nothing) g))"
  proof (cases "h_phase g")
    case (Connected v c)
    obtain c1 steps effects where s: "f c = (c1, steps, effects)" by (metis surj_pair)
    obtain cl c2 as e where d: "drive (h_client g) c1 steps = (cl, c2, as, e)" by (metis surj_pair)
    have v: "VERSION_FLOOR \<le> v" "conn_ok c" using g Connected by (simp_all add: gate_ok_def)
    have "conn_ok c1" using keepsD [OF f v(2)] s by simp
    then have "conn_ok c2" using drive_ok [of c1 "h_client g" steps] d by simp
    then have "gate_ok (g\<lparr>h_client := cl, h_phase := Connected v c2\<rparr>)" using v(1) by simp
    then show ?thesis using Connected s d keepsD [OF end_control_gate]
      by (cases e) (simp_all add: fst_andthen modify_def effect_all_def issue_all_def nothing_def)
  qed (use g in \<open>simp_all add: nothing_def\<close>)
qed

lemma connect_gate:
  assumes "VERSION_FLOOR \<le> v"
  shows "keeps gate_ok (connect v s origin now)"
  unfolding connect_def
proof (rule keeps_reading)
  fix g
  assume g: "gate_ok g"
  let ?c0 = "new_connection (h_next_connection g) v origin (h_scrollback_mb g) s"
  obtain c1 steps x where st: "start ?c0 = (c1, steps, x)" by (metis surj_pair)
  obtain cl c2 as e where d: "drive (h_client g) c1 steps = (cl, c2, as, e)" by (metis surj_pair)
  have "conn_ok c1" using keepsD [OF start_ok new_connection_ok] st by (metis fst_conv)
  then have c2: "conn_ok c2" using drive_ok [of c1 "h_client g" steps] d by simp
  let ?g = "g\<lparr>h_next_connection := (h_next_connection g + 1) mod 2 ^ 64, h_client := cl\<rparr>"
  have "gate_ok ?g" using g by simp
  moreover have "gate_ok (?g\<lparr>h_phase := Connected v c2\<rparr>)" using assms c2 by simp
  ultimately show "gate_ok (fst ((let i = h_next_connection g; c0 = new_connection i v origin (h_scrollback_mb g) s in
      case start c0 of (c1, steps, _) \<Rightarrow> (case drive (h_client g) c1 steps of (cl, c2, as, e) \<Rightarrow> acts
        [modify (\<lambda>g. g\<lparr>h_next_connection := (i + 1) mod 2 ^ 64, h_client := cl\<rparr>),
         issue (Notice (''tmux '' @ show_version v @ '' control mode'')), issue (Work (StartGateway i)),
         issue (ControlWindow (control_title origin)), issue_all as,
         (case e of Some e \<Rightarrow> end_control (ended_text e) now
          | None \<Rightarrow> andthen (modify (\<lambda>g. g\<lparr>h_phase := Connected v c2\<rparr>)) publish_status_if_dirty)])) g))"
    using st d keepsD [OF end_control_gate] keepsD [OF publish_status_gate]
    by (cases e) (simp_all add: Let_def fst_andthen modify_def issue_def issue_all_def nothing_def)
qed

lemma probed_gate [keeps_rules]: "keeps gate_ok (probed result now)"
  unfolding probed_def
  by (intro keeps_readingI) (auto intro!: keeps_rules keeps_modify connect_gate split: phase.split)

lemma announced_gate [keeps_rules]: "keeps gate_ok (announced s name now)"
  unfolding announced_def
  by (intro keeps_readingI) (auto intro!: keeps_rules keeps_modify split: phase.split prod.split sum.split)

lemma probing_event_gate [keeps_rules]: "keeps gate_ok (probing_event probe e now)"
  unfolding probing_event_def by (auto intro!: keeps_rules split: event.split message.split)

lemma gate_event_gate [keeps_rules]: "keeps gate_ok (gate_event api e now)"
  unfolding gate_event_def
  by (intro keeps_readingI) (auto intro!: keeps_rules keeps_modify with_connection_gate split: phase.split event.split)

lemma entered_gate_ok [simp]: "gate_ok (entered_gate fg now g)" if "gate_ok g"
  using that by (simp add: entered_gate_def Let_def)

lemma feed_events_gate: "gate_ok g \<Longrightarrow> gate_ok (fst (feed_events api fg now es g))"
proof (induction es arbitrary: g fg)
  case (Cons e es)
  have "gate_ok (fst (feed_events api fg now es (fst (gate_event api e now g))))"
    by (rule Cons.IH [OF keepsD [OF gate_event_gate Cons.prems]])
  then show ?case using Cons by (cases e) (simp_all add: case_prod_unfold)
qed simp

lemma count_held_gate [simp]: "gate_ok (count_held n g) = gate_ok g"
  by (simp add: count_held_def gate_ok_def split: phase.split)

lemma gate_feed_gate:
  assumes "gate_ok g"
  shows "gate_ok (fst (gate_feed api bs now fg g))"
proof -
  let ?g = "count_held (length bs) g"
  obtain cl r where c: "client_feed (h_client ?g) bs = (cl, r)" by force
  have "gate_ok (?g\<lparr>h_client := cl\<rparr>)" "gate_ok ?g" using assms by simp_all
  then show ?thesis
    using c keepsD [OF deny_gate] keepsD [OF end_gate_gate] keepsD [OF publish_status_gate feed_events_gate, of _ api]
    by (cases r) (simp_all add: gate_feed_def Let_def case_prod_unfold)
qed

lemma answer_gate [keeps_rules]: "keeps gate_ok (answer api a now)"
  unfolding answer_def
  by (intro keeps_readingI) (auto intro!: keeps_rules keeps_modify split: phase.split)

lemma tick_gate [keeps_rules]: "keeps gate_ok (tick now)"
  unfolding tick_def by (intro keeps_readingI) (auto intro!: keeps_rules keeps_modify split: phase.split)

lemma request_act_ok: "keeps conn_ok (request_act r)"
  unfolding request_act_def for_pane_def by (cases r) (auto intro!: keeps_rules)

lemma calls_gate [keeps_rules]:
  "keeps gate_ok (request r now)" "keeps gate_ok (work_done_act d now)" "keeps gate_ok (pane_command alt i cmd now)"
  "keeps gate_ok control_exited"
  unfolding request_def work_done_act_def pane_command_def control_exited_def
  by (auto intro!: keeps_rules keeps_modify with_connection_gate request_act_ok)

text \<open>Every call the session makes of its gate, in any order.\<close>

inductive gate_reach :: "'v json_api \<Rightarrow> gate \<Rightarrow> bool" for api where
  made: "gate_reach api (new_gate pol mb)"
| policy: "gate_reach api g \<Longrightarrow> gate_reach api (set_policy pol g)"
| fed: "gate_reach api g \<Longrightarrow> gate_reach api (fst (gate_feed api bs now fg g))"
| answered: "gate_reach api g \<Longrightarrow> gate_reach api (fst (answer api a now g))"
| ticked: "gate_reach api g \<Longrightarrow> gate_reach api (fst (tick now g))"
| requested: "gate_reach api g \<Longrightarrow> gate_reach api (fst (request r now g))"
| worked: "gate_reach api g \<Longrightarrow> gate_reach api (fst (work_done_act d now g))"
| commanded: "gate_reach api g \<Longrightarrow> gate_reach api (fst (pane_command alt i cmd now g))"
| over: "gate_reach api g \<Longrightarrow> gate_reach api (fst (control_exited g))"

inductive_cases gate_reachE: "gate_reach api g"

lemma gate_reach_ok: "gate_reach api g \<Longrightarrow> gate_ok g"
  by (induction rule: gate_reach.induct)
    (simp_all add: gate_feed_gate keepsD [OF answer_gate] keepsD [OF tick_gate] keepsD [OF calls_gate(1)]
      keepsD [OF calls_gate(2)] keepsD [OF calls_gate(3)] keepsD [OF calls_gate(4)] set_policy_def,
     simp add: gate_ok_def new_gate_def)

section \<open>Before a consent\<close>

text \<open>A gate nobody has said yes to, and what it may do meanwhile: say something to the user, or write one newline.\<close>

definition unasked :: "gate \<Rightarrow> bool" where
  "unasked g \<longleftrightarrow> \<not> h_allow_for_tab g \<and> (case h_phase g of Probing _ _ _ _ \<Rightarrow> False | Connected _ _ \<Rightarrow> False | _ \<Rightarrow> True)"

definition harmless :: "gate_action \<Rightarrow> bool" where
  "harmless a = (case a of Notice _ \<Rightarrow> True | Write bs \<Rightarrow> bs = [byte_of 10] | _ \<Rightarrow> False)"

definition calm :: "gate_act \<Rightarrow> bool" where
  "calm f \<longleftrightarrow> (\<forall>g. unasked g \<longrightarrow> (case f g of (g', as, effs) \<Rightarrow> unasked g' \<and> list_all harmless as \<and> effs = []))"

lemma calmD: "calm f \<Longrightarrow> unasked g \<Longrightarrow> f g = (g', as, effs) \<Longrightarrow> unasked g' \<and> list_all harmless as \<and> effs = []"
  by (auto simp: calm_def)

lemma unasked_simps [simp]:
  "unasked (g\<lparr>h_client := cl\<rparr>) = unasked g" "unasked (publish_question q g) = unasked g"
  "unasked (count_held n g) = unasked g" "unasked g \<Longrightarrow> unasked (reset_gate g)" "unasked (set_policy pol g) = unasked g"
  by (simp_all add: unasked_def publish_question_def reset_gate_def set_policy_def count_held_def split: phase.split)

lemma deny_calm: "calm (deny why now)"
  by (simp add: calm_def deny_def andthen_def act_defs unasked_def harmless_def publish_question_def)

lemma unasked_end: "unasked g \<Longrightarrow> end_connection e g = (g, [], [])"
  by (simp add: end_connection_def reading_def nothing_def unasked_def split: phase.splits)

lemma end_gate_calm: "calm (end_gate t)"
  by (simp add: calm_def end_gate_def andthen_def act_defs harmless_def unasked_end)

lemma publish_status_calm: "calm publish_status_if_dirty"
  by (simp add: calm_def publish_status_if_dirty_def act_defs unasked_def split: phase.split)

lemma gate_event_calm: "calm (gate_event api e now)"
  by (auto simp: calm_def gate_event_def act_defs unasked_def reset_gate_def split: phase.split event.split)

lemma with_connection_unasked: "unasked g \<Longrightarrow> with_connection f now g = (g, [], [])"
  by (simp add: with_connection_def reading_def nothing_def unasked_def split: phase.splits)

lemma entered_unasked:
  "unasked g \<Longrightarrow> \<not> trusted (h_policy g) fg \<Longrightarrow> unasked (entered_gate fg now g)"
  by (simp add: entered_gate_def unasked_def publish_question_def Let_def)

lemma no_foreground_untrusted [simp]: "\<not> trusted pol no_foreground"
  by (simp add: trusted_def no_foreground_def)

lemma gate_event_policy: "unasked g \<Longrightarrow> h_policy (fst (gate_event api e now g)) = h_policy g"
  by (simp add: gate_event_def act_defs unasked_def reset_gate_def split: phase.splits event.split)

lemma entered_policy [simp]: "h_policy (entered_gate fg now g) = h_policy g"
  by (simp add: entered_gate_def publish_question_def Let_def)

lemma feed_events_calm:
  "unasked g \<Longrightarrow> (case fg of None \<Rightarrow> True | Some f \<Rightarrow> \<not> trusted (h_policy g) f) \<Longrightarrow>
    (case feed_events api fg now es g of (g', out, as, effs) \<Rightarrow> unasked g' \<and> list_all harmless as \<and> effs = [])"
proof (induction es arbitrary: g fg)
  case (Cons e es)
  let ?fg = "case fg of None \<Rightarrow> no_foreground | Some f \<Rightarrow> f"
  have step: ?case if e: "feed_events api fg now (e # es) g = (case gate_event api e now g of (g1, as1, effs1) \<Rightarrow>
      (case feed_events api fg now es g1 of (g', out, as, effs) \<Rightarrow> (g', out, as1 @ as, effs1 @ effs)))"
  proof -
    obtain g1 as1 effs1 where g1: "gate_event api e now g = (g1, as1, effs1)" by (metis surj_pair)
    then have c: "unasked g1 \<and> list_all harmless as1 \<and> effs1 = []" using calmD [OF gate_event_calm Cons.prems(1)] by blast
    have "h_policy g1 = h_policy g" using gate_event_policy [OF Cons.prems(1), of api e now] g1 by simp
    then have "case feed_events api fg now es g1 of (g', out, as, effs) \<Rightarrow> unasked g' \<and> list_all harmless as \<and> effs = []"
      using c Cons.prems(2) by (intro Cons.IH) (simp, cases fg, simp_all)
    then show ?thesis using c e g1 by (auto split: prod.splits)
  qed
  show ?case
  proof (cases e)
    case (EPassthrough bs)
    then show ?thesis using Cons.IH [OF Cons.prems] by (auto split: prod.splits)
  next
    case EEntered
    have "\<not> trusted (h_policy g) ?fg" using Cons.prems(2) by (cases fg) simp_all
    then have "unasked (entered_gate ?fg now g)" by (rule entered_unasked [OF Cons.prems(1)])
    then show ?thesis using EEntered Cons.IH [of "entered_gate ?fg now g" None] by (auto split: prod.splits)
  qed (use step in simp_all)
qed simp

lemma count_held_policy [simp]: "h_policy (count_held n g) = h_policy g"
  by (simp add: count_held_def split: phase.split)

lemma gate_feed_calm:
  assumes "unasked g" "\<not> trusted (h_policy g) fg" "gate_feed api bs now fg g = (g', f, effs)"
  shows "unasked g' \<and> list_all harmless (fd_actions f) \<and> effs = []"
proof -
  let ?g = "count_held (length bs) g"
  have u: "unasked ?g" using assms(1) by simp
  obtain cl r where c: "client_feed (h_client ?g) bs = (cl, r)" by force
  show ?thesis
  proof (cases "flooded ?g")
    case True
    obtain g1 as e1 where d: "deny ''denied: too much output while the question stood'' now ?g = (g1, as, e1)" by (metis surj_pair)
    then show ?thesis using calmD [OF deny_calm u d] True assms(3) by (auto simp: gate_feed_def Let_def)
  next
    case False
    let ?gc = "?g\<lparr>h_client := cl\<rparr>"
    have uc: "unasked ?gc" using u by simp
    show ?thesis
    proof (cases r)
      case (Inl e)
      obtain g1 as e1 where d: "end_gate (ended_text e) ?gc = (g1, as, e1)" by (metis surj_pair)
      then show ?thesis using calmD [OF end_gate_calm uc d] False Inl c assms(3) by (auto simp: gate_feed_def Let_def)
    next
      case (Inr es)
      obtain g1 out as e1 where d: "feed_events api (Some fg) now es ?gc = (g1, out, as, e1)" by (metis surj_pair)
      have u1: "unasked g1 \<and> list_all harmless as \<and> e1 = []"
        using feed_events_calm [OF uc, of "Some fg" api now es] assms(2) d by simp
      obtain g2 as2 e2 where p: "publish_status_if_dirty g1 = (g2, as2, e2)" by (metis surj_pair)
      then show ?thesis
        using calmD [OF publish_status_calm _ p] u1 d False Inr c assms(3) by (auto simp: gate_feed_def Let_def)
    qed
  qed
qed

lemma tick_calm: "calm (tick now)"
  unfolding calm_def
proof (intro allI impI)
  fix g
  assume u: "unasked g"
  show "case tick now g of (g', as, effs) \<Rightarrow> unasked g' \<and> list_all harmless as \<and> effs = []"
  proof (cases "h_phase g")
    case (Asking deadline held n origin)
    then show ?thesis using deny_calm u by (simp add: tick_def reading_def nothing_def calm_def)
  qed (use u in \<open>simp_all add: tick_def act_defs unasked_def reset_gate_def\<close>)
qed

lemma deny_answer_calm: "calm (answer api Deny now)"
  unfolding calm_def
proof (intro allI impI)
  fix g
  assume u: "unasked g"
  show "case answer api Deny now g of (g', as, effs) \<Rightarrow> unasked g' \<and> list_all harmless as \<and> effs = []"
  proof (cases "h_phase g")
    case (Asking deadline held n origin)
    let ?g = "g\<lparr>h_phase := Asking deadline [] n origin\<rparr>"
    have "unasked ?g" using u by (simp add: unasked_def)
    then show ?thesis using deny_calm Asking by (simp add: answer_def reading_def andthen_def modify_def calm_def split: prod.splits)
  qed (use u in \<open>simp_all add: answer_def reading_def nothing_def unasked_def\<close>)
qed

lemma calls_calm:
  "calm (request r now)" "calm (work_done_act d now)" "calm (pane_command alt i cmd now)" "calm control_exited"
  using publish_status_calm
  by (simp_all add: calm_def request_def work_done_act_def pane_command_def control_exited_def andthen_def
      with_connection_unasked unasked_end act_defs split: prod.splits)

text \<open>
  A run without a consent, with every action it asked for: output of programs the policy does not trust,
  time, refusals, changes of the policy, and calls that are of no connection.
\<close>

inductive unconsented :: "'v json_api \<Rightarrow> gate \<Rightarrow> gate_action list \<Rightarrow> bool" for api where
  made: "unconsented api (new_gate pol mb) []"
| policy: "unconsented api g as \<Longrightarrow> unconsented api (set_policy pol g) as"
| fed: "unconsented api g as \<Longrightarrow> \<not> trusted (h_policy g) fg \<Longrightarrow> gate_feed api bs now fg g = (g', f, effs) \<Longrightarrow>
    unconsented api g' (as @ fd_actions f)"
| ticked: "unconsented api g as \<Longrightarrow> tick now g = (g', as', effs) \<Longrightarrow> unconsented api g' (as @ as')"
| denied: "unconsented api g as \<Longrightarrow> answer api Deny now g = (g', as', effs) \<Longrightarrow> unconsented api g' (as @ as')"
| requested: "unconsented api g as \<Longrightarrow> request r now g = (g', as', effs) \<Longrightarrow> unconsented api g' (as @ as')"
| worked: "unconsented api g as \<Longrightarrow> work_done_act d now g = (g', as', effs) \<Longrightarrow> unconsented api g' (as @ as')"
| commanded: "unconsented api g as \<Longrightarrow> pane_command alt i cmd now g = (g', as', effs) \<Longrightarrow> unconsented api g' (as @ as')"
| over: "unconsented api g as \<Longrightarrow> control_exited g = (g', as', effs) \<Longrightarrow> unconsented api g' (as @ as')"

lemma unconsented_calm: "unconsented api g as \<Longrightarrow> unasked g \<and> list_all harmless as"
proof (induction rule: unconsented.induct)
  case (made pol mb)
  then show ?case by (simp add: unasked_def new_gate_def)
next
  case (fed g as fg bs now g' f effs)
  then show ?case using gate_feed_calm [of g fg api bs now] by auto
next
  case (ticked g as now g' as' effs)
  then show ?case using calmD [OF tick_calm, of g now] by auto
next
  case (denied g as now g' as' effs)
  then show ?case using calmD [OF deny_answer_calm, of g api now] by auto
next
  case (requested g as r now g' as' effs)
  then show ?case using calmD [OF calls_calm(1), of g r now] by auto
next
  case (worked g as d now g' as' effs)
  then show ?case using calmD [OF calls_calm(2), of g d now] by auto
next
  case (commanded g as alt i cmd now g' as' effs)
  then show ?case using calmD [OF calls_calm(3), of g alt i cmd now] by auto
next
  case (over g as g' as' effs)
  then show ?case using calmD [OF calls_calm(4), of g] by auto
qed simp

section \<open>A stream that breaks\<close>

text \<open>
  A stream that breaks while the question stands ends the question without withdrawing it: the gate is
  plain again, and the snapshot that was published still has the question.
\<close>

lemma broken_stream_keeps_question:
  assumes "h_phase g = Asking deadline held n origin" "n + length bs \<le> HELD_BYTES_MAX"
    "client_feed (h_client g) bs = (cl, Inl e)"
  shows "case gate_feed api bs now fg g of (g', _, _) \<Rightarrow> h_phase g' = PlainPhase \<and> h_published g' = h_published g"
  using assms
  by (simp add: gate_feed_def Let_def count_held_def flooded_def end_gate_def end_connection_def andthen_def act_defs reset_gate_def)

section \<open>Properties\<close>

text \<open>
  C10. Without a consent nothing reaches the program. Whatever an untrusted program prints, a marker and a
  whole protocol among it, in any reads, and whatever else happens short of an allow, the gate never probes
  or connects, and everything it asks for is a notice to the user or the single newline that detaches.
\<close>

theorem unconsented_writes_nothing:
  assumes "unconsented api g as"
  shows "list_all (\<lambda>a. (\<exists>t. a = Notice t) \<or> a = Write [byte_of 10]) as \<and>
    (\<forall>v c. h_phase g \<noteq> Connected v c) \<and> (\<forall>d t s o'. h_phase g \<noteq> Probing d t s o')"
proof -
  have h: "harmless = (\<lambda>a. (\<exists>t. a = Notice t) \<or> a = Write [byte_of 10])"
    by (rule ext) (simp add: harmless_def split: gate_action.split)
  have u: "unasked g" "list_all harmless as" using unconsented_calm [OF assms] by simp_all
  have "(\<forall>v c. h_phase g \<noteq> Connected v c) \<and> (\<forall>d t s o'. h_phase g \<noteq> Probing d t s o')"
    using u(1) by (cases "h_phase g") (simp_all add: unasked_def)
  then show ?thesis using u(2) unfolding h by (rule conjI [rotated])
qed

definition demo_policy :: tmux_policy where
  "demo_policy = \<lparr>pol_enabled = True, pol_trust = []\<rparr>"

definition demo_ssh :: foreground where
  "demo_ssh = \<lparr>fg_name = Some ''ssh'', fg_command = Some ''ssh host''\<rparr>"

lemma marker_fed:
  "\<exists>cl. client_feed (fresh_client demo_policy) MARKER = (cl, Inr [EPassthrough MARKER, EEntered]) \<and>
    idle cl \<and> c_pending cl = [] \<and> d_limits (c_decoder cl) = default_limits"
  by (simp add: client_feed_def fresh_client_def client_arm_def arm_def demo_policy_def new_client_def with_decoder_def
      new_decoder_def feed_def feed_inner_def MARKER_def ESC_def feed_loop_match feed_loop_esc [where xs = "[]", unfolded ESC_def, simplified]
      plain_byte_def flush_def client_event_def idle_def)

lemma ssh_untrusted: "\<not> trusted demo_policy demo_ssh"
  by (simp add: trusted_def demo_policy_def demo_ssh_def program_word_def)

lemma marker_asks:
  "\<exists>g f. gate_feed demo_api MARKER now demo_ssh (new_gate demo_policy 10) = (g, f, []) \<and> fd_actions f = [] \<and>
    (\<exists>origin. h_phase g = Asking (now + QUESTION_TIMEOUT) [] 0 origin)"
proof -
  obtain cl where "client_feed (fresh_client demo_policy) MARKER = (cl, Inr [EPassthrough MARKER, EEntered])" using marker_fed by blast
  then show ?thesis
    using ssh_untrusted
    by (simp add: gate_feed_def count_held_def flooded_def new_gate_def Let_def entered_gate_def publish_question_def
        publish_status_if_dirty_def reading_def nothing_def)
qed

theorem unconsented_writes_nothing_witness:
  "\<exists>g. unconsented demo_api g [Write [byte_of 10], Notice ''tmux control mode denied''] \<and>
    (\<exists>d. h_phase g = Draining d) \<and> list_all (\<lambda>a. (\<exists>t. a = Notice t) \<or> a = Write [byte_of 10])
      [Write [byte_of 10], Notice ''tmux control mode denied'']"
proof -
  obtain g f origin where g: "gate_feed demo_api MARKER 0 demo_ssh (new_gate demo_policy 10) = (g, f, [])" "fd_actions f = []"
    "h_phase g = Asking (0 + QUESTION_TIMEOUT) [] 0 origin"
    using marker_asks [of 0] by blast
  have "h_policy (new_gate demo_policy 10) = demo_policy" by (simp add: new_gate_def)
  then have u: "unconsented demo_api g []" using unconsented.fed [OF unconsented.made _ g(1)] ssh_untrusted g(2) by simp
  obtain g' where a: "answer demo_api Deny 0 g = (g', [Write [byte_of 10], Notice ''tmux control mode denied''], [])"
      "h_phase g' = Draining (0 + DRAIN_TIMEOUT)"
    using g(3) by (simp add: answer_def deny_def andthen_def act_defs)
  have v: "unconsented demo_api g' [Write [byte_of 10], Notice ''tmux control mode denied'']"
    using unconsented.denied [OF u a(1)] by simp
  show ?thesis using unconsented_writes_nothing [OF v] v a(2) by blast
qed

text \<open>
  C13. A question ends by itself: in whatever state the gate asks, the first tick at its deadline withdraws
  the question, writes the newline and drains, and a tick two seconds later makes the stream plain again,
  with a fresh client that listens for the marker as the policy says.
\<close>

theorem question_times_out:
  assumes "h_phase g = Asking deadline held n origin" "deadline \<le> t" "t + 2 * second \<le> t'"
  shows "case tick t g of (g1, actions, _) \<Rightarrow>
    actions = [Write [byte_of 10], Notice ''tmux control mode denied: no answer''] \<and> co_question (h_published g1) = None \<and>
    co_revision (h_published g1) = (h_revision g + 1) mod 2 ^ 64 \<and> \<not> accepts_input g1 \<and>
    (case tick t' g1 of (g2, actions', _) \<Rightarrow> actions' = [] \<and> accepts_input g2 \<and> h_client g2 = fresh_client (h_policy g))"
  using assms
  by (simp add: tick_def deny_def andthen_def act_defs publish_question_def accepts_input_def reset_gate_def DRAIN_TIMEOUT_def)

theorem question_times_out_witness:
  "\<exists>g f. gate_feed demo_api MARKER 0 demo_ssh (new_gate demo_policy 10) = (g, f, []) \<and> \<not> accepts_input g \<and>
    accepts_input (fst (tick (62 * second) (fst (tick (60 * second) g))))"
proof -
  obtain g f origin where g: "gate_feed demo_api MARKER 0 demo_ssh (new_gate demo_policy 10) = (g, f, [])"
    "h_phase g = Asking (0 + QUESTION_TIMEOUT) [] 0 origin"
    using marker_asks [of 0] by blast
  have t: "0 + QUESTION_TIMEOUT \<le> 60 * second" "60 * second + 2 * second \<le> 62 * second" by (simp_all add: QUESTION_TIMEOUT_def)
  show ?thesis using question_times_out [OF g(2) t] g by (auto simp: accepts_input_def split: prod.splits)
qed

text \<open>
  C11. Whatever is read, answered, asked and typed, in any order, a gate connects only to a tmux of version
  3.2 or later, and the connection it drives stays within its bounds: at most 96 panes, each once, at most
  8 errors, a backlog of at most 64 KiB whose size is counted exactly, and the windows in the order of
  their ids.
\<close>

theorem gate_connection_bounded:
  assumes "gate_reach api g" "h_phase g = Connected v c"
  shows "TmuxVersion 3 2 \<le> v \<and> length (k_panes c) \<le> 96 \<and> distinct (map fst (k_panes c)) \<and> length (k_errors c) \<le> 8 \<and>
    k_backlog_bytes c = sum_list (map (\<lambda>e. length (snd e)) (k_backlog c)) \<and> k_backlog_bytes c \<le> 65536 \<and>
    sorted_wrt (\<lambda>a b. window_num a < window_num b) (map fst (k_windows c))"
  using gate_reach_ok [OF assms(1)] assms(2)
  by (simp add: gate_ok_def conn_ok_def VERSION_FLOOR_def PANE_CAP_def ERRORS_MAX_def backlog_size_def INPUT_BACKLOG_MAX_def ordered_def)

text \<open>A whole connection: a local tmux announces its session and answers the probe.\<close>

definition demo_tmux :: foreground where
  "demo_tmux = \<lparr>fg_name = Some ''tmux: client'', fg_command = Some ''tmux -CC''\<rparr>"

lemma demo_probing:
  "\<exists>g origin. gate_reach demo_api g \<and> h_phase g = Probing PROBE_TIMEOUT None None origin \<and>
    client_running (h_client g) \<and> idle (h_client g) \<and> c_pending (h_client g) = [] \<and>
    d_limits (c_decoder (h_client g)) = default_limits"
proof -
  obtain cl where cl: "client_feed (fresh_client demo_policy) MARKER = (cl, Inr [EPassthrough MARKER, EEntered])"
    "idle cl" "c_pending cl = []" "d_limits (c_decoder cl) = default_limits"
    using marker_fed by blast
  have "client_running (fresh_client demo_policy)"
    unfolding fresh_client_def by (rule client_arm_running [OF new_client_running(1)])
  then have r: "client_running cl" using client_feed_cases [of "fresh_client demo_policy" MARKER] cl(1) by auto
  have t: "trusted demo_policy demo_tmux" by (simp add: trusted_def demo_tmux_def program_word_def)
  let ?g = "fst (gate_feed demo_api MARKER 0 demo_tmux (new_gate demo_policy 10))"
  have "\<exists>origin. h_phase ?g = Probing PROBE_TIMEOUT None None origin \<and> h_client ?g = cl"
    using cl(1) t by (simp add: gate_feed_def count_held_def flooded_def new_gate_def Let_def entered_gate_def
        publish_status_if_dirty_def reading_def nothing_def)
  moreover have "gate_reach demo_api ?g" by (intro gate_reach.fed gate_reach.made)
  ultimately show ?thesis using r cl(2-4) by blast
qed

lemma next_differs: "(n + 1) mod 2 ^ 64 \<noteq> (n :: nat)"
  by (cases "n < 2 ^ 64") (auto simp: mod_Suc)

lemma demo_announced:
  assumes "gate_reach api g" "h_phase g = Probing deadline None None origin" "client_running (h_client g)" "idle (h_client g)"
    "c_pending (h_client g) = []" "d_limits (c_decoder (h_client g)) = default_limits"
  shows "\<exists>g' t u s. gate_reach api g' \<and> h_phase g' = Probing deadline (Some u) s origin \<and> t \<noteq> u \<and>
    ready (h_client g') [(t, Whole), (u, Whole)]"
proof -
  let ?bs = "line_bytes True (message_line None (SessionChanged (SessionId 0) ''x''))"
  obtain c1 where c1: "client_feed (h_client g) ?bs = (c1, Inr [EMessage (SessionChanged (SessionId 0) ''x'')])" "ready c1 []"
    using announce_fed [OF assms(3-6)] by blast
  obtain c2 b2 where c2: "submit c1 Interrupt = (c2, Inr (Token (c_next c1), b2))" "ready c2 [(Token (c_next c1), Whole)]"
      "c_next c2 = (c_next c1 + 1) mod 2 ^ 64"
    using submit_ready [OF c1(2), of Interrupt] by (auto simp: capture_too_big_def Tmux_Client.MAX_PENDING_def)
  obtain c3 b3 where c3: "submit c2 Version = (c3, Inr (Token (c_next c2), b3))"
      "ready c3 [(Token (c_next c1), Whole), (Token (c_next c2), Whole)]"
    using submit_ready [OF c2(2), of Version] by (auto simp: capture_too_big_def Tmux_Client.MAX_PENDING_def)
  have ne: "Token (c_next c1) \<noteq> Token (c_next c2)" using next_differs [of "c_next c1"] c2(3) by simp
  let ?g = "fst (gate_feed api ?bs 0 no_foreground g)"
  have p: "submit_probe c1 = (c3, [Write b2, Write b3], Inr (Token (c_next c2)))"
    using c2(1) c3(1) by (simp add: submit_probe_def)
  have "h_phase ?g = Probing deadline (Some (Token (c_next c2))) (Some (SessionId 0, ''x'')) origin \<and> h_client ?g = c3"
    using assms(2) c1(1) p
    by (simp add: gate_feed_def count_held_def flooded_def Let_def gate_event_def probing_event_def announced_def
        publish_status_if_dirty_def andthen_def act_defs issue_all_def del: message_line.simps)
  moreover have "gate_reach api ?g" using assms(1) by (rule gate_reach.fed)
  ultimately show ?thesis using c3(2) ne by metis
qed

lemma demo_reply:
  assumes "ready c ((t, Whole) # ps)" "row = ''ok'' \<or> row = ''3.4''"
  shows "\<exists>c1. client_feed c (block_stream True ''1 2 1'' [row] True) = (c1, Inr [EReply t (Inr [row])]) \<and> ready c1 ps"
  using assms by (intro reply_ready) (auto simp: rows_fit_def line_fits_def rows_bytes_def default_limits_def)

lemma demo_connected: "\<exists>g v c. gate_reach demo_api g \<and> h_phase g = Connected v c"
proof -
  obtain g t u s deadline origin where g: "gate_reach demo_api g" "h_phase g = Probing deadline (Some u) s origin" "t \<noteq> u"
      "ready (h_client g) [(t, Whole), (u, Whole)]"
    using demo_probing demo_announced by metis
  let ?r1 = "block_stream True ''1 2 1'' [''ok''] True" and ?r2 = "block_stream True ''1 2 1'' [''3.4''] True"
  obtain c1 where c1: "client_feed (h_client g) ?r1 = (c1, Inr [EReply t (Inr [''ok''])])" "ready c1 [(u, Whole)]"
    using demo_reply [OF g(4)] by blast
  let ?g1 = "fst (gate_feed demo_api ?r1 0 no_foreground g)"
  have g1: "h_phase ?g1 = Probing deadline (Some u) s origin" "h_client ?g1 = c1"
    using g(2,3) c1(1)
    by (simp_all add: gate_feed_def count_held_def flooded_def Let_def gate_event_def probing_event_def
        publish_status_if_dirty_def act_defs)
  have r1: "gate_reach demo_api ?g1" using g(1) by (rule gate_reach.fed)
  obtain c2 where c2: "client_feed c1 ?r2 = (c2, Inr [EReply u (Inr [''3.4''])])" "ready c2 []"
    using demo_reply [OF c1(2)] by blast
  obtain c3 b3 where c3: "submit c2 (PauseAfter PAUSE_AFTER_SECS) = (c3, Inr (Token (c_next c2), b3))"
      "ready c3 [(Token (c_next c2), Whole)]"
    using submit_ready [OF c2(2), of "PauseAfter PAUSE_AFTER_SECS"] by (auto simp: capture_too_big_def Tmux_Client.MAX_PENDING_def)
  obtain c4 b4 where c4: "submit c3 ListWindows = (c4, Inr (Token (c_next c3), b4))"
    using submit_ready [OF c3(2), of ListWindows] by (auto simp: capture_too_big_def Tmux_Client.MAX_PENDING_def)
  have "show_nat 3 @ ''.'' @ show_nat 4 @ [] = ''3.4''" by code_simp
  then have "parse_version ''3.4'' = Some (TmuxVersion 3 4)"
    using parse_version_show [of 3 4 "[]" "[]"] by simp
  then have v: "reply_version (Inr [''3.4'']) = Some (TmuxVersion 3 4)" by (simp add: reply_version_def utf8_valid_ascii)
  have f: "VERSION_FLOOR \<le> TmuxVersion 3 4" "\<not> TmuxVersion 3 8 \<le> TmuxVersion 3 4"
    by (simp_all add: VERSION_FLOOR_def less_eq_tmux_version_def)
  have "\<exists>c. h_phase (fst (gate_feed demo_api ?r2 0 no_foreground ?g1)) = Connected (TmuxVersion 3 4) c"
    using g1 c2(1) c3(1) c4 v f
    by (simp add: gate_feed_def [of _ ?r2] count_held_def flooded_def Let_def gate_event_def probing_event_def probed_def connect_def
        start_def new_connection_def publish_status_if_dirty_def take_dirty_def andthen_def act_defs issue_all_def)
  then show ?thesis using gate_reach.fed [OF r1, of ?r2 0 no_foreground] by blast
qed

theorem gate_connection_bounded_witness:
  "\<exists>g v c. gate_reach demo_api g \<and> h_phase g = Connected v c \<and> TmuxVersion 3 2 \<le> v \<and> length (k_panes c) \<le> 96"
proof -
  obtain g v c where g: "gate_reach demo_api g" "h_phase g = Connected v c" using demo_connected by blast
  then show ?thesis using gate_connection_bounded [OF g] by blast
qed

end
