(* ===== verification/Spec2Isabelle.thy ===== *)
theory Spec2Isabelle
  imports Tmux_Layout Tmux_Client Visible_Scan Ring_Mirror Status_Query Request_Status Gate_Safety
begin

text \<open>
  Verification of chan (\<^verbatim>\<open>src/\<close>): a Rust server that keeps workspaces, terminals and documents and shows
  them to browsers, a desktop shell and a gateway. The development models the parts of it that are
  protocols and data structures with no I/O of their own.

  The crate \<^verbatim>\<open>crates/chan-tmux\<close> speaks the control mode of tmux. Bytes from tmux go through the decoder,
  which frames them into lines and reply blocks; the client pairs blocks with the commands that asked
  for them and reads notifications; commands are rendered to lines.

  \<^item> \<open>Prelude\<close>: byte strings, results, machine integers and slices as Rust's core library has them, and
    the locale \<open>incremental\<close>, the contract of a reader whose reads can end anywhere.
  \<^item> \<open>Rust_Str\<close>: number parsing and printing, UTF-8.
  \<^item> \<open>Tmux_Ids\<close> (\<^verbatim>\<open>ids.rs\<close>, \<^verbatim>\<open>error.rs\<close>), \<open>Tmux_Escape\<close> (\<^verbatim>\<open>escape.rs\<close>), \<open>Tmux_Layout\<close> (\<^verbatim>\<open>layout.rs\<close>),
    \<open>Tmux_Message\<close> (\<^verbatim>\<open>message.rs\<close>), \<open>Tmux_Command\<close> (\<^verbatim>\<open>command.rs\<close>), \<open>Tmux_Decode\<close> (\<^verbatim>\<open>decode.rs\<close>) and
    \<open>Tmux_Client\<close> (\<^verbatim>\<open>client.rs\<close>): one theory per source file, one definition per function.
  \<^item> \<open>Visible_Scan\<close> (\<^verbatim>\<open>crates/chan-library/src/terminal_sessions/bytes.rs\<close>): which bytes of terminal output a user
    can see, counted across reads.
  \<^item> \<open>Ring_Buffer\<close>, \<open>Terminal_State\<close>, \<open>Ring_File\<close>, \<open>Ring_Mirror\<close> (\<^verbatim>\<open>ring.rs\<close> beside it): the ring of output a client is replayed,
    and the file that carries it across a restart, written so that a crash at any write leaves it readable.
  \<^item> \<open>Status_Framing\<close> (\<^verbatim>\<open>program_status.rs\<close>): the framer that finds program reports in terminal output;
    \<open>Status_Report\<close>: the parser of a report; \<open>Program_Status\<close>: the status a terminal retains and publishes;
    \<open>Status_Safety\<close>: its operations as a state machine with its invariant.
  \<^item> \<open>Status_Query\<close> (\<^verbatim>\<open>program_status_query.rs\<close>): the bounded answers to capability queries; \<open>Request_Status\<close>
    (\<^verbatim>\<open>request_status.rs\<close>): the marks of chan's own requests and the leases that hold them.
  \<^item> \<open>Acts\<close>: code that changes a state while it pushes onto the lists its caller passes, with the rules by
    which an invariant is carried through a sequence of statements.
  \<^item> \<open>Tmux_Connection\<close> (\<^verbatim>\<open>tmux_connection.rs\<close>): the windows and panes of a connected tmux, the sessions that
    show them and the input on its way; \<open>Connection_Safety\<close>: its invariant and the fate of typed input.
  \<^item> \<open>Tmux_Gate\<close> (\<^verbatim>\<open>tmux_gate.rs\<close>): the consent question, the probe and the connection of one terminal;
    \<open>Gate_Safety\<close>: its operations as a state machine, before a consent and over any run.

  What is shown. For the readers with bulk loops (the decoder, the status framer) the result does not
  depend on how the stream was cut into reads, each by an interpretation of \<open>incremental\<close>, and the bulk
  loops are the automata that take one byte at a time; the visible scan counts exactly the visible bytes
  of any output, cut anywhere. For the formats (escapes, layouts, reports, the terminal state, the ring
  file) what is written is read back and what is accepted is within the limits; the notification parser
  gives exactly the well-formed messages, and no two commands render to the same line. For the state
  machines (client, status, gate) an invariant holds over every sequence of operations: replies are
  paired with the commands that asked for them under tokens that are new, a failure has its cause in the
  input, and queues and records stay bounded. Before a consent the gate writes nothing to a program but
  single newlines, and a tick at the deadline of a standing question withdraws it. One way a question
  ends without being withdrawn is kept as the lemma \<open>broken_stream_keeps_question\<close>. The ring in memory holds
  as much of the stream as fits, in whole pushes, and a crash between any two writes of the ring file
  leaves an unbroken run of it.

  Bounds. Rust's unsigned integers are natural numbers, with the checks, wraps and saturations of the source
  written out where a value can reach its width; the limits of the source are definitions of their own
  values. Every loop of the model is structural recursion or has a termination proof, so no fuel is used.

  Outside the model, as arguments: the JSON and base64 libraries, the clock, the process table, the writes
  of a file that fail. How tmux itself reads a command line or prints a notification is not modelled. Not modelled either: pseudo terminals, threads, channels and the async registry around these
  parts, the HTTP and tunnel servers, the workspace index, the desktop shell and the web application.
\<close>

end
